(* ===== verification/Vmars_Prelude.thy ===== *)
theory Vmars_Prelude
  imports Main "HOL-Library.Word" "HOL-Library.Sublist"
begin

text \<open>
  Shared ground of the development: the types of the model (bytes, C pointers as suffixes
  of the memory they point into, results that may be a fault), the C integer conversions
  the code relies on, the string functions of the C library it calls, the little-endian
  layout of its integers, and the generic lemmas the components share.

  A C execution that has undefined behaviour is a value of the model: \<open>Inl\<close> of a
  \<open>fault\<close>. Memory safety of a function is then the theorem that its model never
  returns \<open>Inl OutOfBounds\<close>.
\<close>

unbundle bit_operations_syntax

named_theorems c_simps \<open>evaluation rules of the C primitives on values known to be in range\<close>

subsection \<open>Bytes, faults and results\<close>

type_synonym byte = "8 word"

text \<open>
  \<open>OutOfBounds\<close> is a read or write outside the object a pointer points into,
  \<open>SignedOverflow\<close> an \<open>int\<close> operation whose result does not fit in 32 bits,
  \<open>OutOfFuel\<close> the exhaustion of the step budget of a loop whose termination depends on
  its data (never reached by the code's own inputs, as the theorems on it show).
\<close>

datatype fault = OutOfBounds | SignedOverflow | OutOfFuel

type_synonym 'a res = "fault + 'a"

definition and_then :: "'a res \<Rightarrow> ('a \<Rightarrow> 'b res) \<Rightarrow> 'b res" where
  "and_then m f = (case m of Inl e \<Rightarrow> Inl e | Inr x \<Rightarrow> f x)"

lemma and_then_Inr [simp]: "and_then (Inr x) f = f x"
  by (simp add: and_then_def)

lemma and_then_Inl [simp]: "and_then (Inl e) f = Inl e"
  by (simp add: and_then_def)

lemma and_then_eq_Inr: "and_then m f = Inr y \<longleftrightarrow> (\<exists>x. m = Inr x \<and> f x = Inr y)"
  by (cases m) auto

lemma and_thenE:
  assumes "and_then m f = Inr y" obtains x where "m = Inr x" and "f x = Inr y"
  using assms by (auto simp: and_then_eq_Inr)

lemma and_then_eq_Inl: "and_then m f = Inl e \<longleftrightarrow> m = Inl e \<or> (\<exists>x. m = Inr x \<and> f x = Inl e)"
  by (cases m) auto

lemma and_then_assoc: "and_then (and_then m f) g = and_then m (\<lambda>x. and_then (f x) g)"
  by (cases m) auto

lemma and_then_pull: "(\<And>x. f x = and_then (g x) h) \<Longrightarrow> and_then m f = and_then (and_then m g) h"
  by (cases m) auto

lemma and_then_cong [fundef_cong]:
  "m = n \<Longrightarrow> (\<And>x. n = Inr x \<Longrightarrow> f x = g x) \<Longrightarrow> and_then m f = and_then n g"
  by (cases n) auto

text \<open>\<open>safe m\<close>: the computation does not leave the objects it was given.\<close>

definition in_bounds :: "'a res \<Rightarrow> bool" where
  "in_bounds m \<longleftrightarrow> m \<noteq> Inl OutOfBounds \<and> m \<noteq> Inl OutOfFuel"

lemma in_bounds_Inr [simp]: "in_bounds (Inr x)"
  by (simp add: in_bounds_def)

lemma in_bounds_overflow [simp]: "in_bounds (Inl SignedOverflow)"
  by (simp add: in_bounds_def)

lemma in_bounds_and_then:
  "in_bounds m \<Longrightarrow> (\<And>x. m = Inr x \<Longrightarrow> in_bounds (f x)) \<Longrightarrow> in_bounds (and_then m f)"
  by (cases m) (auto simp: in_bounds_def)

lemma in_bounds_if: "(b \<Longrightarrow> in_bounds x) \<Longrightarrow> (\<not> b \<Longrightarrow> in_bounds y) \<Longrightarrow> in_bounds (if b then x else y)"
  by simp

subsection \<open>Reads and integers\<close>

text \<open>
  A \<open>const char*\<close> is the list of the bytes from the pointer to the end of the object it
  points into: \<open>p[i]\<close> is a read at index \<open>i\<close> of that list, \<open>&p[i]\<close> the list
  without its first \<open>i\<close> elements.
\<close>

definition c_read :: "'a list \<Rightarrow> int \<Rightarrow> 'a res" where
  "c_read buf i = (if 0 \<le> i \<and> i < int (length buf) then Inr (buf ! nat i) else Inl OutOfBounds)"

definition c_offset :: "'a list \<Rightarrow> int \<Rightarrow> 'a list res" where
  "c_offset buf i =
     (if 0 \<le> i \<and> i \<le> int (length buf) then Inr (drop (nat i) buf) else Inl OutOfBounds)"

lemma c_read_in [c_simps]: "0 \<le> i \<Longrightarrow> i < int (length buf) \<Longrightarrow> c_read buf i = Inr (buf ! nat i)"
  by (simp add: c_read_def)

lemma c_offset_in [c_simps]:
  "0 \<le> i \<Longrightarrow> i \<le> int (length buf) \<Longrightarrow> c_offset buf i = Inr (drop (nat i) buf)"
  by (simp add: c_offset_def)

text \<open>The result of an \<open>int\<close> operation: signed overflow is undefined in C.\<close>

definition c_int :: "int \<Rightarrow> int res" where
  "c_int x = (if - (2 ^ 31) \<le> x \<and> x < 2 ^ 31 then Inr x else Inl SignedOverflow)"

lemma c_int_in [c_simps]: "- 2147483648 \<le> x \<Longrightarrow> x < 2147483648 \<Longrightarrow> c_int x = Inr x"
  by (simp add: c_int_def)

lemma in_bounds_c_int [simp]: "in_bounds (c_int x)"
  by (simp add: c_int_def)

text \<open>The conversions between \<open>int\<close> and the 64-bit \<open>size_t\<close>.\<close>

definition int_to_size :: "int \<Rightarrow> nat" where
  "int_to_size x = nat (x mod 2 ^ 64)"

definition size_to_int :: "nat \<Rightarrow> int" where
  "size_to_int n = (int n + 2 ^ 31) mod 2 ^ 32 - 2 ^ 31"

definition size_sub :: "nat \<Rightarrow> nat \<Rightarrow> nat" where
  "size_sub a b = nat ((int a - int b) mod 2 ^ 64)"

definition size_add :: "nat \<Rightarrow> nat \<Rightarrow> nat" where
  "size_add a b = nat ((int a + int b) mod 2 ^ 64)"

lemma int_to_size_in [c_simps]: "0 \<le> x \<Longrightarrow> x < 2 ^ 31 \<Longrightarrow> int_to_size x = nat x"
  by (simp add: int_to_size_def)

lemma int_to_size_negative: "- (2 ^ 31) \<le> x \<Longrightarrow> x < 0 \<Longrightarrow> int_to_size x = nat (x + 2 ^ 64)"
proof -
  assume "- (2 ^ 31) \<le> x" "x < 0"
  then have "x mod 2 ^ 64 = (x + 2 ^ 64) mod 2 ^ 64" and "0 \<le> x + 2 ^ 64" and "x + 2 ^ 64 < 2 ^ 64"
    by simp_all
  then show ?thesis by (simp add: int_to_size_def del: mod_add_self2)
qed

lemma size_to_int_in [c_simps]: "n < 2 ^ 31 \<Longrightarrow> size_to_int n = int n"
  by (simp add: size_to_int_def)

lemma size_add_in [c_simps]: "a + b < 2 ^ 64 \<Longrightarrow> size_add a b = a + b"
  by (simp add: size_add_def nat_add_distrib)

lemma size_sub_in [c_simps]: "b \<le> a \<Longrightarrow> a < 2 ^ 64 \<Longrightarrow> size_sub a b = a - b"
  by (simp add: size_sub_def)

text \<open>\<open>char\<close> is signed on x86-64: a character compared or added is \<open>sint\<close> of its byte.\<close>

definition is_digit :: "byte \<Rightarrow> bool" where
  "is_digit c \<longleftrightarrow> 48 \<le> sint c \<and> sint c \<le> 57"

definition SOH :: byte where "SOH = 1"

definition EQ :: byte where "EQ = 61"

definition bytes_of :: "string \<Rightarrow> byte list" where
  "bytes_of s = map (\<lambda>c. of_char c) s"

lemma length_bytes_of [simp]: "length (bytes_of s) = length s"
  by (simp add: bytes_of_def)

lemma bytes_of_append: "bytes_of (s @ t) = bytes_of s @ bytes_of t"
  by (simp add: bytes_of_def)

subsection \<open>The C string functions the code calls\<close>

text \<open>\<open>strlen\<close>: the index of the first NUL; no NUL in the object is a read past its end.\<close>

fun c_strlen :: "byte list \<Rightarrow> nat res" where
  "c_strlen [] = Inl OutOfBounds"
| "c_strlen (c # s) = (if c = 0 then Inr 0 else and_then (c_strlen s) (\<lambda>n. Inr (Suc n)))"

text \<open>The \<open>n\<close> bytes \<open>strncpy\<close> writes: the string up to its NUL, then NULs.\<close>

fun c_strncpy :: "byte list \<Rightarrow> nat \<Rightarrow> byte list res" where
  "c_strncpy s 0 = Inr []"
| "c_strncpy [] (Suc n) = Inl OutOfBounds"
| "c_strncpy (c # s) (Suc n) =
     (if c = 0 then Inr (replicate (Suc n) 0) else and_then (c_strncpy s n) (\<lambda>r. Inr (c # r)))"

text \<open>\<open>strncmp (s, t, n) == 0\<close>, which stops at the first difference or the common NUL.\<close>

fun c_strncmp_eq :: "byte list \<Rightarrow> byte list \<Rightarrow> nat \<Rightarrow> bool res" where
  "c_strncmp_eq s t 0 = Inr True"
| "c_strncmp_eq (c # s) (d # t) (Suc n) =
     (if c \<noteq> d then Inr False else if c = 0 then Inr True else c_strncmp_eq s t n)"
| "c_strncmp_eq s t (Suc n) = Inl OutOfBounds"

text \<open>
  \<open>atoi\<close> of a string: white space, a sign, digits; a value outside \<open>int\<close> is undefined.
  The recursion stops at the first other character, at the latest the NUL.
\<close>

definition is_space :: "byte \<Rightarrow> bool" where
  "is_space c \<longleftrightarrow> c = 32 \<or> (9 \<le> c \<and> c \<le> 13)"

fun skip_space :: "byte list \<Rightarrow> byte list" where
  "skip_space [] = []"
| "skip_space (c # s) = (if is_space c then skip_space s else c # s)"

fun read_digits :: "int \<Rightarrow> byte list \<Rightarrow> int res" where
  "read_digits acc [] = Inl OutOfBounds"
| "read_digits acc (c # s) =
     (if is_digit c then read_digits (acc * 10 + (sint c - 48)) s else Inr acc)"

definition c_atoi :: "byte list \<Rightarrow> int res" where
  "c_atoi s =
     (case skip_space s of
        [] \<Rightarrow> Inl OutOfBounds
      | c # t \<Rightarrow>
          if c = 45 then and_then (read_digits 0 t) (\<lambda>v. c_int (- v))
          else if c = 43 then and_then (read_digits 0 t) c_int
          else and_then (read_digits 0 (c # t)) c_int)"

lemma c_strlen_append: "0 \<notin> set s \<Longrightarrow> c_strlen (s @ 0 # t) = Inr (length s)"
  by (induction s) auto

lemma c_strncpy_take: "0 \<notin> set (take n s) \<Longrightarrow> n \<le> length s \<Longrightarrow> c_strncpy s n = Inr (take n s)"
  by (induction s n rule: c_strncpy.induct) auto

lemma c_strncpy_length: "c_strncpy s n = Inr r \<Longrightarrow> length r = n"
  by (induction s n arbitrary: r rule: c_strncpy.induct)
     (auto simp: and_then_eq_Inr split: if_splits)

lemma c_strncpy_total: "n \<le> length s \<Longrightarrow> \<exists>r. c_strncpy s n = Inr r"
  by (induction s n rule: c_strncpy.induct) (auto simp: and_then_eq_Inr)

lemma c_strncpy_fault: "c_strncpy s n = Inl e \<Longrightarrow> e = OutOfBounds \<and> length s < n"
  by (induction s n arbitrary: e rule: c_strncpy.induct)
     (auto simp: and_then_eq_Inl split: if_splits)

lemma c_strncmp_eq_iff:
  "n \<le> length s \<Longrightarrow> n \<le> length t \<Longrightarrow> 0 \<notin> set t \<Longrightarrow>
     c_strncmp_eq s t n = Inr (take n s = take n t)"
  by (induction s t n rule: c_strncmp_eq.induct) auto

subsection \<open>Little-endian integers in memory\<close>

text \<open>The \<open>n\<close> bytes of an integer in memory on x86-64, and the integer read back.\<close>

fun le_bytes :: "nat \<Rightarrow> int \<Rightarrow> byte list" where
  "le_bytes 0 x = []"
| "le_bytes (Suc n) x = word_of_int x # le_bytes n (x div 256)"

fun le_value :: "byte list \<Rightarrow> int" where
  "le_value [] = 0"
| "le_value (b # bs) = uint b + 256 * le_value bs"

text \<open>Two's complement reading of \<open>n\<close> bytes.\<close>

definition le_signed :: "byte list \<Rightarrow> int" where
  "le_signed bs =
     (let m = 256 ^ length bs; v = le_value bs in if 2 * v < m then v else v - m)"

lemma length_le_bytes [simp]: "length (le_bytes n x) = n"
  by (induction n arbitrary: x) auto

lemma le_value_bytes: "le_value (le_bytes n x) = x mod 256 ^ n"
proof (induction n arbitrary: x)
  case 0
  then show ?case by simp
next
  case (Suc n)
  have "x mod (256 * 256 ^ n) = 256 * (x div 256 mod 256 ^ n) + x mod 256"
    by (rule zmod_zmult2_eq) simp
  with Suc show ?case by (simp add: uint_word_of_int)
qed

lemma le_signed_bytes:
  assumes "0 < n" and "- (256 ^ n) \<le> 2 * x" and "2 * x < 256 ^ n"
  shows "le_signed (le_bytes n x) = x"
proof (cases "0 \<le> x")
  case True
  with assms have "x mod 256 ^ n = x" by simp
  with assms show ?thesis by (simp add: le_signed_def le_value_bytes Let_def)
next
  case False
  have "x mod 256 ^ n = (x + 256 ^ n) mod 256 ^ n" by simp
  also have "\<dots> = x + 256 ^ n" using assms False by (intro mod_pos_pos_trivial) auto
  finally show ?thesis using assms False by (simp add: le_signed_def le_value_bytes Let_def)
qed

subsection \<open>Decimal numbers\<close>

lemma sint_digit: "is_digit c \<Longrightarrow> 0 \<le> sint c - 48 \<and> sint c - 48 \<le> 9"
  by (auto simp: is_digit_def)

text \<open>The value of a run of digits behind \<open>acc\<close>, and the digits of a number.\<close>

definition num_value :: "int \<Rightarrow> byte list \<Rightarrow> int" where
  "num_value acc ds = foldl (\<lambda>a c. a * 10 + (sint c - 48)) acc ds"

abbreviation all_digits :: "byte list \<Rightarrow> bool" where
  "all_digits ds \<equiv> \<forall>c\<in>set ds. is_digit c"

lemma num_value_simps [simp]:
  "num_value acc [] = acc"
  "num_value acc (c # ds) = num_value (acc * 10 + (sint c - 48)) ds"
  by (simp_all add: num_value_def)

lemma num_value_snoc [simp]: "num_value acc (ds @ [c]) = num_value acc ds * 10 + (sint c - 48)"
  by (simp add: num_value_def)

lemma num_value_mono: "all_digits ds \<Longrightarrow> 0 \<le> acc \<Longrightarrow> acc \<le> num_value acc ds"
proof (induction ds arbitrary: acc)
  case (Cons c ds)
  let ?a = "acc * 10 + (sint c - 48)"
  have "acc \<le> ?a" "0 \<le> ?a" using Cons.prems sint_digit[of c] by auto
  with Cons.IH[of ?a] Cons.prems show ?case by simp
qed simp

fun decimal :: "nat \<Rightarrow> byte list" where
  "decimal n = (if n < 10 then [of_nat (48 + n)] else decimal (n div 10) @ [of_nat (48 + n mod 10)])"

declare decimal.simps [simp del]

lemma digit_byte: "d < 10 \<Longrightarrow> sint (of_nat (48 + d) :: byte) = int (48 + d)"
proof -
  assume "d < 10"
  then have "d \<in> {0..<10}" by simp
  then show ?thesis by (auto simp: atLeastLessThan_nat_numeral eval_nat_numeral atLeast0_lessThan_Suc)
qed

lemma digit_byte_int: "0 \<le> d \<Longrightarrow> d < 10 \<Longrightarrow> sint (word_of_int (48 + d) :: byte) = 48 + d"
  using digit_byte[of "nat d"] by simp

lemma decimal_value: "all_digits (decimal n) \<and> num_value 0 (decimal n) = int n"
proof (induction n rule: decimal.induct)
  case (1 n)
  have d: "is_digit (of_nat (48 + n mod 10))" "sint (of_nat (48 + n mod 10) :: byte) = int (48 + n mod 10)"
    using digit_byte[of "n mod 10"] by (simp_all add: is_digit_def)
  show ?case
  proof (cases "n < 10")
    case True
    with d show ?thesis by (subst (1 2) decimal.simps) simp
  next
    case False
    have "int n = int (n div 10) * 10 + int (n mod 10)"
      by (metis div_mult_mod_eq of_nat_add of_nat_mult of_nat_numeral)
    with 1 False d show ?thesis by (subst (1 2) decimal.simps) simp
  qed
qed

subsection \<open>Generic lemmas\<close>

lemma take_eq_prefix: "take (length p) xs = p \<longleftrightarrow> prefix p xs"
  by (metis append_eq_conv_conj prefix_def)

end
