(* ===== verification/Spsc_Ring.thy ===== *)
theory Spsc_Ring
  imports Vmars_Prelude
begin

text \<open>
  The single-producer single-consumer ring buffer of \<^verbatim>\<open>src/spsc_rb.c\<close>,
  \<^verbatim>\<open>src/spsc_rb.h\<close> and the atomic accesses of \<^verbatim>\<open>src/atomic.h\<close>, at the level of bytes
  and of 64-bit positions that wrap around. The buffer is one file mapped twice, so an access at
  offset \<open>a\<close> below twice the capacity reaches byte \<open>a mod capacity\<close> of the file. A pointer
  to a record is its offset from \<open>rb->buffer\<close>.
\<close>

subsection \<open>State\<close>

type_synonym size_word = "64 word"

record vmars_spsc_rb =
  rb_buffer :: "byte list"
  rb_capacity :: size_word
  tail_cache_position :: size_word
  tail_position :: size_word
  head_cache_position :: size_word
  head_position :: size_word

definition EINVAL :: int where "EINVAL = 22"
definition ENOMEM :: int where "ENOMEM = 12"

text \<open>\<open>sizeof(vmars_rb_record_t)\<close>: the 32-bit length in front of the record's data.\<close>

definition SIZEOF_RECORD :: nat where "SIZEOF_RECORD = 4"

subsection \<open>Memory of the double mapping\<close>

fun ring_store :: "byte list \<Rightarrow> nat \<Rightarrow> byte list \<Rightarrow> byte list" where
  "ring_store m a [] = m"
| "ring_store m a (b # bs) = ring_store (m[a mod length m := b]) (Suc a) bs"

definition ring_load :: "byte list \<Rightarrow> nat \<Rightarrow> nat \<Rightarrow> byte list" where
  "ring_load m a n = map (\<lambda>i. m ! ((a + i) mod length m)) [0..<n]"

definition rb_write :: "vmars_spsc_rb \<Rightarrow> nat \<Rightarrow> byte list \<Rightarrow> vmars_spsc_rb res" where
  "rb_write rb a bs =
     (if a + length bs \<le> 2 * length (rb_buffer rb)
      then Inr (rb\<lparr>rb_buffer := ring_store (rb_buffer rb) a bs\<rparr>) else Inl OutOfBounds)"

definition rb_read :: "vmars_spsc_rb \<Rightarrow> nat \<Rightarrow> nat \<Rightarrow> byte list res" where
  "rb_read rb a n =
     (if a + n \<le> 2 * length (rb_buffer rb)
      then Inr (ring_load (rb_buffer rb) a n) else Inl OutOfBounds)"

subsection \<open>Operations\<close>

definition is_power_of_two :: "size_word \<Rightarrow> bool" where
  "is_power_of_two value \<longleftrightarrow> value > 0 \<and> (value AND (NOT value + 1)) = value"

definition is_multiple_of_page_size :: "size_word \<Rightarrow> size_word \<Rightarrow> bool" where
  "is_multiple_of_page_size pagesize value \<longleftrightarrow> (pagesize - 1) AND value = 0"

text \<open>
  The page size and the success of the mapping and of the allocation come from the system:
  \<open>pagesize\<close>, \<open>mapped\<close>, \<open>allocated\<close>. A new mapping and \<open>calloc\<close> give zeros.
\<close>

definition vmars_spsc_rb_init ::
    "size_word \<Rightarrow> bool \<Rightarrow> bool \<Rightarrow> vmars_spsc_rb \<Rightarrow> size_word \<Rightarrow> int \<times> vmars_spsc_rb" where
  "vmars_spsc_rb_init pagesize mapped allocated rb capacity =
     (if \<not> is_power_of_two capacity \<and> is_multiple_of_page_size pagesize capacity then (EINVAL, rb)
      else
        let rb' = \<lparr>rb_buffer = (if mapped then replicate (unat capacity) 0 else []),
                   rb_capacity = capacity, tail_cache_position = 0, tail_position = 0,
                   head_cache_position = 0, head_position = 0\<rparr>
        in if \<not> mapped \<or> \<not> allocated then (ENOMEM, rb') else (0, rb'))"

text \<open>\<open>(int32_t) x\<close> of a 64-bit value.\<close>

definition to_int32 :: "size_word \<Rightarrow> int" where
  "to_int32 x = sint (ucast x :: 32 word)"

definition vmars_spsc_rb_claim ::
    "vmars_spsc_rb \<Rightarrow> size_word \<Rightarrow> (nat option \<times> vmars_spsc_rb) res" where
  "vmars_spsc_rb_claim rb len =
     (let required_capacity = len + of_nat SIZEOF_RECORD;
          mask = rb_capacity rb - 1;
          tail = tail_position rb;
          tail_index = tail AND mask in
      and_then (c_int (to_int32 (rb_capacity rb) - to_int32 (tail - head_cache_position rb)))
        (\<lambda>available_capacity.
          if len > rb_capacity rb then Inr (None, rb)
          else
            let head = head_position rb;
                refresh = to_int32 required_capacity > available_capacity in
            if refresh \<and> required_capacity > rb_capacity rb - (tail - head) then Inr (None, rb)
            else
              let rb' = (if refresh then rb\<lparr>head_cache_position := head\<rparr> else rb) in
              and_then (rb_write rb' (unat tail_index) (le_bytes 4 (to_int32 len))) (\<lambda>rb''.
                Inr (Some (unat tail_index), rb''))))"

definition vmars_spsc_rb_publish ::
    "vmars_spsc_rb \<Rightarrow> nat \<Rightarrow> (int \<times> vmars_spsc_rb) res" where
  "vmars_spsc_rb_publish rb to_publish =
     (let mask = rb_capacity rb - 1;
          tail = tail_position rb;
          tail_index = tail AND mask in
      if to_publish \<noteq> unat tail_index then Inr (EINVAL, rb)
      else and_then (rb_read rb to_publish 4) (\<lambda>l.
        Inr (0, rb\<lparr>tail_position := tail + word_of_int (le_signed l) + of_nat SIZEOF_RECORD\<rparr>)))"

definition head_index :: "vmars_spsc_rb \<Rightarrow> size_word" where
  "head_index rb = word_of_int (to_int32 (head_position rb)) AND (rb_capacity rb - 1)"

definition vmars_spsc_rb_poll :: "vmars_spsc_rb \<Rightarrow> nat option \<times> vmars_spsc_rb" where
  "vmars_spsc_rb_poll rb =
     (let head = head_position rb in
      if 0 \<ge> sint (tail_cache_position rb - head)
      then let tail = tail_position rb in
           if 0 \<ge> sint (tail - head) then (None, rb)
           else (Some (unat (head_index rb)), rb\<lparr>tail_cache_position := tail\<rparr>)
      else (Some (unat (head_index rb)), rb))"

definition vmars_spsc_rb_release ::
    "vmars_spsc_rb \<Rightarrow> nat \<Rightarrow> (int \<times> vmars_spsc_rb) res" where
  "vmars_spsc_rb_release rb to_release =
     (if to_release \<noteq> unat (head_index rb) then Inr (EINVAL, rb)
      else and_then (rb_read rb to_release 4) (\<lambda>l.
        Inr (0, rb\<lparr>head_position :=
          head_position rb + of_nat SIZEOF_RECORD + word_of_int (le_signed l)\<rparr>)))"

subsection \<open>The protocol of a producer and of a consumer\<close>

text \<open>
  A producer claims a record, fills it and publishes it; a consumer polls a record, reads its
  length and data and releases it. These are the call sequences of \<^verbatim>\<open>src/fix.c\<close> and
  \<^verbatim>\<open>src/latency_handler.c\<close>.
\<close>

definition rb_offer :: "vmars_spsc_rb \<Rightarrow> byte list \<Rightarrow> (bool \<times> vmars_spsc_rb) res" where
  "rb_offer rb payload =
     and_then (vmars_spsc_rb_claim rb (of_nat (length payload))) (\<lambda>(p, rb1).
       case p of
         None \<Rightarrow> Inr (False, rb1)
       | Some a \<Rightarrow>
           and_then (rb_write rb1 (a + SIZEOF_RECORD) payload) (\<lambda>rb2.
           and_then (vmars_spsc_rb_publish rb2 a) (\<lambda>(code, rb3). Inr (code = 0, rb3))))"

definition rb_consume :: "vmars_spsc_rb \<Rightarrow> (byte list option \<times> vmars_spsc_rb) res" where
  "rb_consume rb =
     (case vmars_spsc_rb_poll rb of
        (None, rb1) \<Rightarrow> Inr (None, rb1)
      | (Some a, rb1) \<Rightarrow>
          and_then (rb_read rb1 a 4) (\<lambda>l.
          and_then (rb_read rb1 (a + SIZEOF_RECORD) (nat (le_signed l))) (\<lambda>payload.
          and_then (vmars_spsc_rb_release rb1 a) (\<lambda>(code, rb2). Inr (Some payload, rb2)))))"

subsection \<open>Lemmas on the mapped memory\<close>

lemma length_ring_store [simp]: "length (ring_store m a bs) = length m"
  by (induction m a bs rule: ring_store.induct) auto

lemma length_ring_load [simp]: "length (ring_load m a n) = n"
  by (simp add: ring_load_def)

lemma nth_ring_load [simp]: "i < n \<Longrightarrow> ring_load m a n ! i = m ! ((a + i) mod length m)"
  by (simp add: ring_load_def)

lemma ring_load_mod: "a mod length m = b mod length m \<Longrightarrow> ring_load m a n = ring_load m b n"
  unfolding ring_load_def by (intro map_cong refl) (metis mod_add_left_eq)

lemma ring_load_append: "ring_load m x (i + j) = ring_load m x i @ ring_load m (x + i) j"
  by (rule nth_equalityI) (auto simp: nth_append)

lemma ring_store_append: "ring_store m a (bs @ cs) = ring_store (ring_store m a bs) (a + length bs) cs"
  by (induction m a bs rule: ring_store.induct) auto

lemma ring_store_mod: "a mod length m = b mod length m \<Longrightarrow> ring_store m a bs = ring_store m b bs"
proof (induction bs arbitrary: m a b)
  case (Cons x bs)
  have "Suc a mod length m = Suc b mod length m" using Cons.prems by (metis mod_Suc_eq)
  with Cons.IH[where m = "m[b mod length m := x]" and a = "Suc a" and b = "Suc b"] Cons.prems
  show ?case by simp
qed simp

lemma mod_ne: "i < j \<Longrightarrow> j < i + L \<Longrightarrow> i mod L \<noteq> j mod (L::nat)"
proof
  assume "i < j" "j < i + L" "i mod L = j mod L"
  then obtain q where "j = i + L * q" by (metis le_add_diff_inverse less_imp_le mod_eq_dvd_iff_nat dvd_def)
  with \<open>i < j\<close> \<open>j < i + L\<close> show False by (cases q) auto
qed

lemma ring_store_other:
  "(\<And>j. j < length bs \<Longrightarrow> (a + j) mod length m \<noteq> k) \<Longrightarrow> ring_store m a bs ! k = m ! k"
proof (induction bs arbitrary: m a)
  case (Cons x bs)
  have "ring_store (m[a mod length m := x]) (Suc a) bs ! k = m[a mod length m := x] ! k"
    using Cons.prems[of "Suc _"] by (intro Cons.IH) auto
  moreover have "a mod length m \<noteq> k" using Cons.prems[of 0] by simp
  ultimately show ?case by simp
qed simp

lemma ring_store_same:
  assumes "j < length bs" "length bs \<le> length m"
  shows "ring_store m a bs ! ((a + j) mod length m) = bs ! j"
  using assms
proof (induction bs arbitrary: m a j)
  case (Cons x bs)
  show ?case
  proof (cases j)
    case 0
    have "ring_store (m[a mod length m := x]) (Suc a) bs ! (a mod length m)
        = m[a mod length m := x] ! (a mod length m)"
    proof (rule ring_store_other)
      fix i assume "i < length bs"
      then show "(Suc a + i) mod length (m[a mod length m := x]) \<noteq> a mod length m"
        using Cons.prems mod_ne[of a "Suc a + i" "length m"] by auto
    qed
    moreover have "a mod length m < length m" using Cons.prems by (intro mod_less_divisor) linarith
    ultimately show ?thesis using 0 by simp
  next
    case (Suc i)
    with Cons.IH[of i "m[a mod length m := x]" "Suc a"] Cons.prems show ?thesis by simp
  qed
qed simp

lemma ring_load_store: "length bs \<le> length m \<Longrightarrow> ring_load (ring_store m a bs) a (length bs) = bs"
  by (rule nth_equalityI) (simp_all add: ring_store_same)

text \<open>A store at \<open>b\<close> leaves a region that ends at \<open>b\<close> alone, while the two fit in the ring.\<close>

lemma ring_load_store_before:
  assumes "a + n \<le> b" "b + length bs \<le> a + length m"
  shows "ring_load (ring_store m b bs) a n = ring_load m a n"
proof (rule nth_equalityI)
  fix i assume "i < length (ring_load (ring_store m b bs) a n)"
  then have i: "i < n" by simp
  have "ring_store m b bs ! ((a + i) mod length m) = m ! ((a + i) mod length m)"
  proof (rule ring_store_other)
    fix j assume "j < length bs"
    then show "(b + j) mod length m \<noteq> (a + i) mod length m"
      using mod_ne[of "a + i" "b + j" "length m"] i assms by linarith
  qed
  then show "ring_load (ring_store m b bs) a n ! i = ring_load m a n ! i" using i by simp
qed simp

subsection \<open>Positions and indices\<close>

text \<open>The ring's geometry: a capacity that is a power of two, at most \<open>2 ^ 30\<close>, fully mapped.\<close>

definition rb_geometry :: "nat \<Rightarrow> vmars_spsc_rb \<Rightarrow> bool" where
  "rb_geometry n rb \<longleftrightarrow> n \<le> 30 \<and> rb_capacity rb = 2 ^ n \<and> length (rb_buffer rb) = 2 ^ n"

lemma pow_dvd_64: "n \<le> 30 \<Longrightarrow> (2::nat) ^ n dvd 2 ^ 64"
  by (rule le_imp_power_dvd) simp

lemma unat_pow: "n \<le> 30 \<Longrightarrow> unat (2 ^ n :: size_word) = 2 ^ n"
proof -
  assume "n \<le> 30"
  then have "(2::nat) ^ n < 2 ^ 64" by (intro power_strict_increasing) auto
  then have "unat (of_nat (2 ^ n) :: size_word) = 2 ^ n"
    by (subst unat_of_nat) simp
  then show ?thesis by simp
qed

lemma index_mod: "n \<le> 30 \<Longrightarrow> unat (w AND (2 ^ n - 1) :: size_word) = unat w mod 2 ^ n"
proof -
  have "w AND (2 ^ n - 1) = take_bit n w" by (simp only: take_bit_eq_mask mask_eq_exp_minus_1)
  moreover assume "n \<le> 30"
  ultimately show ?thesis by (simp only: unsigned_take_bit_eq) (simp add: take_bit_eq_mod)
qed

lemma add_mod_ring: "n \<le> 30 \<Longrightarrow> unat ((w :: size_word) + v) mod 2 ^ n = (unat w + unat v) mod 2 ^ n"
  using pow_dvd_64[of n] by (simp add: unat_word_ariths mod_mod_cancel)

lemma int32_index:
  assumes "n \<le> 30"
  shows "word_of_int (to_int32 w) AND (2 ^ n - 1) = w AND (2 ^ n - 1 :: size_word)"
proof (rule bit_word_eqI)
  fix i assume i: "i < LENGTH(64)"
  have "bit (word_of_int (to_int32 w) :: size_word) i = bit w i" if "i < n"
    using that assms i
    by (simp add: to_int32_def bit_simps) 
  moreover have "bit (2 ^ n - 1 :: size_word) i = (i < n)"
    using i assms by (simp add: mask_eq_exp_minus_1[symmetric] bit_mask_iff)
  ultimately show "bit (word_of_int (to_int32 w) AND (2 ^ n - 1 :: size_word)) i = bit (w AND (2 ^ n - 1)) i"
    by (auto simp: bit_and_iff)
qed

lemma head_index_mod: "rb_geometry n rb \<Longrightarrow> unat (head_index rb) = unat (head_position rb) mod 2 ^ n"
  by (simp add: rb_geometry_def head_index_def int32_index index_mod)

lemma sint_small: "unat (w :: 'a::len word) < 2 ^ (LENGTH('a) - 1) \<Longrightarrow> sint w = int (unat w)"
proof -
  assume "unat w < 2 ^ (LENGTH('a) - 1)"
  then have "int (unat w) < int (2 ^ (LENGTH('a) - 1))" by (simp only: of_nat_less_iff)
  then have "uint w < 2 ^ (LENGTH('a) - 1)" by simp
  then have "signed_take_bit (LENGTH('a) - 1) (uint w) = uint w"
    by (intro signed_take_bit_int_eq_self order_trans[OF _ uint_ge_0]) simp_all
  then show ?thesis by (simp add: sint_uint)
qed

lemma to_int32_small: "unat w < 2 ^ 31 \<Longrightarrow> to_int32 w = int (unat w)"
proof -
  assume w: "unat w < 2 ^ 31"
  then have u: "unat (ucast w :: 32 word) = unat w"
    by (simp add: unsigned_ucast_eq take_bit_nat_eq_self)
  with w show ?thesis unfolding to_int32_def by (subst sint_small) simp_all
qed

subsection \<open>The records a ring holds\<close>

definition rec_size :: "byte list \<Rightarrow> nat" where
  "rec_size r = SIZEOF_RECORD + length r"

definition recs_size :: "byte list list \<Rightarrow> nat" where
  "recs_size rs = sum_list (map rec_size rs)"

lemma recs_size_simps [simp]:
  "recs_size [] = 0" "recs_size (r # rs) = rec_size r + recs_size rs"
  "recs_size (rs @ qs) = recs_size rs + recs_size qs"
  by (simp_all add: recs_size_def)

lemma rec_size_pos [simp]: "0 < rec_size r"
  by (simp add: rec_size_def SIZEOF_RECORD_def)

text \<open>The records that lie one after the other from position \<open>p\<close>.\<close>

fun recs_at :: "byte list \<Rightarrow> nat \<Rightarrow> byte list list \<Rightarrow> bool" where
  "recs_at m p [] = True"
| "recs_at m p (r # rs) =
     (ring_load m p 4 = le_bytes 4 (int (length r)) \<and>
      ring_load m (p + SIZEOF_RECORD) (length r) = r \<and> recs_at m (p + rec_size r) rs)"

lemma recs_at_append: "recs_at m p (rs @ qs) \<longleftrightarrow> recs_at m p rs \<and> recs_at m (p + recs_size rs) qs"
  by (induction rs arbitrary: p) (auto simp: add.assoc)

lemma mod_add_shift: "a mod L = b mod L \<Longrightarrow> (a + k) mod L = (b + k) mod (L::nat)"
  by (metis mod_add_left_eq)

lemma recs_at_mod: "p mod length m = q mod length m \<Longrightarrow> recs_at m p rs = recs_at m q rs"
proof (induction rs arbitrary: p q)
  case (Cons r rs)
  have "recs_at m (p + rec_size r) rs = recs_at m (q + rec_size r) rs"
    by (rule Cons.IH) (rule mod_add_shift[OF Cons.prems])
  moreover have "ring_load m p 4 = ring_load m q 4"
    by (rule ring_load_mod) (rule Cons.prems)
  moreover have "ring_load m (p + SIZEOF_RECORD) (length r) = ring_load m (q + SIZEOF_RECORD) (length r)"
    by (rule ring_load_mod) (rule mod_add_shift[OF Cons.prems])
  ultimately show ?case by (simp only: recs_at.simps)
qed simp

lemma recs_at_store:
  "recs_at m p rs \<Longrightarrow> p + recs_size rs \<le> b \<Longrightarrow> b + length bs \<le> p + length m \<Longrightarrow>
     recs_at (ring_store m b bs) p rs"
proof (induction rs arbitrary: p)
  case (Cons r rs)
  have "recs_at (ring_store m b bs) (p + rec_size r) rs"
    using Cons.prems by (intro Cons.IH) auto
  then show ?case using Cons.prems ring_load_store_before[of p 4 b bs m]
      ring_load_store_before[of "p + SIZEOF_RECORD" "length r" b bs m]
    by (simp add: rec_size_def SIZEOF_RECORD_def)
qed simp

text \<open>
  \<open>rb_holds n rb rs q\<close>: the ring of capacity \<open>2 ^ n\<close> holds the published records
  \<open>rs\<close>, oldest first, and \<open>q\<close> bytes behind them are claimed. The producer's view of the
  head may lag (by \<open>k\<close> bytes), and the consumer's view of the tail may see only the first
  \<open>j\<close> of the records; the space between the stale head and the claimed end never exceeds
  the capacity.
\<close>

definition rb_holds :: "nat \<Rightarrow> vmars_spsc_rb \<Rightarrow> byte list list \<Rightarrow> nat \<Rightarrow> bool" where
  "rb_holds n rb rs q \<longleftrightarrow>
     rb_geometry n rb \<and>
     recs_at (rb_buffer rb) (unat (head_position rb)) rs \<and>
     tail_position rb = head_position rb + of_nat (recs_size rs) \<and>
     (\<exists>k. head_position rb = head_cache_position rb + of_nat k \<and> k + recs_size rs + q \<le> 2 ^ n) \<and>
     (\<exists>j \<le> length rs. tail_cache_position rb = head_position rb + of_nat (recs_size (take j rs)))"

text \<open>The consumer has polled: its view of the tail shows a record.\<close>

definition rb_polled :: "vmars_spsc_rb \<Rightarrow> bool" where
  "rb_polled rb \<longleftrightarrow> sint (tail_cache_position rb - head_position rb) > 0"

lemma pow_30: "n \<le> 30 \<Longrightarrow> (2::nat) ^ n \<le> 2 ^ 30"
  by (rule power_increasing) auto

lemma of_nat_size: "x < 2 ^ 64 \<Longrightarrow> unat (of_nat x :: size_word) = x"
  by (subst unat_of_nat) simp

lemma of_nat_small: "n \<le> 30 \<Longrightarrow> x \<le> 2 ^ n \<Longrightarrow> unat (of_nat x :: size_word) = x"
  using pow_30[of n] by (intro of_nat_size) simp

lemma mod_ring: "n \<le> 30 \<Longrightarrow> (m::nat) mod 2 ^ 64 mod 2 ^ n = m mod 2 ^ n"
  by (rule mod_mod_cancel) (rule pow_dvd_64)

lemma pos_add_mod: "n \<le> 30 \<Longrightarrow> unat ((w::size_word) + of_nat x) mod 2 ^ n = (unat w + x) mod 2 ^ n"
proof -
  assume n: "n \<le> 30"
  have "unat (of_nat x :: size_word) = x mod 2 ^ 64" by (subst unat_of_nat) simp
  then have "unat (w + of_nat x) mod 2 ^ n = (unat w + x mod 2 ^ 64) mod 2 ^ n"
    using n by (simp only: add_mod_ring)
  also have "\<dots> = (unat w + x) mod 2 ^ n" using mod_ring[OF n, of x] by (metis mod_add_right_eq)
  finally show ?thesis .
qed

subsection \<open>Claiming\<close>

lemma to_int32_of_nat: "x \<le> 2 ^ 30 + 4 \<Longrightarrow> to_int32 (of_nat x) = int x"
  by (subst to_int32_small) (simp_all add: of_nat_size)

lemma capacity_of_nat: "rb_geometry n rb \<Longrightarrow> rb_capacity rb = of_nat (2 ^ n)"
  by (simp add: rb_geometry_def)

text \<open>What the claim computes from the positions, when \<open>k\<close> bytes of the free space are unseen.\<close>

lemma claim_decision:
  assumes g: "rb_geometry n rb" and k: "k + S \<le> 2 ^ n"
    and cache: "head_position rb = head_cache_position rb + of_nat k"
    and tail: "tail_position rb = head_position rb + of_nat S" and len: "len < 2 ^ 64"
  shows "vmars_spsc_rb_claim rb (of_nat len) =
    (if len + SIZEOF_RECORD + S > 2 ^ n then Inr (None, rb)
     else let rb' = (if len + SIZEOF_RECORD + k + S > 2 ^ n
                     then rb\<lparr>head_cache_position := head_position rb\<rparr> else rb)
          in and_then (rb_write rb' (unat (tail_position rb) mod 2 ^ n) (le_bytes 4 (int len)))
               (\<lambda>rb''. Inr (Some (unat (tail_position rb) mod 2 ^ n), rb'')))"
proof -
  from g have n: "n \<le> 30" by (simp add: rb_geometry_def)
  note p = pow_30[OF n] and cap = capacity_of_nat[OF g]
  from p have "int (2 ^ n) \<le> int (2 ^ 30)" by (simp only: of_nat_le_iff)
  then have pi: "int (2 ^ n) \<le> 1073741824" by simp
  have d1: "tail_position rb - head_cache_position rb = of_nat (k + S)"
    by (simp add: tail cache)
  have d2: "tail_position rb - head_position rb = of_nat S" by (simp add: tail)
  have avail: "c_int (to_int32 (rb_capacity rb) - to_int32 (tail_position rb - head_cache_position rb))
      = Inr (int (2 ^ n) - int (k + S))"
  proof -
    have "to_int32 (rb_capacity rb) = int (2 ^ n)" unfolding cap using p by (intro to_int32_of_nat) simp
    moreover have "to_int32 (of_nat (k + S)) = int (k + S)" using p k by (intro to_int32_of_nat) simp
    moreover have "- 2147483648 \<le> int (2 ^ n) - int (k + S)" "int (2 ^ n) - int (k + S) < 2147483648"
      using pi k by linarith+
    ultimately show ?thesis unfolding d1 by (simp only: c_int_in)
  qed
  have big: "(of_nat len > rb_capacity rb) = (len > 2 ^ n)"
    using p len unfolding cap word_less_nat_alt by (subst (1 2) of_nat_size) simp_all
  have idx: "unat (tail_position rb AND (rb_capacity rb - 1)) = unat (tail_position rb) mod 2 ^ n"
    using g index_mod[OF n] by (simp add: rb_geometry_def)
  show ?thesis
  proof (cases "len > 2 ^ n")
    case True
    then show ?thesis
      by (simp add: vmars_spsc_rb_claim_def avail big Let_def)
  next
    case False
    have req: "(of_nat len :: size_word) + of_nat SIZEOF_RECORD = of_nat (len + SIZEOF_RECORD)" by simp
    have req_int: "to_int32 (of_nat (len + SIZEOF_RECORD)) = int (len + SIZEOF_RECORD)"
      using False p by (intro to_int32_of_nat) (simp add: SIZEOF_RECORD_def)
    have len_int: "to_int32 (of_nat len) = int len"
      using False p by (intro to_int32_of_nat) simp
    have free: "rb_capacity rb - of_nat S = of_nat (2 ^ n - S)"
      unfolding cap using k by (subst of_nat_diff) simp_all
    have room: "(of_nat (len + SIZEOF_RECORD) > rb_capacity rb - of_nat S) = (len + SIZEOF_RECORD > 2 ^ n - S)"
      unfolding free word_less_nat_alt using False p
      by (subst (1 2) of_nat_size) (simp_all add: SIZEOF_RECORD_def)
    have stale: "(int (2 ^ n) - int (k + S) < int (len + SIZEOF_RECORD)) = (len + SIZEOF_RECORD + k + S > 2 ^ n)"
      using k by linarith
    have full: "(len + SIZEOF_RECORD > 2 ^ n - S) = (len + SIZEOF_RECORD + S > 2 ^ n)"
      using k by linarith
    show ?thesis unfolding vmars_spsc_rb_claim_def Let_def avail d2 req req_int len_int big room idx
        and_then_Inr stale full using False by auto
  qed
qed

lemma rb_holdsE:
  assumes "rb_holds n rb rs q"
  obtains k j where "rb_geometry n rb" "n \<le> 30" "length (rb_buffer rb) = 2 ^ n"
    "recs_at (rb_buffer rb) (unat (head_position rb)) rs"
    "tail_position rb = head_position rb + of_nat (recs_size rs)"
    "head_position rb = head_cache_position rb + of_nat k" "k + recs_size rs + q \<le> 2 ^ n"
    "j \<le> length rs" "tail_cache_position rb = head_position rb + of_nat (recs_size (take j rs))"
  using assms by (auto simp: rb_holds_def rb_geometry_def)

lemma rb_holds_index:
  "rb_holds n rb rs q \<Longrightarrow>
     unat (tail_position rb) mod 2 ^ n = (unat (head_position rb) + recs_size rs) mod 2 ^ n"
  by (erule rb_holdsE) (simp add: pos_add_mod)

lemma rb_holds_store:
  assumes h: "rb_holds n rb rs q" and a: "a mod 2 ^ n = (unat (tail_position rb) + d) mod 2 ^ n"
    and fits: "d + length bs \<le> q"
  shows "rb_holds n (rb\<lparr>rb_buffer := ring_store (rb_buffer rb) a bs\<rparr>) rs q"
proof -
  from h obtain k where L: "length (rb_buffer rb) = 2 ^ n" and k: "k + recs_size rs + q \<le> 2 ^ n"
    and r: "recs_at (rb_buffer rb) (unat (head_position rb)) rs" by (rule rb_holdsE) blast
  let ?b = "unat (head_position rb) + recs_size rs + d"
  have "a mod 2 ^ n = ?b mod 2 ^ n"
    unfolding a using mod_add_shift[OF rb_holds_index[OF h], of d] by simp
  then have eq: "ring_store (rb_buffer rb) a bs = ring_store (rb_buffer rb) ?b bs"
    using L by (intro ring_store_mod) simp
  have "recs_at (ring_store (rb_buffer rb) ?b bs) (unat (head_position rb)) rs"
    using r L k fits by (intro recs_at_store) linarith+
  with h show ?thesis unfolding eq by (simp add: rb_holds_def rb_geometry_def)
qed

lemma rb_holds_reserve:
  assumes "rb_holds n rb rs 0" and "q + recs_size rs \<le> 2 ^ n"
  shows "rb_holds n (rb\<lparr>head_cache_position := head_position rb\<rparr>) rs q"
  using assms by (auto simp: rb_holds_def rb_geometry_def intro!: exI[of _ 0])

lemma rb_write_in:
  "length (rb_buffer rb) = 2 ^ n \<Longrightarrow> a + length bs \<le> 2 * 2 ^ n \<Longrightarrow>
     rb_write rb a bs = Inr (rb\<lparr>rb_buffer := ring_store (rb_buffer rb) a bs\<rparr>)"
  by (simp add: rb_write_def)

lemma rb_read_in:
  "length (rb_buffer rb) = 2 ^ n \<Longrightarrow> a + k \<le> 2 * 2 ^ n \<Longrightarrow>
     rb_read rb a k = Inr (ring_load (rb_buffer rb) a k)"
  by (simp add: rb_read_def)

text \<open>Claiming fails without effect exactly when the record does not fit in the free space.\<close>

lemma claim_full:
  assumes "rb_holds n rb rs 0" and "len < 2 ^ 64" and "len + SIZEOF_RECORD + recs_size rs > 2 ^ n"
  shows "vmars_spsc_rb_claim rb (of_nat len) = Inr (None, rb)"
proof -
  from assms(1) obtain k where "rb_geometry n rb" "k + recs_size rs + 0 \<le> 2 ^ n"
    "head_position rb = head_cache_position rb + of_nat k"
    "tail_position rb = head_position rb + of_nat (recs_size rs)" by (rule rb_holdsE) blast
  with assms show ?thesis by (subst claim_decision[of n rb k "recs_size rs"]) auto
qed

text \<open>The producer at index \<open>a\<close> of the tail, with \<open>q\<close> bytes claimed whose first are \<open>bs\<close>.\<close>

definition rb_claimed :: "nat \<Rightarrow> vmars_spsc_rb \<Rightarrow> byte list list \<Rightarrow> nat \<Rightarrow> nat \<Rightarrow> byte list \<Rightarrow> bool" where
  "rb_claimed n rb rs a q bs \<longleftrightarrow>
     rb_holds n rb rs q \<and> a = unat (tail_position rb) mod 2 ^ n \<and> length bs \<le> q \<and>
     ring_load (rb_buffer rb) (unat (tail_position rb)) (length bs) = bs"

lemma claimed_write:
  assumes c: "rb_claimed n rb rs a q bs" and fits: "length bs + length cs \<le> q"
  shows "\<exists>rb'. rb_write rb (a + length bs) cs = Inr rb' \<and> rb_claimed n rb' rs a q (bs @ cs) \<and>
           rb' = rb\<lparr>rb_buffer := rb_buffer rb'\<rparr>"
proof -
  let ?t = "unat (tail_position rb)" and ?m = "rb_buffer rb"
  from c have h: "rb_holds n rb rs q" and a: "a = ?t mod 2 ^ n"
    and bs: "ring_load ?m ?t (length bs) = bs" by (auto simp: rb_claimed_def)
  from h have L: "length ?m = 2 ^ n" and q: "q \<le> 2 ^ n" by (auto elim!: rb_holdsE)
  have "a < 2 ^ n" unfolding a by simp
  then have w: "rb_write rb (a + length bs) cs
      = Inr (rb\<lparr>rb_buffer := ring_store ?m (a + length bs) cs\<rparr>)"
    using L q fits by (intro rb_write_in) auto
  have am: "(a + length bs) mod 2 ^ n = (?t + length bs) mod 2 ^ n"
    unfolding a by (simp add: mod_add_left_eq)
  then have eq: "ring_store ?m (a + length bs) cs = ring_store ?m (?t + length bs) cs"
    using L by (intro ring_store_mod) simp
  have "rb_holds n (rb\<lparr>rb_buffer := ring_store ?m (a + length bs) cs\<rparr>) rs q"
    using h am fits by (rule rb_holds_store)
  moreover have "ring_load (ring_store ?m (?t + length bs) cs) ?t (length (bs @ cs)) = bs @ cs"
  proof -
    have "ring_load (ring_store ?m (?t + length bs) cs) ?t (length bs) = bs"
      using ring_load_store_before[of ?t "length bs" "?t + length bs" cs ?m] L q fits bs by simp
    moreover have "ring_load (ring_store ?m (?t + length bs) cs) (?t + length bs) (length cs) = cs"
      using L q fits by (intro ring_load_store) simp
    ultimately show ?thesis by (simp add: ring_load_append)
  qed
  ultimately show ?thesis using w a fits eq by (simp add: rb_claimed_def)
qed

lemma claim_ok:
  assumes h: "rb_holds n rb rs 0" and fits: "len + SIZEOF_RECORD + recs_size rs \<le> 2 ^ n"
  shows "\<exists>a rb'. vmars_spsc_rb_claim rb (of_nat len) = Inr (Some a, rb') \<and>
           rb_claimed n rb' rs a (SIZEOF_RECORD + len) (le_bytes 4 (int len)) \<and>
           tail_position rb' = tail_position rb \<and> head_position rb' = head_position rb \<and>
           tail_cache_position rb' = tail_cache_position rb"
proof -
  from h obtain k where g: "rb_geometry n rb" and n: "n \<le> 30" and k: "k + recs_size rs + 0 \<le> 2 ^ n"
    and cache: "head_position rb = head_cache_position rb + of_nat k"
    and tail: "tail_position rb = head_position rb + of_nat (recs_size rs)" by (rule rb_holdsE) blast
  let ?t = "unat (tail_position rb)"
  define rb1 where "rb1 = (if len + SIZEOF_RECORD + k + recs_size rs > 2 ^ n
                     then rb\<lparr>head_cache_position := head_position rb\<rparr> else rb)"
  have len: "len < 2 ^ 64" using fits pow_30[OF n] by simp
  have "rb_holds n rb1 rs (SIZEOF_RECORD + len)"
  proof (cases "len + SIZEOF_RECORD + k + recs_size rs > 2 ^ n")
    case True
    then show ?thesis using h fits by (simp add: rb1_def rb_holds_reserve)
  next
    case False
    with h cache show ?thesis
      by (auto simp: rb1_def rb_holds_def SIZEOF_RECORD_def intro!: exI[of _ k])
  qed
  moreover have pos: "tail_position rb1 = tail_position rb" "head_position rb1 = head_position rb"
    "tail_cache_position rb1 = tail_cache_position rb" by (simp_all add: rb1_def)
  ultimately have "rb_claimed n rb1 rs (?t mod 2 ^ n) (SIZEOF_RECORD + len) []"
    by (simp add: rb_claimed_def ring_load_def)
  from claimed_write[OF this, of "le_bytes 4 (int len)"] obtain rb'
    where w: "rb_write rb1 (?t mod 2 ^ n) (le_bytes 4 (int len)) = Inr rb'"
      and c: "rb_claimed n rb' rs (?t mod 2 ^ n) (SIZEOF_RECORD + len) (le_bytes 4 (int len))"
      and eq: "rb' = rb1\<lparr>rb_buffer := rb_buffer rb'\<rparr>"
    by (auto simp: SIZEOF_RECORD_def)
  have "vmars_spsc_rb_claim rb (of_nat len) = Inr (Some (?t mod 2 ^ n), rb')"
    using fits k w by (subst claim_decision[OF g _ cache tail len]) (simp_all add: Let_def rb1_def[symmetric])
  moreover have "tail_position rb' = tail_position rb" "head_position rb' = head_position rb"
    "tail_cache_position rb' = tail_cache_position rb"
    using pos by (subst eq, simp)+
  ultimately show ?thesis using c by blast
qed

subsection \<open>Publishing, polling, releasing\<close>

lemma le_signed_length: "k \<le> 2 ^ 30 \<Longrightarrow> le_signed (le_bytes 4 (int k)) = int k"
  by (rule le_signed_bytes) simp_all

lemma rb_claimed_index:
  "rb_claimed n rb rs a q bs \<Longrightarrow> unat (tail_position rb AND (rb_capacity rb - 1)) = a"
  by (auto simp: rb_claimed_def rb_geometry_def index_mod elim!: rb_holdsE)

lemma rb_claimed_load:
  assumes c: "rb_claimed n rb rs a q bs" and k: "i + k \<le> length bs"
  shows "ring_load (rb_buffer rb) (a + i) k = take k (drop i bs)"
proof -
  let ?t = "unat (tail_position rb)" and ?m = "rb_buffer rb"
  from c have L: "length ?m = 2 ^ n" and a: "a = ?t mod 2 ^ n" and bs: "ring_load ?m ?t (length bs) = bs"
    by (auto simp: rb_claimed_def elim!: rb_holdsE)
  have "(a + i) mod length ?m = (?t + i) mod length ?m" unfolding L a by (simp add: mod_add_left_eq)
  then have "ring_load ?m (a + i) k = ring_load ?m (?t + i) k" by (rule ring_load_mod)
  also have "\<dots> = take k (drop i (ring_load ?m ?t (length bs)))"
    using k by (intro nth_equalityI) (auto simp: add.assoc)
  finally show ?thesis unfolding bs .
qed

lemma publish_ok:
  assumes c: "rb_claimed n rb rs a (SIZEOF_RECORD + length r) (le_bytes 4 (int (length r)) @ r)"
  shows "\<exists>rb'. vmars_spsc_rb_publish rb a = Inr (0, rb') \<and> rb_holds n rb' (rs @ [r]) 0 \<and>
           rb' = rb\<lparr>tail_position := tail_position rb + of_nat (rec_size r)\<rparr>"
proof -
  let ?rb' = "rb\<lparr>tail_position := tail_position rb + of_nat (rec_size r)\<rparr>"
  let ?h = "unat (head_position rb)" and ?m = "rb_buffer rb"
  from c have h: "rb_holds n rb rs (SIZEOF_RECORD + length r)" and a: "a = unat (tail_position rb) mod 2 ^ n"
    by (auto simp: rb_claimed_def)
  from h obtain k j where n: "n \<le> 30" and L: "length ?m = 2 ^ n" and recs: "recs_at ?m ?h rs"
    and tail: "tail_position rb = head_position rb + of_nat (recs_size rs)"
    and k: "k + recs_size rs + (SIZEOF_RECORD + length r) \<le> 2 ^ n" by (rule rb_holdsE) blast
  have small: "length r \<le> 2 ^ 30" and a_lt: "a < 2 ^ n" and four: "(4::nat) \<le> 2 ^ n"
    using k pow_30[OF n] a by (auto simp: SIZEOF_RECORD_def)
  have len4: "ring_load ?m a 4 = le_bytes 4 (int (length r))"
    using rb_claimed_load[OF c, of 0 4] by simp
  have "rb_read rb a 4 = Inr (le_bytes 4 (int (length r)))"
    using a_lt four len4 by (subst rb_read_in[OF L]) simp_all
  then have pub: "vmars_spsc_rb_publish rb a = Inr (0, ?rb')"
    using small by (simp add: vmars_spsc_rb_publish_def Let_def rb_claimed_index[OF c]
        le_signed_length rec_size_def SIZEOF_RECORD_def add.commute add.left_commute)
  have idx: "(a + i) mod length ?m = (?h + recs_size rs + i) mod length ?m" for i
    unfolding L a by (rule mod_add_shift) (simp add: rb_holds_index[OF h])
  have "ring_load ?m (?h + recs_size rs) 4 = le_bytes 4 (int (length r))"
    using len4 ring_load_mod[OF idx[of 0], of 4] by simp
  moreover have "ring_load ?m (?h + recs_size rs + SIZEOF_RECORD) (length r) = r"
    using rb_claimed_load[OF c, of 4 "length r"] ring_load_mod[OF idx[of 4], of "length r"]
    by (simp add: SIZEOF_RECORD_def)
  ultimately have "recs_at ?m ?h (rs @ [r])" using recs by (simp add: recs_at_append)
  moreover have "\<exists>j\<le>length (rs @ [r]). tail_cache_position rb
      = head_position rb + of_nat (recs_size (take j (rs @ [r])))"
    using h by (auto simp: rb_holds_def intro: le_SucI)
  ultimately have "rb_holds n ?rb' (rs @ [r]) 0"
    using h by (auto simp: rb_holds_def rb_geometry_def rec_size_def add.assoc)
  with pub show ?thesis by auto
qed

lemma publish_rejects:
  "rb_claimed n rb rs a q bs \<Longrightarrow> b \<noteq> a \<Longrightarrow> vmars_spsc_rb_publish rb b = Inr (EINVAL, rb)"
  by (simp add: vmars_spsc_rb_publish_def Let_def rb_claimed_index)

lemma recs_size_take: "recs_size (take j rs) \<le> recs_size rs"
  by (metis append_take_drop_id le_add1 recs_size_simps(3))

lemma sint_of_nat_small: "x \<le> 2 ^ 30 \<Longrightarrow> sint (of_nat x :: size_word) = int x"
  by (subst sint_small) (simp_all add: of_nat_size)

lemma recs_size_0 [simp]: "recs_size rs = 0 \<longleftrightarrow> rs = []"
  by (cases rs) (auto simp: rec_size_def SIZEOF_RECORD_def)

lemma recs_size_pos [simp]: "0 < recs_size rs \<longleftrightarrow> rs \<noteq> []"
  using recs_size_0[of rs] by linarith

lemma poll_ok:
  assumes h: "rb_holds n rb rs q"
  shows "if rs = [] then vmars_spsc_rb_poll rb = (None, rb)
         else \<exists>rb'. vmars_spsc_rb_poll rb = (Some (unat (head_position rb) mod 2 ^ n), rb') \<and>
                rb_holds n rb' rs q \<and> rb_polled rb' \<and>
                rb' = rb\<lparr>tail_cache_position := tail_cache_position rb'\<rparr>"
proof -
  from h obtain k j where g: "rb_geometry n rb" and n: "n \<le> 30" and k: "k + recs_size rs + q \<le> 2 ^ n"
    and tail: "tail_position rb = head_position rb + of_nat (recs_size rs)"
    and j: "j \<le> length rs" and cache: "tail_cache_position rb = head_position rb + of_nat (recs_size (take j rs))"
    by (rule rb_holdsE) blast
  have S: "sint (tail_position rb - head_position rb) = int (recs_size rs)"
    using k pow_30[OF n] by (simp add: tail sint_of_nat_small)
  have C: "sint (tail_cache_position rb - head_position rb) = int (recs_size (take j rs))"
    using k pow_30[OF n] recs_size_take[of j rs] by (simp add: cache sint_of_nat_small)
  show ?thesis
  proof (cases "rs = []")
    case True
    then show ?thesis using S C by (simp add: vmars_spsc_rb_poll_def Let_def)
  next
    case False
    let ?rb' = "if recs_size (take j rs) = 0 then rb\<lparr>tail_cache_position := tail_position rb\<rparr> else rb"
    have "vmars_spsc_rb_poll rb = (Some (unat (head_position rb) mod 2 ^ n), ?rb')"
      using False S C by (simp add: vmars_spsc_rb_poll_def Let_def head_index_mod[OF g])
    moreover have "rb_holds n ?rb' rs q"
      using h tail by (auto simp: rb_holds_def rb_geometry_def intro!: exI[of _ "length rs"])
    moreover have "rb_polled ?rb'" using False S C unfolding rb_polled_def by auto
    moreover have "?rb' = rb\<lparr>tail_cache_position := tail_cache_position ?rb'\<rparr>" by simp
    ultimately show ?thesis unfolding if_not_P[OF False] by (intro exI[of _ ?rb'] conjI)
  qed
qed

lemma consumer_reads:
  assumes h: "rb_holds n rb (r # rs) q" and a: "a = unat (head_position rb) mod 2 ^ n"
  shows "rb_read rb a 4 = Inr (le_bytes 4 (int (length r)))"
    and "rb_read rb (a + SIZEOF_RECORD) (length r) = Inr r"
    and "le_signed (le_bytes 4 (int (length r))) = int (length r)"
proof -
  let ?h = "unat (head_position rb)" and ?m = "rb_buffer rb"
  from h obtain k where n: "n \<le> 30" and L: "length ?m = 2 ^ n" and recs: "recs_at ?m ?h (r # rs)"
    and k: "k + recs_size (r # rs) + q \<le> 2 ^ n" by (rule rb_holdsE) blast
  have fits: "4 + length r \<le> 2 ^ n" and "a < 2 ^ n"
    using k a by (auto simp: rec_size_def SIZEOF_RECORD_def)
  then have rd: "rb_read rb a 4 = Inr (ring_load ?m a 4)"
    "rb_read rb (a + SIZEOF_RECORD) (length r) = Inr (ring_load ?m (a + SIZEOF_RECORD) (length r))"
    by (simp_all add: rb_read_in[OF L] SIZEOF_RECORD_def)
  have idx: "(a + i) mod length ?m = (?h + i) mod length ?m" for i
    unfolding L a by (simp add: mod_add_left_eq)
  have "ring_load ?m a 4 = ring_load ?m ?h 4" using ring_load_mod[OF idx[of 0]] by simp
  moreover have "ring_load ?m (a + SIZEOF_RECORD) (length r) = ring_load ?m (?h + SIZEOF_RECORD) (length r)"
    by (rule ring_load_mod) (rule idx)
  ultimately show "rb_read rb a 4 = Inr (le_bytes 4 (int (length r)))"
    and "rb_read rb (a + SIZEOF_RECORD) (length r) = Inr r" using rd recs by simp_all
  show "le_signed (le_bytes 4 (int (length r))) = int (length r)"
    using fits pow_30[OF n] by (intro le_signed_length) simp
qed

lemma release_ok:
  assumes h: "rb_holds n rb (r # rs) q" and p: "rb_polled rb" and a: "a = unat (head_position rb) mod 2 ^ n"
  shows "\<exists>rb'. vmars_spsc_rb_release rb a = Inr (0, rb') \<and> rb_holds n rb' rs q \<and>
           rb' = rb\<lparr>head_position := head_position rb + of_nat (rec_size r)\<rparr>"
proof -
  let ?h = "unat (head_position rb)" and ?m = "rb_buffer rb"
  let ?rb' = "rb\<lparr>head_position := head_position rb + of_nat (rec_size r)\<rparr>"
  from h obtain k j where g: "rb_geometry n rb" and n: "n \<le> 30" and L: "length ?m = 2 ^ n"
    and recs: "recs_at ?m ?h (r # rs)"
    and tail: "tail_position rb = head_position rb + of_nat (recs_size (r # rs))"
    and head: "head_position rb = head_cache_position rb + of_nat k"
    and k: "k + recs_size (r # rs) + q \<le> 2 ^ n" and j: "j \<le> length (r # rs)"
    and cache: "tail_cache_position rb = head_position rb + of_nat (recs_size (take j (r # rs)))"
    by (rule rb_holdsE) blast
  have rel: "vmars_spsc_rb_release rb a = Inr (0, ?rb')"
    using consumer_reads[OF h a] a head_index_mod[OF g]
    by (simp add: vmars_spsc_rb_release_def rec_size_def add.assoc)
  obtain i where i: "j = Suc i"
  proof (cases j)
    case 0
    with p cache show ?thesis by (simp add: rb_polled_def)
  qed
  have "recs_at ?m (unat (head_position rb + of_nat (rec_size r))) rs"
    using recs L pos_add_mod[OF n, of "head_position rb" "rec_size r"]
    by (subst recs_at_mod[where q = "?h + rec_size r"]) simp_all
  moreover have "\<exists>k'. head_position ?rb' = head_cache_position ?rb' + of_nat k' \<and> k' + recs_size rs + q \<le> 2 ^ n"
    using head k by (intro exI[of _ "k + rec_size r"]) (simp add: add.assoc)
  moreover have "\<exists>j'\<le>length rs. tail_cache_position ?rb' = head_position ?rb' + of_nat (recs_size (take j' rs))"
    using cache i j by (intro exI[of _ i]) (simp add: add.assoc)
  ultimately have "rb_holds n ?rb' rs q" using g tail by (simp add: rb_holds_def rb_geometry_def add.assoc)
  with rel show ?thesis by auto
qed

subsection \<open>A bounded first-in first-out queue, and the ring as one\<close>

text \<open>
  What the capture thread and the latency thread rely on: an offered element is either refused,
  for want of space and without effect, or put behind the others; consuming takes the oldest.
\<close>

datatype 'a queue_op = Offer 'a | Consume

datatype 'a queue_out = Offered bool | Consumed "'a option"

fun run_ops :: "('q \<Rightarrow> 'a \<Rightarrow> (bool \<times> 'q) res) \<Rightarrow> ('q \<Rightarrow> ('a option \<times> 'q) res) \<Rightarrow>
    'q \<Rightarrow> 'a queue_op list \<Rightarrow> ('a queue_out list \<times> 'q) res" where
  "run_ops offer consume q [] = Inr ([], q)"
| "run_ops offer consume q (Offer x # ops) =
     and_then (offer q x) (\<lambda>(b, q').
     and_then (run_ops offer consume q' ops) (\<lambda>(os, q''). Inr (Offered b # os, q'')))"
| "run_ops offer consume q (Consume # ops) =
     and_then (consume q) (\<lambda>(r, q').
     and_then (run_ops offer consume q' ops) (\<lambda>(os, q''). Inr (Consumed r # os, q'')))"

fun spec_ops :: "('a list \<Rightarrow> 'a \<Rightarrow> bool) \<Rightarrow> 'a list \<Rightarrow> 'a queue_op list \<Rightarrow> 'a queue_out list \<times> 'a list" where
  "spec_ops room xs [] = ([], xs)"
| "spec_ops room xs (Offer x # ops) =
     (let b = room xs x; (os, ys) = spec_ops room (if b then xs @ [x] else xs) ops in (Offered b # os, ys))"
| "spec_ops room xs (Consume # ops) =
     (let (os, ys) = spec_ops room (tl xs) ops
      in (Consumed (case xs of [] \<Rightarrow> None | x # _ \<Rightarrow> Some x) # os, ys))"

locale bounded_fifo =
  fixes offer :: "'q \<Rightarrow> 'a \<Rightarrow> (bool \<times> 'q) res"
    and consume :: "'q \<Rightarrow> ('a option \<times> 'q) res"
    and holds :: "'q \<Rightarrow> 'a list \<Rightarrow> bool"
    and room :: "'a list \<Rightarrow> 'a \<Rightarrow> bool"
    and element :: "'a \<Rightarrow> bool"
  assumes offer_law: "holds q xs \<Longrightarrow> element x \<Longrightarrow>
      \<exists>q'. offer q x = Inr (room xs x, q') \<and> holds q' (if room xs x then xs @ [x] else xs)"
    and consume_empty: "holds q [] \<Longrightarrow> \<exists>q'. consume q = Inr (None, q') \<and> holds q' []"
    and consume_law: "holds q (x # xs) \<Longrightarrow> \<exists>q'. consume q = Inr (Some x, q') \<and> holds q' xs"
begin

lemma refines_spec:
  "holds q xs \<Longrightarrow> (\<forall>x. Offer x \<in> set ops \<longrightarrow> element x) \<Longrightarrow>
     \<exists>q'. run_ops offer consume q ops = Inr (fst (spec_ops room xs ops), q') \<and> holds q' (snd (spec_ops room xs ops))"
proof (induction ops arbitrary: q xs)
  case (Cons op ops)
  show ?case
  proof (cases op)
    case (Offer x)
    with Cons.prems have "element x" by simp
    from offer_law[OF Cons.prems(1) this] obtain q1
      where "offer q x = Inr (room xs x, q1)" "holds q1 (if room xs x then xs @ [x] else xs)" by blast
    with Cons.IH[OF this(2)] Cons.prems(2) Offer show ?thesis by (auto simp: Let_def split_beta)
  next
    case Consume
    have "\<exists>q1. consume q = Inr (case xs of [] \<Rightarrow> None | x # _ \<Rightarrow> Some x, q1) \<and> holds q1 (tl xs)"
      using Cons.prems consume_empty consume_law by (cases xs) auto
    then obtain q1 where c: "consume q = Inr (case xs of [] \<Rightarrow> None | x # _ \<Rightarrow> Some x, q1)"
      and "holds q1 (tl xs)" by blast
    from Cons.IH[OF this(2)] Cons.prems(2) c Consume show ?thesis by (auto simp: Let_def split_beta)
  qed
qed simp

lemma drain_all: "holds q xs \<Longrightarrow> k = length xs \<Longrightarrow>
  \<exists>q'. run_ops offer consume q (replicate k Consume) = Inr (map (\<lambda>x. Consumed (Some x)) xs, q') \<and> holds q' []"
proof (induction xs arbitrary: q k)
  case (Cons x xs)
  from consume_law[OF Cons.prems(1)] obtain q1 where "consume q = Inr (Some x, q1)" "holds q1 xs" by blast
  with Cons.IH[OF this(2) refl] Cons.prems show ?case by auto
qed auto

end

definition rb_room :: "nat \<Rightarrow> byte list list \<Rightarrow> byte list \<Rightarrow> bool" where
  "rb_room n rs r \<longleftrightarrow> rec_size r + recs_size rs \<le> 2 ^ n"

lemma rb_offer_ok:
  assumes h: "rb_holds n rb rs 0" and len: "length r < 2 ^ 64"
  shows "\<exists>rb'. rb_offer rb r = Inr (rb_room n rs r, rb') \<and> rb_holds n rb' (if rb_room n rs r then rs @ [r] else rs) 0"
proof (cases "rb_room n rs r")
  case True
  then have fits: "length r + SIZEOF_RECORD + recs_size rs \<le> 2 ^ n" by (simp add: rb_room_def rec_size_def)
  from claim_ok[OF h fits] obtain a rb1 where c: "vmars_spsc_rb_claim rb (of_nat (length r)) = Inr (Some a, rb1)"
    and c1: "rb_claimed n rb1 rs a (SIZEOF_RECORD + length r) (le_bytes 4 (int (length r)))" by blast
  from claimed_write[OF c1, of r] obtain rb2 where w: "rb_write rb1 (a + SIZEOF_RECORD) r = Inr rb2"
    and c2: "rb_claimed n rb2 rs a (SIZEOF_RECORD + length r) (le_bytes 4 (int (length r)) @ r)"
    by (auto simp: SIZEOF_RECORD_def)
  from publish_ok[OF c2] obtain rb3 where "vmars_spsc_rb_publish rb2 a = Inr (0, rb3)" "rb_holds n rb3 (rs @ [r]) 0"
    by blast
  with c w True show ?thesis by (simp add: rb_offer_def)
next
  case False
  then have "length r + SIZEOF_RECORD + recs_size rs > 2 ^ n" by (simp add: rb_room_def rec_size_def)
  from claim_full[OF h len this] h False show ?thesis by (simp add: rb_offer_def)
qed

lemma rb_consume_nil:
  assumes "rb_holds n rb [] q"
  shows "rb_consume rb = Inr (None, rb)"
  using poll_ok[OF assms] by (simp add: rb_consume_def)

lemma rb_consume_ok:
  assumes "rb_holds n rb (r # rs) q"
  shows "\<exists>rb'. rb_consume rb = Inr (Some r, rb') \<and> rb_holds n rb' rs q"
proof -
  define a where "a = unat (head_position rb) mod 2 ^ n"
  from poll_ok[OF assms] obtain rb1 where poll: "vmars_spsc_rb_poll rb = (Some a, rb1)"
    and h1: "rb_holds n rb1 (r # rs) q" and p1: "rb_polled rb1"
    and eq: "rb1 = rb\<lparr>tail_cache_position := tail_cache_position rb1\<rparr>" by (auto simp: a_def)
  from eq have a1: "a = unat (head_position rb1) mod 2 ^ n"
    unfolding a_def by (metis vmars_spsc_rb.ext_inject vmars_spsc_rb.surjective vmars_spsc_rb.update_convs(3))
  from release_ok[OF h1 p1 a1] obtain rb2 where "vmars_spsc_rb_release rb1 a = Inr (0, rb2)" "rb_holds n rb2 rs q"
    by blast
  with poll consumer_reads[OF h1 a1] show ?thesis by (simp add: rb_consume_def)
qed

interpretation rbq: bounded_fifo rb_offer rb_consume "\<lambda>rb rs. rb_holds n rb rs 0" "rb_room n"
    "\<lambda>r. length r < 2 ^ 64" for n
proof unfold_locales
  fix rb rs and r :: "byte list"
  assume "rb_holds n rb rs 0" "length r < (2::nat) ^ 64"
  then show "\<exists>rb'. rb_offer rb r = Inr (rb_room n rs r, rb') \<and>
      rb_holds n rb' (if rb_room n rs r then rs @ [r] else rs) 0"
    by (rule rb_offer_ok)
next
  fix rb assume "rb_holds n rb [] 0"
  then show "\<exists>rb'. rb_consume rb = Inr (None, rb') \<and> rb_holds n rb' [] 0"
    using rb_consume_nil by blast
next
  fix rb r rs assume "rb_holds n rb (r # rs) 0"
  then show "\<exists>rb'. rb_consume rb = Inr (Some r, rb') \<and> rb_holds n rb' rs 0" by (rule rb_consume_ok)
qed

subsection \<open>Initialisation\<close>

lemma is_power_of_two_pow: "n \<le> 30 \<Longrightarrow> is_power_of_two (2 ^ n)"
proof -
  assume n: "n \<le> 30"
  have "(2 ^ n :: size_word) > 0" using unat_pow[OF n] by (simp add: word_less_nat_alt)
  moreover have "(2 ^ n AND (NOT (2 ^ n) + 1) :: size_word) = 2 ^ n"
  proof (rule bit_word_eqI)
    fix i assume "i < LENGTH(64)"
    have "NOT (2 ^ n :: size_word) + 1 = - (2 ^ n)" by (simp add: minus_eq_not_plus_1)
    also have "\<dots> = NOT (mask n)" by (simp add: minus_exp_eq_not_mask)
    finally have "NOT (2 ^ n :: size_word) + 1 = NOT (mask n)" .
    then show "bit (2 ^ n AND (NOT (2 ^ n) + 1) :: size_word) i = bit (2 ^ n :: size_word) i"
      using n by (auto simp: bit_simps)
  qed
  ultimately show ?thesis by (simp add: is_power_of_two_def)
qed

lemma init_ok:
  assumes "n \<le> 30"
  shows "\<exists>rb. vmars_spsc_rb_init pagesize True True rb0 (2 ^ n) = (0, rb) \<and> rb_holds n rb [] 0"
  using assms is_power_of_two_pow[OF assms] unat_pow[OF assms]
  by (auto simp: vmars_spsc_rb_init_def Let_def rb_holds_def rb_geometry_def intro!: exI[of _ 0])

subsection \<open>Properties of the ring\<close>

text \<open>C9: for a record of \<open>len\<close> bytes \<open>vmars_spsc_rb_claim\<close> succeeds exactly when the
  record and its header fit beside the records the consumer has not released; otherwise it
  changes nothing. It never writes outside the mapping.\<close>

theorem claim_succeeds_iff_fits:
  assumes "rb_holds n rb rs 0" and "len < 2 ^ 64"
  shows "if len + SIZEOF_RECORD + recs_size rs \<le> 2 ^ n
    then \<exists>a rb'. vmars_spsc_rb_claim rb (of_nat len) = Inr (Some a, rb') \<and>
           rb_holds n rb' rs (SIZEOF_RECORD + len) \<and> a = unat (tail_position rb) mod 2 ^ n
    else vmars_spsc_rb_claim rb (of_nat len) = Inr (None, rb)"
proof (cases "len + SIZEOF_RECORD + recs_size rs \<le> 2 ^ n")
  case True
  with claim_ok[OF assms(1) True] show ?thesis by (auto simp: rb_claimed_def)
next
  case False
  with claim_full[OF assms] show ?thesis by simp
qed

definition sample_ring :: vmars_spsc_rb where
  "sample_ring = snd (vmars_spsc_rb_init 4096 True True
     \<lparr>rb_buffer = [], rb_capacity = 0, tail_cache_position = 0, tail_position = 0,
      head_cache_position = 0, head_position = 0\<rparr> 16)"

lemma sample_ring_holds: "rb_holds 4 sample_ring [] 0"
proof -
  let ?rb0 = "\<lparr>rb_buffer = [], rb_capacity = 0, tail_cache_position = 0, tail_position = 0,
      head_cache_position = 0, head_position = 0\<rparr>"
  from init_ok[of 4 4096 ?rb0] obtain rb where "vmars_spsc_rb_init 4096 True True ?rb0 (2 ^ 4) = (0, rb)"
    and h: "rb_holds 4 rb [] 0" by auto
  then have "sample_ring = rb" by (simp add: sample_ring_def)
  with h show ?thesis by simp
qed

theorem claim_succeeds_iff_fits_witness:
  "(\<exists>a rb'. vmars_spsc_rb_claim sample_ring 12 = Inr (Some a, rb') \<and> rb_holds 4 rb' [] 16)
   \<and> vmars_spsc_rb_claim sample_ring 13 = Inr (None, sample_ring)"
  using claim_succeeds_iff_fits[OF sample_ring_holds, of 12]
    claim_succeeds_iff_fits[OF sample_ring_holds, of 13] by (auto simp: SIZEOF_RECORD_def)

text \<open>C10: a ring initialised with a power of two behaves, under any sequence of offers and
  consumptions and however far its positions wrap around, as a bounded first-in first-out queue
  of the record's bytes; no operation faults.\<close>

theorem ring_refines_queue:
  assumes "n \<le> 30" and "vmars_spsc_rb_init pagesize True True rb0 (2 ^ n) = (code, rb)"
    and "\<forall>r. Offer r \<in> set ops \<longrightarrow> length r < 2 ^ 64"
  shows "code = 0 \<and> (\<exists>rb'. run_ops rb_offer rb_consume rb ops = Inr (fst (spec_ops (rb_room n) [] ops), rb'))"
proof -
  from init_ok[OF assms(1), of pagesize rb0] assms(2) have "code = 0" and h: "rb_holds n rb [] 0" by auto
  then show ?thesis using rbq.refines_spec[OF h, of ops] assms(3) by auto
qed

theorem ring_refines_queue_witness:
  "\<exists>rb'. run_ops rb_offer rb_consume sample_ring [Offer [1, 2], Offer [3, 4, 5, 6, 7, 8, 9], Consume, Offer [3], Consume]
     = Inr ([Offered True, Offered False, Consumed (Some [1, 2]), Offered True, Consumed (Some [3])], rb')"
proof -
  let ?rb0 = "\<lparr>rb_buffer = [], rb_capacity = 0, tail_cache_position = 0, tail_position = 0,
      head_cache_position = 0, head_position = 0\<rparr>"
  let ?ops = "[Offer [1, 2], Offer [3, 4, 5, 6, 7, 8, 9], Consume, Offer [3], Consume]"
  have "fst (vmars_spsc_rb_init 4096 True True ?rb0 (2 ^ 4)) = 0" by code_simp
  then have "vmars_spsc_rb_init 4096 True True ?rb0 (2 ^ 4) = (0, sample_ring)"
    by (simp add: sample_ring_def prod_eq_iff)
  moreover have "spec_ops (rb_room 4) [] ?ops = ([Offered True, Offered False, Consumed (Some [1, 2]),
      Offered True, Consumed (Some [3])], [])"
    by (simp add: rb_room_def rec_size_def SIZEOF_RECORD_def)
  ultimately show ?thesis using ring_refines_queue[of 4 4096 ?rb0 0 sample_ring ?ops]
    by (simp del: run_ops.simps)
qed

text \<open>The check of the capacity in \<open>vmars_spsc_rb_init\<close> lets a capacity pass that is not
  a power of two; in such a ring a published record overwrites an unread one and the consumer
  receives the second record in the place of the first.\<close>

theorem init_accepts_bad_capacity:
  "\<exists>rb1 rb2 rb3 rb4.
     vmars_spsc_rb_init 4096 True True rb0 24 = (0, rb1) \<and>
     rb_offer rb1 [1, 2, 3, 4] = Inr (True, rb2) \<and>
     rb_offer rb2 [5, 6, 7, 8] = Inr (True, rb3) \<and>
     rb_consume rb3 = Inr (Some [5, 6, 7, 8], rb4)"
proof -
  let ?z = "\<lambda>bs t h. \<lparr>rb_buffer = bs, rb_capacity = 24, tail_cache_position = 0, tail_position = t,
    head_cache_position = 0, head_position = h\<rparr>"
  have "vmars_spsc_rb_init 4096 True True rb0 24 = (0, ?z (replicate 24 0) 0 0)"
    by (simp add: vmars_spsc_rb_init_def is_power_of_two_def is_multiple_of_page_size_def Let_def)
  moreover have "rb_offer (?z (replicate 24 0) 0 0) [1, 2, 3, 4]
      = Inr (True, ?z ([4, 0, 0, 0, 1, 2, 3, 4] @ replicate 16 0) 8 0)" by code_simp
  moreover have "rb_offer (?z ([4, 0, 0, 0, 1, 2, 3, 4] @ replicate 16 0) 8 0) [5, 6, 7, 8]
      = Inr (True, ?z ([4, 0, 0, 0, 5, 6, 7, 8] @ replicate 16 0) 16 0)" by code_simp
  moreover have "\<exists>rb4. rb_consume (?z ([4, 0, 0, 0, 5, 6, 7, 8] @ replicate 16 0) 16 0) = Inr (Some [5, 6, 7, 8], rb4)"
  proof -
    have "map_sum id fst (rb_consume (?z ([4, 0, 0, 0, 5, 6, 7, 8] @ replicate 16 0) 16 0)) = Inr (Some [5, 6, 7, 8])"
      by code_simp
    then show ?thesis by (cases "rb_consume (?z ([4, 0, 0, 0, 5, 6, 7, 8] @ replicate 16 0) 16 0)") auto
  qed
  ultimately show ?thesis by blast
qed

end
