(* ===== verification/Ring_Threads.thy ===== *)
theory Ring_Threads
  imports Spsc_Ring
begin

text \<open>
  The ring of \<^verbatim>\<open>src/spsc_rb.c\<close> shared by a producer and a consumer that run concurrently:
  a step relation of the interleavings of their operations, the invariant of its reachable
  states, and the theorems on what the consumer receives.
\<close>

subsection \<open>Two threads\<close>

text \<open>
  The capture thread and the latency thread run the protocol concurrently. Each operation of
  one thread accesses at most one of the other thread's positions, once, with a sequentially
  consistent atomic, so an interleaving of whole operations represents an execution. The
  \<open>sent\<close> and \<open>received\<close> records are ghosts.
\<close>

datatype producer_pc = P_Idle | P_Claimed nat "byte list" | P_Filled nat "byte list"

datatype consumer_pc = C_Idle | C_Polled nat | C_Read nat "byte list"

record ring_state =
  ring :: vmars_spsc_rb
  producer :: producer_pc
  consumer :: consumer_pc
  sent :: "byte list list"
  received :: "byte list list"

inductive producer_step :: "ring_state \<Rightarrow> ring_state \<Rightarrow> bool" where
  claim_none: "producer s = P_Idle \<Longrightarrow> length (r :: byte list) < 2 ^ 64 \<Longrightarrow>
     vmars_spsc_rb_claim (ring s) (of_nat (length r)) = Inr (None, rb) \<Longrightarrow>
     producer_step s (s\<lparr>ring := rb\<rparr>)"
| claim_some: "producer s = P_Idle \<Longrightarrow> length r < 2 ^ 64 \<Longrightarrow>
     vmars_spsc_rb_claim (ring s) (of_nat (length r)) = Inr (Some a, rb) \<Longrightarrow>
     producer_step s (s\<lparr>ring := rb, producer := P_Claimed a r\<rparr>)"
| fill: "producer s = P_Claimed a r \<Longrightarrow> rb_write (ring s) (a + SIZEOF_RECORD) r = Inr rb \<Longrightarrow>
     producer_step s (s\<lparr>ring := rb, producer := P_Filled a r\<rparr>)"
| publish: "producer s = P_Filled a r \<Longrightarrow> vmars_spsc_rb_publish (ring s) a = Inr (0, rb) \<Longrightarrow>
     producer_step s (s\<lparr>ring := rb, producer := P_Idle, sent := sent s @ [r]\<rparr>)"

inductive consumer_step :: "ring_state \<Rightarrow> ring_state \<Rightarrow> bool" where
  poll_none: "consumer s = C_Idle \<Longrightarrow> vmars_spsc_rb_poll (ring s) = (None, rb) \<Longrightarrow>
     consumer_step s (s\<lparr>ring := rb\<rparr>)"
| poll_some: "consumer s = C_Idle \<Longrightarrow> vmars_spsc_rb_poll (ring s) = (Some a, rb) \<Longrightarrow>
     consumer_step s (s\<lparr>ring := rb, consumer := C_Polled a\<rparr>)"
| read_record: "consumer s = C_Polled a \<Longrightarrow> rb_read (ring s) a 4 = Inr l \<Longrightarrow>
     rb_read (ring s) (a + SIZEOF_RECORD) (nat (le_signed l)) = Inr r \<Longrightarrow>
     consumer_step s (s\<lparr>consumer := C_Read a r\<rparr>)"
| release: "consumer s = C_Read a r \<Longrightarrow> vmars_spsc_rb_release (ring s) a = Inr (0, rb) \<Longrightarrow>
     consumer_step s (s\<lparr>ring := rb, consumer := C_Idle, received := received s @ [r]\<rparr>)"

inductive ring_reach :: "nat \<Rightarrow> ring_state \<Rightarrow> bool" for n where
  start: "vmars_spsc_rb_init pagesize True True rb0 (2 ^ n) = (0, rb) \<Longrightarrow>
     ring_reach n \<lparr>ring = rb, producer = P_Idle, consumer = C_Idle, sent = [], received = []\<rparr>"
| produce: "ring_reach n s \<Longrightarrow> producer_step s t \<Longrightarrow> ring_reach n t"
| consume: "ring_reach n s \<Longrightarrow> consumer_step s t \<Longrightarrow> ring_reach n t"


fun producer_inv :: "nat \<Rightarrow> vmars_spsc_rb \<Rightarrow> byte list list \<Rightarrow> producer_pc \<Rightarrow> bool" where
  "producer_inv n rb rs P_Idle = rb_holds n rb rs 0"
| "producer_inv n rb rs (P_Claimed a r) =
     rb_claimed n rb rs a (SIZEOF_RECORD + length r) (le_bytes 4 (int (length r)))"
| "producer_inv n rb rs (P_Filled a r) =
     rb_claimed n rb rs a (SIZEOF_RECORD + length r) (le_bytes 4 (int (length r)) @ r)"

fun consumer_inv :: "nat \<Rightarrow> vmars_spsc_rb \<Rightarrow> byte list list \<Rightarrow> consumer_pc \<Rightarrow> bool" where
  "consumer_inv n rb rs C_Idle = True"
| "consumer_inv n rb rs (C_Polled a) =
     (rs \<noteq> [] \<and> rb_polled rb \<and> a = unat (head_position rb) mod 2 ^ n)"
| "consumer_inv n rb rs (C_Read a r) =
     (rs \<noteq> [] \<and> hd rs = r \<and> rb_polled rb \<and> a = unat (head_position rb) mod 2 ^ n)"

definition ring_inv :: "nat \<Rightarrow> ring_state \<Rightarrow> byte list list \<Rightarrow> bool" where
  "ring_inv n s rs \<longleftrightarrow> sent s = received s @ rs \<and>
     producer_inv n (ring s) rs (producer s) \<and> consumer_inv n (ring s) rs (consumer s)"

fun claimed_bytes :: "producer_pc \<Rightarrow> nat" where
  "claimed_bytes P_Idle = 0"
| "claimed_bytes (P_Claimed a r) = SIZEOF_RECORD + length r"
| "claimed_bytes (P_Filled a r) = SIZEOF_RECORD + length r"

lemma producer_inv_holds: "producer_inv n rb rs p \<Longrightarrow> rb_holds n rb rs (claimed_bytes p)"
  by (cases p) (auto simp: rb_claimed_def)

lemma producer_inv_frame:
  "producer_inv n rb rs p \<Longrightarrow> rb_holds n rb' rs' (claimed_bytes p) \<Longrightarrow>
     tail_position rb' = tail_position rb \<Longrightarrow> rb_buffer rb' = rb_buffer rb \<Longrightarrow> producer_inv n rb' rs' p"
  by (cases p) (auto simp: rb_claimed_def)

lemma consumer_inv_frame:
  "consumer_inv n rb rs c \<Longrightarrow> head_position rb' = head_position rb \<Longrightarrow>
     tail_cache_position rb' = tail_cache_position rb \<Longrightarrow> consumer_inv n rb' (rs @ rs') c"
  by (cases c) (auto simp: rb_polled_def hd_append)

lemma producer_step_inv:
  assumes step: "producer_step s t" and inv: "ring_inv n s rs"
  shows "\<exists>rs'. ring_inv n t rs' \<and> received t = received s"
  using step
proof (cases rule: producer_step.cases)
  case (claim_none r rb)
  with inv have h: "rb_holds n (ring s) rs 0" by (simp add: ring_inv_def)
  show ?thesis
  proof (cases "length r + SIZEOF_RECORD + recs_size rs > 2 ^ n")
    case True
    from claim_full[OF h claim_none(3) this] claim_none inv show ?thesis by (auto simp: ring_inv_def)
  next
    case False
    with claim_ok[OF h, of "length r"] claim_none show ?thesis by auto
  qed
next
  case (claim_some r a rb)
  with inv have h: "rb_holds n (ring s) rs 0" by (simp add: ring_inv_def)
  have fits: "length r + SIZEOF_RECORD + recs_size rs \<le> 2 ^ n"
    using claim_full[OF h claim_some(3)] claim_some(4) by (metis Inr_inject leI option.distinct(1) prod.inject)
  from claim_ok[OF h fits] claim_some inv consumer_inv_frame[of n "ring s" rs "consumer s" rb "[]"]
  show ?thesis by (auto simp: ring_inv_def)
next
  case (fill a r rb)
  with inv have "rb_claimed n (ring s) rs a (SIZEOF_RECORD + length r) (le_bytes 4 (int (length r)))"
    by (simp add: ring_inv_def)
  from claimed_write[OF this, of r] fill
  have "rb_claimed n rb rs a (SIZEOF_RECORD + length r) (le_bytes 4 (int (length r)) @ r)"
    and eq: "rb = ring s\<lparr>rb_buffer := rb_buffer rb\<rparr>" by (auto simp: SIZEOF_RECORD_def)
  moreover from eq have "head_position rb = head_position (ring s)"
    "tail_cache_position rb = tail_cache_position (ring s)" by (metis vmars_spsc_rb.ext_inject
        vmars_spsc_rb.surjective vmars_spsc_rb.update_convs(1))+
  ultimately show ?thesis
    using inv fill consumer_inv_frame[of n "ring s" rs "consumer s" rb "[]"] by (auto simp: ring_inv_def)
next
  case (publish a r rb)
  with inv have "rb_claimed n (ring s) rs a (SIZEOF_RECORD + length r) (le_bytes 4 (int (length r)) @ r)"
    by (simp add: ring_inv_def)
  from publish_ok[OF this] publish have h: "rb_holds n rb (rs @ [r]) 0"
    and eq: "rb = ring s\<lparr>tail_position := tail_position (ring s) + of_nat (rec_size r)\<rparr>" by auto
  from eq have "head_position rb = head_position (ring s)"
    "tail_cache_position rb = tail_cache_position (ring s)" by simp_all
  with h inv publish consumer_inv_frame[of n "ring s" rs "consumer s" rb "[r]"]
  show ?thesis by (auto simp: ring_inv_def intro!: exI[of _ "rs @ [r]"])
qed

lemma consumer_step_inv:
  assumes step: "consumer_step s t" and inv: "ring_inv n s rs"
  shows "\<exists>rs'. ring_inv n t rs' \<and> sent t = sent s"
proof -
  from inv have h: "rb_holds n (ring s) rs (claimed_bytes (producer s))"
    and p: "producer_inv n (ring s) rs (producer s)"
    by (auto simp: ring_inv_def intro: producer_inv_holds)
  show ?thesis using step
  proof (cases rule: consumer_step.cases)
    case (poll_none rb)
    with poll_ok[OF h] inv show ?thesis by (auto simp: ring_inv_def split: if_splits)
  next
    case (poll_some a rb)
    with poll_ok[OF h] have h': "rb_holds n rb rs (claimed_bytes (producer s))" and "rs \<noteq> []"
      and "rb_polled rb" and a: "a = unat (head_position (ring s)) mod 2 ^ n"
      and eq: "rb = ring s\<lparr>tail_cache_position := tail_cache_position rb\<rparr>"
      by (auto split: if_splits)
    moreover from eq have "tail_position rb = tail_position (ring s)" "rb_buffer rb = rb_buffer (ring s)"
      "head_position rb = head_position (ring s)" by (metis vmars_spsc_rb.ext_inject
        vmars_spsc_rb.surjective vmars_spsc_rb.update_convs(3))+
    ultimately show ?thesis using inv poll_some producer_inv_frame[OF p h']
      by (auto simp: ring_inv_def)
  next
    case (read_record a l r)
    with inv obtain r' rs' where rs: "rs = r' # rs'" and a: "a = unat (head_position (ring s)) mod 2 ^ n"
      and pol: "rb_polled (ring s)" by (auto simp: ring_inv_def neq_Nil_conv)
    from consumer_reads[OF h[unfolded rs] a] read_record have "r = r'" by simp
    with rs a pol inv read_record show ?thesis by (auto simp: ring_inv_def)
  next
    case (release a r rb)
    with inv obtain rs' where rs: "rs = r # rs'" and a: "a = unat (head_position (ring s)) mod 2 ^ n"
      and pol: "rb_polled (ring s)" by (auto simp: ring_inv_def neq_Nil_conv)
    from release_ok[OF h[unfolded rs] pol a] release
    have h': "rb_holds n rb rs' (claimed_bytes (producer s))"
      and eq: "rb = ring s\<lparr>head_position := head_position (ring s) + of_nat (rec_size r)\<rparr>" by auto
    have "producer_inv n rb rs' (producer s)"
      using p h' by (rule producer_inv_frame) (simp_all add: eq)
    with rs inv release show ?thesis by (auto simp: ring_inv_def)
  qed
qed

lemma ring_reach_inv: "ring_reach n s \<Longrightarrow> n \<le> 30 \<Longrightarrow> \<exists>rs. ring_inv n s rs"
proof (induction rule: ring_reach.induct)
  case (start pagesize rb0 rb)
  with init_ok[of n pagesize rb0] show ?case by (auto simp: ring_inv_def)
next
  case (produce s t)
  then show ?case using producer_step_inv by blast
next
  case (consume s t)
  then show ?case using consumer_step_inv by blast
qed

subsection \<open>Properties of the two threads\<close>

text \<open>C12: under every interleaving of the capture thread's and the latency thread's
  operations, what the consumer has received is an initial part of what the producer has
  published, byte for byte: no record is lost, duplicated, reordered or torn. The unreceived
  records never exceed the capacity.\<close>

theorem threads_first_in_first_out:
  assumes "ring_reach n s" and "n \<le> 30"
  shows "\<exists>waiting. sent s = received s @ waiting \<and> recs_size waiting \<le> 2 ^ n"
proof -
  from ring_reach_inv[OF assms] obtain rs where inv: "ring_inv n s rs" by blast
  then have "rb_holds n (ring s) rs (claimed_bytes (producer s))"
    by (auto simp: ring_inv_def intro: producer_inv_holds)
  then have "recs_size rs \<le> 2 ^ n" by (auto elim!: rb_holdsE)
  with inv show ?thesis by (auto simp: ring_inv_def)
qed

abbreviation state16 :: "vmars_spsc_rb \<Rightarrow> producer_pc \<Rightarrow> consumer_pc \<Rightarrow> byte list list \<Rightarrow> byte list list \<Rightarrow> ring_state" where
  "state16 rb p c snt rcv \<equiv> \<lparr>ring = rb, producer = p, consumer = c, sent = snt, received = rcv\<rparr>"

definition ring16 :: "byte list \<Rightarrow> size_word \<Rightarrow> size_word \<Rightarrow> size_word \<Rightarrow> vmars_spsc_rb" where
  "ring16 bs tail_cache tail head = \<lparr>rb_buffer = bs @ replicate (16 - length bs) 0, rb_capacity = 16,
     tail_cache_position = tail_cache, tail_position = tail, head_cache_position = 0, head_position = head\<rparr>"

text \<open>A run: a record \<open>[7]\<close> is published and, while \<open>[8]\<close> is claimed, polled and received.\<close>

lemma sample_run_publish: "ring_reach 4 (state16 (ring16 [1,0,0,0,7] 0 5 0) P_Idle C_Idle [[7]] [])"
proof -
  have "vmars_spsc_rb_init 4096 True True (ring16 [] 0 0 0) (2 ^ 4) = (0, ring16 [] 0 0 0)" by code_simp
  then have "ring_reach 4 (state16 (ring16 [] 0 0 0) P_Idle C_Idle [] [])" by (rule ring_reach.start)
  then have "ring_reach 4 (state16 (ring16 [1] 0 0 0) (P_Claimed 0 [7]) C_Idle [] [])"
  proof (rule ring_reach.produce)
    have "vmars_spsc_rb_claim (ring16 [] 0 0 0) 1 = Inr (Some 0, ring16 [1] 0 0 0)" by code_simp
    then show "producer_step (state16 (ring16 [] 0 0 0) P_Idle C_Idle [] [])
        (state16 (ring16 [1] 0 0 0) (P_Claimed 0 [7]) C_Idle [] [])"
      using claim_some[of "state16 (ring16 [] 0 0 0) P_Idle C_Idle [] []" "[7]" 0] by simp
  qed
  then have "ring_reach 4 (state16 (ring16 [1,0,0,0,7] 0 0 0) (P_Filled 0 [7]) C_Idle [] [])"
  proof (rule ring_reach.produce)
    have "rb_write (ring16 [1] 0 0 0) (0 + SIZEOF_RECORD) [7] = Inr (ring16 [1,0,0,0,7] 0 0 0)" by code_simp
    then show "producer_step (state16 (ring16 [1] 0 0 0) (P_Claimed 0 [7]) C_Idle [] [])
        (state16 (ring16 [1,0,0,0,7] 0 0 0) (P_Filled 0 [7]) C_Idle [] [])"
      using fill[of "state16 (ring16 [1] 0 0 0) (P_Claimed 0 [7]) C_Idle [] []" 0 "[7]"] by simp
  qed
  then have "ring_reach 4 (state16 (ring16 [1,0,0,0,7] 0 5 0) P_Idle C_Idle [[7]] [])"
  proof (rule ring_reach.produce)
    have "vmars_spsc_rb_publish (ring16 [1,0,0,0,7] 0 0 0) 0 = Inr (0, ring16 [1,0,0,0,7] 0 5 0)" by code_simp
    then show "producer_step (state16 (ring16 [1,0,0,0,7] 0 0 0) (P_Filled 0 [7]) C_Idle [] [])
        (state16 (ring16 [1,0,0,0,7] 0 5 0) P_Idle C_Idle [[7]] [])"
      using publish[of "state16 (ring16 [1,0,0,0,7] 0 0 0) (P_Filled 0 [7]) C_Idle [] []" 0 "[7]"] by simp
  qed
  then show ?thesis .
qed

lemma sample_run:
  "\<exists>s. ring_reach 4 s \<and> sent s = [[7]] \<and> received s = [[7]] \<and> producer s = P_Claimed 5 [8]"
proof -
  from sample_run_publish have "ring_reach 4 (state16 (ring16 [1,0,0,0,7] 5 5 0) P_Idle (C_Polled 0) [[7]] [])"
  proof (rule ring_reach.consume)
    have "vmars_spsc_rb_poll (ring16 [1,0,0,0,7] 0 5 0) = (Some 0, ring16 [1,0,0,0,7] 5 5 0)" by code_simp
    then show "consumer_step (state16 (ring16 [1,0,0,0,7] 0 5 0) P_Idle C_Idle [[7]] [])
        (state16 (ring16 [1,0,0,0,7] 5 5 0) P_Idle (C_Polled 0) [[7]] [])"
      using poll_some[of "state16 (ring16 [1,0,0,0,7] 0 5 0) P_Idle C_Idle [[7]] []" 0] by simp
  qed
  then have "ring_reach 4 (state16 (ring16 [1,0,0,0,7,1] 5 5 0) (P_Claimed 5 [8]) (C_Polled 0) [[7]] [])"
  proof (rule ring_reach.produce)
    have "vmars_spsc_rb_claim (ring16 [1,0,0,0,7] 5 5 0) 1 = Inr (Some 5, ring16 [1,0,0,0,7,1] 5 5 0)" by code_simp
    then show "producer_step (state16 (ring16 [1,0,0,0,7] 5 5 0) P_Idle (C_Polled 0) [[7]] [])
        (state16 (ring16 [1,0,0,0,7,1] 5 5 0) (P_Claimed 5 [8]) (C_Polled 0) [[7]] [])"
      using claim_some[of "state16 (ring16 [1,0,0,0,7] 5 5 0) P_Idle (C_Polled 0) [[7]] []" "[8]" 5] by simp
  qed
  then have "ring_reach 4 (state16 (ring16 [1,0,0,0,7,1] 5 5 0) (P_Claimed 5 [8]) (C_Read 0 [7]) [[7]] [])"
  proof (rule ring_reach.consume)
    have "rb_read (ring16 [1,0,0,0,7,1] 5 5 0) 0 4 = Inr [1,0,0,0]"
      "rb_read (ring16 [1,0,0,0,7,1] 5 5 0) (0 + SIZEOF_RECORD) (nat (le_signed [1,0,0,0])) = Inr [7]"
      by code_simp+
    then show "consumer_step (state16 (ring16 [1,0,0,0,7,1] 5 5 0) (P_Claimed 5 [8]) (C_Polled 0) [[7]] [])
        (state16 (ring16 [1,0,0,0,7,1] 5 5 0) (P_Claimed 5 [8]) (C_Read 0 [7]) [[7]] [])"
      using read_record[of "state16 (ring16 [1,0,0,0,7,1] 5 5 0) (P_Claimed 5 [8]) (C_Polled 0) [[7]] []" 0 "[1,0,0,0]" "[7]"]
      by simp
  qed
  then have "ring_reach 4 (state16 (ring16 [1,0,0,0,7,1] 5 5 5) (P_Claimed 5 [8]) C_Idle [[7]] [[7]])"
  proof (rule ring_reach.consume)
    have "vmars_spsc_rb_release (ring16 [1,0,0,0,7,1] 5 5 0) 0 = Inr (0, ring16 [1,0,0,0,7,1] 5 5 5)" by code_simp
    then show "consumer_step (state16 (ring16 [1,0,0,0,7,1] 5 5 0) (P_Claimed 5 [8]) (C_Read 0 [7]) [[7]] [])
        (state16 (ring16 [1,0,0,0,7,1] 5 5 5) (P_Claimed 5 [8]) C_Idle [[7]] [[7]])"
      using release[of "state16 (ring16 [1,0,0,0,7,1] 5 5 0) (P_Claimed 5 [8]) (C_Read 0 [7]) [[7]] []" 0 "[7]"] by simp
  qed
  then show ?thesis by (intro exI conjI) auto
qed

theorem threads_first_in_first_out_witness:
  "\<exists>s. ring_reach 4 s \<and> received s = [[7]] \<and> (\<exists>waiting. sent s = received s @ waiting \<and> recs_size waiting \<le> 2 ^ 4)"
proof -
  from sample_run obtain s where s: "ring_reach 4 s" "received s = [[7]]" by blast
  from threads_first_in_first_out[OF s(1)] s show ?thesis by auto
qed

text \<open>The next operation of each thread, where \<open>waiting\<close> are the records published and not yet received.\<close>

definition producer_proceeds :: "nat \<Rightarrow> ring_state \<Rightarrow> byte list list \<Rightarrow> bool" where
  "producer_proceeds n s waiting \<longleftrightarrow>
     (case producer s of
        P_Idle \<Rightarrow> \<forall>r. length (r :: byte list) < 2 ^ 64 \<longrightarrow>
          (\<exists>p rb. vmars_spsc_rb_claim (ring s) (of_nat (length r)) = Inr (p, rb) \<and>
             (p = None \<longleftrightarrow> 2 ^ n < length r + SIZEOF_RECORD + recs_size waiting))
      | P_Claimed a r \<Rightarrow> \<exists>rb. rb_write (ring s) (a + SIZEOF_RECORD) r = Inr rb
      | P_Filled a r \<Rightarrow> \<exists>rb. vmars_spsc_rb_publish (ring s) a = Inr (0, rb))"

definition consumer_proceeds :: "ring_state \<Rightarrow> byte list list \<Rightarrow> bool" where
  "consumer_proceeds s waiting \<longleftrightarrow>
     (case consumer s of
        C_Idle \<Rightarrow> fst (vmars_spsc_rb_poll (ring s)) = None \<longleftrightarrow> waiting = []
      | C_Polled a \<Rightarrow> waiting \<noteq> [] \<and> (\<exists>l. rb_read (ring s) a 4 = Inr l \<and>
          rb_read (ring s) (a + SIZEOF_RECORD) (nat (le_signed l)) = Inr (hd waiting))
      | C_Read a r \<Rightarrow> waiting \<noteq> [] \<and> r = hd waiting \<and> (\<exists>rb. vmars_spsc_rb_release (ring s) a = Inr (0, rb)))"

lemma producer_can_proceed:
  assumes inv: "ring_inv n s rs"
  shows "producer_proceeds n s rs"
proof (cases "producer s")
  case P_Idle
  with inv have h: "rb_holds n (ring s) rs 0" by (simp add: ring_inv_def)
  have "\<exists>p rb. vmars_spsc_rb_claim (ring s) (of_nat (length r)) = Inr (p, rb) \<and>
      (p = None \<longleftrightarrow> 2 ^ n < length r + SIZEOF_RECORD + recs_size rs)" if "length r < 2 ^ 64" for r :: "byte list"
  proof (cases "2 ^ n < length r + SIZEOF_RECORD + recs_size rs")
    case True
    with claim_full[OF h that] show ?thesis by simp
  next
    case False
    with claim_ok[OF h, of "length r"] show ?thesis by auto
  qed
  with P_Idle show ?thesis by (simp add: producer_proceeds_def)
next
  case (P_Claimed a r)
  with inv claimed_write[of n "ring s" rs a _ _ r] show ?thesis
    by (fastforce simp: producer_proceeds_def ring_inv_def SIZEOF_RECORD_def)
next
  case (P_Filled a r)
  with inv publish_ok show ?thesis by (fastforce simp: producer_proceeds_def ring_inv_def)
qed

lemma consumer_can_proceed:
  assumes inv: "ring_inv n s rs"
  shows "consumer_proceeds s rs"
proof -
  have h: "rb_holds n (ring s) rs (claimed_bytes (producer s))"
    using inv by (auto simp: ring_inv_def intro: producer_inv_holds)
  show ?thesis
  proof (cases "consumer s")
    case C_Idle
    with poll_ok[OF h] show ?thesis by (auto simp: consumer_proceeds_def split: if_splits)
  next
    case (C_Polled a)
    with inv obtain r rs' where rs: "rs = r # rs'" and a: "a = unat (head_position (ring s)) mod 2 ^ n"
      by (auto simp: ring_inv_def neq_Nil_conv)
    from consumer_reads[OF h[unfolded rs] a] C_Polled show ?thesis by (simp add: consumer_proceeds_def rs)
  next
    case (C_Read a r)
    with inv obtain rs' where rs: "rs = r # rs'" and a: "a = unat (head_position (ring s)) mod 2 ^ n"
      and "rb_polled (ring s)" by (auto simp: ring_inv_def neq_Nil_conv)
    from release_ok[OF h[unfolded rs] this(3) a] C_Read show ?thesis by (auto simp: consumer_proceeds_def rs)
  qed
qed

text \<open>C13: neither thread ever gets stuck or faults: in every reachable state the next operation of the
  producer returns, whatever record it claims room for (and the claim fails only when the record does not fit beside those
  that wait), a claimed record is filled inside the mapping and a filled one published; the next operation of the
  consumer returns too: the poll finds a record exactly when one waits, and a polled record is read whole, the
  oldest of those that wait, and released.\<close>

theorem threads_make_progress:
  assumes "ring_reach n s" and "n \<le> 30"
  shows "\<exists>waiting. sent s = received s @ waiting \<and> producer_proceeds n s waiting \<and> consumer_proceeds s waiting"
proof -
  obtain rs where inv: "ring_inv n s rs" using ring_reach_inv[OF assms] by blast
  then have "sent s = received s @ rs" by (simp add: ring_inv_def)
  with producer_can_proceed[OF inv] consumer_can_proceed[OF inv] show ?thesis by blast
qed

theorem threads_make_progress_witness:
  "\<exists>s. ring_reach 4 s \<and> producer s = P_Claimed 5 [8] \<and> (\<exists>rb. rb_write (ring s) 9 [8] = Inr rb) \<and>
     (\<exists>t. ring_reach 4 t \<and> producer t = P_Idle \<and> (\<exists>p rb. vmars_spsc_rb_claim (ring t) 3 = Inr (p, rb) \<and> p \<noteq> None))"
proof -
  from sample_run obtain s where s: "ring_reach 4 s" "producer s = P_Claimed 5 [8]" by blast
  from threads_make_progress[OF s(1)] s(2) have "\<exists>rb. rb_write (ring s) 9 [8] = Inr rb"
    by (auto simp: producer_proceeds_def SIZEOF_RECORD_def)
  moreover let ?t = "state16 (ring16 [1,0,0,0,7] 0 5 0) P_Idle C_Idle [[7]] []"
  obtain waiting where w: "[[7]] = waiting" "producer_proceeds 4 ?t waiting"
    using threads_make_progress[OF sample_run_publish] by auto
  from w(2) have "\<forall>r :: byte list. length r < 2 ^ 64 \<longrightarrow> (\<exists>p rb. vmars_spsc_rb_claim (ring ?t) (of_nat (length r)) = Inr (p, rb) \<and>
      (p = None \<longleftrightarrow> 2 ^ 4 < length r + SIZEOF_RECORD + recs_size waiting))" by (simp add: producer_proceeds_def)
  from this[THEN spec, of "[1, 2, 3]"] obtain p rb where
    "vmars_spsc_rb_claim (ring ?t) (of_nat (length [1, 2, 3 :: byte])) = Inr (p, rb)"
    "p = None \<longleftrightarrow> 2 ^ 4 < length [1, 2, 3 :: byte] + SIZEOF_RECORD + recs_size waiting" by auto
  moreover from this(2) have "p \<noteq> None"
    unfolding w(1)[symmetric] by (simp add: recs_size_def rec_size_def SIZEOF_RECORD_def)
  ultimately show ?thesis using s sample_run_publish by (intro exI[of _ s] conjI exI[of _ ?t]) auto
qed

end
