(* ===== verification/Ring_TSO.thy ===== *)
theory Ring_TSO
  imports Ring_Threads
begin

text \<open>
  The ring of \<^verbatim>\<open>src/spsc_rb.c\<close> on the memory of the processor that \<^verbatim>\<open>src/atomic.h\<close> is written for: on x86-64 a
  core puts its stores into a first-in first-out buffer, reads its own stores back from it, and other cores see
  a store only when it has left the buffer. A locked instruction waits until the buffer is empty. The
  executions on this memory are those of the interleavings of \<^verbatim>\<open>Ring_Threads\<close>.
\<close>

subsection \<open>Store buffers\<close>

text \<open>A pending store of one byte, at an index of the memory; the oldest is the first.\<close>

type_synonym stores = "(nat \<times> byte) list"

definition apply_stores :: "stores \<Rightarrow> byte list \<Rightarrow> byte list" where
  "apply_stores ps m = fold (\<lambda>(i, b) m. m[i := b]) ps m"

definition byte_stores :: "nat \<Rightarrow> nat \<Rightarrow> byte list \<Rightarrow> stores" where
  "byte_stores L a bs = zip (map (\<lambda>i. (a + i) mod L) [0..<length bs]) bs"

lemma apply_stores_simps [simp]:
  "apply_stores [] m = m" "apply_stores ((i, b) # ps) m = apply_stores ps (m[i := b])"
  "apply_stores (ps @ qs) m = apply_stores qs (apply_stores ps m)"
  by (simp_all add: apply_stores_def)

lemma length_apply_stores [simp]: "length (apply_stores ps m) = length m"
  by (induction ps arbitrary: m) auto

lemma apply_byte_stores: "length m = L \<Longrightarrow> apply_stores (byte_stores L a bs) m = ring_store m a bs"
proof (induction bs arbitrary: m a)
  case (Cons b bs)
  have "byte_stores L a (b # bs) = (a mod L, b) # byte_stores L (Suc a) bs"
    by (simp add: byte_stores_def upt_rec [of 0] map_Suc_upt [symmetric] o_def del: upt_Suc map_Suc_upt)
  with Cons show ?case by simp
qed (simp add: byte_stores_def)

lemma byte_stores_index:
  "(i, b) \<in> set (byte_stores L a bs) \<Longrightarrow> \<exists>j<length bs. i = (a + j) mod L"
  by (auto simp: byte_stores_def set_zip)

lemma apply_stores_other: "i \<notin> fst ` set ps \<Longrightarrow> apply_stores ps m ! i = m ! i"
  by (induction ps arbitrary: m) auto

subsection \<open>The threads on store buffers\<close>

text \<open>
  Between two locked stores of its position a thread stores only into memory of its own and, the producer,
  into the record it has claimed. So the state has the producer's pending stores to the buffer, and shared memory
  for the rest. \<open>seen\<close> is the state as the producer sees it.
\<close>

record tso_state =
  tso_ring :: vmars_spsc_rb
  tso_pending :: stores
  tso_producer :: producer_pc
  tso_consumer :: consumer_pc
  tso_sent :: "byte list list"
  tso_received :: "byte list list"

definition buffered :: "stores \<Rightarrow> vmars_spsc_rb \<Rightarrow> vmars_spsc_rb" where
  "buffered ps rb = rb\<lparr>rb_buffer := apply_stores ps (rb_buffer rb)\<rparr>"

definition seen :: "tso_state \<Rightarrow> ring_state" where
  "seen s = \<lparr>ring = buffered (tso_pending s) (tso_ring s), producer = tso_producer s, consumer = tso_consumer s,
     sent = tso_sent s, received = tso_received s\<rparr>"

text \<open>The stores that an operation of the producer makes go into its buffer, the rest of its effect is local.\<close>

definition store_local :: "tso_state \<Rightarrow> vmars_spsc_rb \<Rightarrow> nat \<Rightarrow> byte list \<Rightarrow> tso_state" where
  "store_local s rb a bs = s\<lparr>tso_ring := rb\<lparr>rb_buffer := rb_buffer (tso_ring s)\<rparr>,
     tso_pending := tso_pending s @ byte_stores (length (rb_buffer (tso_ring s))) a bs\<rparr>"

text \<open>
  Loads are plain (\<open>vmars_atomic_load_seq_cst_i64\<close>), the positions are stored by a locked exchange
  (\<open>vmars_atomic_store_seq_cst_i64\<close>), so that publishing waits for an empty buffer. A store can leave the
  buffer at any time.
\<close>

inductive tso_producer_step :: "tso_state \<Rightarrow> tso_state \<Rightarrow> bool" where
  tso_claim_none: "tso_producer s = P_Idle \<Longrightarrow> length (r :: byte list) < 2 ^ 64 \<Longrightarrow>
     vmars_spsc_rb_claim (ring (seen s)) (of_nat (length r)) = Inr (None, rb) \<Longrightarrow>
     tso_producer_step s (store_local s rb 0 [])"
| tso_claim_some: "tso_producer s = P_Idle \<Longrightarrow> length r < 2 ^ 64 \<Longrightarrow>
     vmars_spsc_rb_claim (ring (seen s)) (of_nat (length r)) = Inr (Some a, rb) \<Longrightarrow>
     tso_producer_step s ((store_local s rb a (le_bytes 4 (to_int32 (of_nat (length r)))))\<lparr>tso_producer := P_Claimed a r\<rparr>)"
| tso_fill: "tso_producer s = P_Claimed a r \<Longrightarrow> rb_write (ring (seen s)) (a + SIZEOF_RECORD) r = Inr rb \<Longrightarrow>
     tso_producer_step s ((store_local s rb (a + SIZEOF_RECORD) r)\<lparr>tso_producer := P_Filled a r\<rparr>)"
| tso_publish: "tso_producer s = P_Filled a r \<Longrightarrow> tso_pending s = [] \<Longrightarrow>
     vmars_spsc_rb_publish (tso_ring s) a = Inr (0, rb) \<Longrightarrow>
     tso_producer_step s (s\<lparr>tso_ring := rb, tso_producer := P_Idle, tso_sent := tso_sent s @ [r]\<rparr>)"
| tso_commit: "tso_pending s = (i, b) # ps \<Longrightarrow>
     tso_producer_step s (s\<lparr>tso_ring := (tso_ring s)\<lparr>rb_buffer := (rb_buffer (tso_ring s))[i := b]\<rparr>, tso_pending := ps\<rparr>)"

inductive tso_consumer_step :: "tso_state \<Rightarrow> tso_state \<Rightarrow> bool" where
  tso_poll_none: "tso_consumer s = C_Idle \<Longrightarrow> vmars_spsc_rb_poll (tso_ring s) = (None, rb) \<Longrightarrow>
     tso_consumer_step s (s\<lparr>tso_ring := rb\<rparr>)"
| tso_poll_some: "tso_consumer s = C_Idle \<Longrightarrow> vmars_spsc_rb_poll (tso_ring s) = (Some a, rb) \<Longrightarrow>
     tso_consumer_step s (s\<lparr>tso_ring := rb, tso_consumer := C_Polled a\<rparr>)"
| tso_read_record: "tso_consumer s = C_Polled a \<Longrightarrow> rb_read (tso_ring s) a 4 = Inr l \<Longrightarrow>
     rb_read (tso_ring s) (a + SIZEOF_RECORD) (nat (le_signed l)) = Inr r \<Longrightarrow>
     tso_consumer_step s (s\<lparr>tso_consumer := C_Read a r\<rparr>)"
| tso_release: "tso_consumer s = C_Read a r \<Longrightarrow> vmars_spsc_rb_release (tso_ring s) a = Inr (0, rb) \<Longrightarrow>
     tso_consumer_step s (s\<lparr>tso_ring := rb, tso_consumer := C_Idle, tso_received := tso_received s @ [r]\<rparr>)"

inductive tso_reach :: "nat \<Rightarrow> tso_state \<Rightarrow> bool" for n where
  tso_start: "vmars_spsc_rb_init pagesize True True rb0 (2 ^ n) = (0, rb) \<Longrightarrow>
     tso_reach n \<lparr>tso_ring = rb, tso_pending = [], tso_producer = P_Idle, tso_consumer = C_Idle,
       tso_sent = [], tso_received = []\<rparr>"
| tso_produce: "tso_reach n s \<Longrightarrow> tso_producer_step s t \<Longrightarrow> tso_reach n t"
| tso_consume: "tso_reach n s \<Longrightarrow> tso_consumer_step s t \<Longrightarrow> tso_reach n t"

subsection \<open>What the producer sees\<close>

lemma buffered_simps [simp]:
  "rb_capacity (buffered ps rb) = rb_capacity rb" "tail_cache_position (buffered ps rb) = tail_cache_position rb"
  "tail_position (buffered ps rb) = tail_position rb" "head_cache_position (buffered ps rb) = head_cache_position rb"
  "head_position (buffered ps rb) = head_position rb" "buffered [] rb = rb"
  "length (rb_buffer (buffered ps rb)) = length (rb_buffer rb)"
  by (simp_all add: buffered_def)

lemma claim_buffer:
  assumes "vmars_spsc_rb_claim rb len = Inr (p, rb')"
  shows "rb_buffer rb' = (case p of None \<Rightarrow> rb_buffer rb | Some a \<Rightarrow> ring_store (rb_buffer rb) a (le_bytes 4 (to_int32 len)))"
  using assms
  by (auto simp: vmars_spsc_rb_claim_def Let_def and_then_eq_Inr rb_write_def split: if_splits option.splits)

lemma store_local_seen:
  assumes "rb_buffer rb = ring_store (rb_buffer (ring (seen s))) a bs"
  shows "seen (store_local s rb a bs) = (seen s)\<lparr>ring := rb\<rparr>"
  using assms by (simp add: seen_def store_local_def buffered_def apply_byte_stores)

lemma seen_update [simp]:
  "seen (s\<lparr>tso_producer := p\<rparr>) = (seen s)\<lparr>producer := p\<rparr>" "seen (s\<lparr>tso_consumer := c\<rparr>) = (seen s)\<lparr>consumer := c\<rparr>"
  by (simp_all add: seen_def)

lemma seen_fields [simp]:
  "producer (seen s) = tso_producer s" "consumer (seen s) = tso_consumer s" "sent (seen s) = tso_sent s"
  "received (seen s) = tso_received s" "ring (seen s) = buffered (tso_pending s) (tso_ring s)"
  by (simp_all add: seen_def)

lemma tso_producer_seen:
  assumes "tso_producer_step s t"
  shows "seen t = seen s \<or> producer_step (seen s) (seen t)"
  using assms
proof cases
  case (tso_claim_none r rb)
  from claim_buffer [OF tso_claim_none(4)] have "seen t = (seen s)\<lparr>ring := rb\<rparr>"
    unfolding tso_claim_none(1) by (intro store_local_seen) simp
  with claim_none [OF _ tso_claim_none(3,4)] tso_claim_none(2) show ?thesis by simp
next
  case (tso_claim_some r a rb)
  from claim_buffer [OF tso_claim_some(4)] have "seen t = (seen s)\<lparr>ring := rb, producer := P_Claimed a r\<rparr>"
    unfolding tso_claim_some(1) by (simp add: store_local_seen)
  with claim_some [OF _ tso_claim_some(3,4)] tso_claim_some(2) show ?thesis by simp
next
  case (tso_fill a r rb)
  have "rb_buffer rb = ring_store (rb_buffer (ring (seen s))) (a + SIZEOF_RECORD) r"
    using tso_fill(3) by (auto simp: rb_write_def split: if_splits)
  then have "seen t = (seen s)\<lparr>ring := rb, producer := P_Filled a r\<rparr>"
    unfolding tso_fill(1) by (simp add: store_local_seen)
  with fill [OF _ tso_fill(3)] tso_fill(2) show ?thesis by simp
next
  case (tso_publish a r rb)
  then have t: "seen t = (seen s)\<lparr>ring := rb, producer := P_Idle, sent := sent (seen s) @ [r]\<rparr>"
    by (simp add: seen_def)
  have "producer_step (seen s) ((seen s)\<lparr>ring := rb, producer := P_Idle, sent := sent (seen s) @ [r]\<rparr>)"
    by (rule publish [of "seen s" a r rb]) (simp_all add: tso_publish)
  then show ?thesis unfolding t by blast
next
  case (tso_commit i b ps)
  then show ?thesis by (simp add: seen_def buffered_def)
qed


subsection \<open>Pending stores lie in the claimed record\<close>

definition pending_claimed :: "nat \<Rightarrow> tso_state \<Rightarrow> bool" where
  "pending_claimed n s \<longleftrightarrow> (\<forall>i\<in>fst ` set (tso_pending s).
     \<exists>d<claimed_bytes (tso_producer s). i = (unat (tail_position (tso_ring s)) + d) mod 2 ^ n)"

lemma producer_inv_claimed:
  assumes "producer_inv n rb rs p" and "p = P_Claimed a r \<or> p = P_Filled a r"
  shows "a = unat (tail_position rb) mod 2 ^ n"
  using assms by (auto simp: rb_claimed_def)

lemma byte_stores_claimed:
  assumes "a = t mod 2 ^ n" and "i \<in> fst ` set (byte_stores (2 ^ n) (a + k) bs)"
  shows "\<exists>d<k + length bs. i = (t + d) mod 2 ^ n"
proof -
  from assms(2) obtain j where j: "j < length bs" "i = (a + k + j) mod 2 ^ n" by (auto dest: byte_stores_index)
  then have "i = (t + (k + j)) mod 2 ^ n" by (simp add: assms(1) mod_simps add.assoc)
  with j(1) show ?thesis by (intro exI [of _ "k + j"]) simp
qed

lemma claim_positions:
  "vmars_spsc_rb_claim rb len = Inr (p, rb') \<Longrightarrow> tail_position rb' = tail_position rb"
  by (auto simp: vmars_spsc_rb_claim_def Let_def and_then_eq_Inr rb_write_def split: if_splits)

lemma pending_producer:
  assumes step: "tso_producer_step s t" and ok: "pending_claimed n s"
    and inv: "ring_inv n (seen s) rs" "ring_inv n (seen t) rs'"
  shows "pending_claimed n t"
  using step
proof cases
  case (tso_claim_none r rb)
  with ok claim_positions [OF tso_claim_none(4)] show ?thesis
    by (simp add: pending_claimed_def store_local_def byte_stores_def)
next
  case (tso_claim_some r a rb)
  have L: "length (rb_buffer (tso_ring s)) = 2 ^ n"
    using producer_inv_holds [of n "ring (seen s)" rs "producer (seen s)"] inv(1) by (auto simp: ring_inv_def elim!: rb_holdsE)
  have tail: "tail_position (tso_ring t) = tail_position (tso_ring s)"
    using claim_positions [OF tso_claim_some(4)] by (simp add: tso_claim_some(1) store_local_def)
  have a: "a = unat (tail_position (tso_ring s)) mod 2 ^ n"
    using inv(2) producer_inv_claimed [of n "ring (seen t)" rs' "P_Claimed a r" a r] tail
    by (simp add: ring_inv_def tso_claim_some(1))
  have "\<exists>d<SIZEOF_RECORD + length r. i = (unat (tail_position (tso_ring s)) + d) mod 2 ^ n"
    if i: "i \<in> fst ` set (byte_stores (2 ^ n) a (le_bytes 4 (to_int32 (of_nat (length r)))))" for i
  proof -
    from i have "i \<in> fst ` set (byte_stores (2 ^ n) (a + 0) (le_bytes 4 (to_int32 (of_nat (length r)))))" by simp
    from byte_stores_claimed [OF a this] obtain d where "d < 4" "i = (unat (tail_position (tso_ring s)) + d) mod 2 ^ n"
      by auto
    then show ?thesis by (intro exI [of _ d]) (simp add: SIZEOF_RECORD_def)
  qed
  moreover have "tso_pending s = []"
    using ok tso_claim_some(2) by (cases "tso_pending s") (auto simp: pending_claimed_def)
  ultimately show ?thesis
    using tail by (simp add: pending_claimed_def tso_claim_some(1) store_local_def L)
next
  case (tso_fill a r rb)
  have L: "length (rb_buffer (tso_ring s)) = 2 ^ n"
    using producer_inv_holds [of n "ring (seen s)" rs "producer (seen s)"] inv(1) by (auto simp: ring_inv_def elim!: rb_holdsE)
  have tail: "tail_position (tso_ring t) = tail_position (tso_ring s)"
    using tso_fill(3) by (auto simp: tso_fill(1) store_local_def rb_write_def split: if_splits)
  have a: "a = unat (tail_position (tso_ring s)) mod 2 ^ n"
    using inv(1) producer_inv_claimed [of n "ring (seen s)" rs "P_Claimed a r" a r] tso_fill(2)
    by (simp add: ring_inv_def)
  have "\<exists>d<SIZEOF_RECORD + length r. i = (unat (tail_position (tso_ring s)) + d) mod 2 ^ n"
    if "i \<in> fst ` set (byte_stores (2 ^ n) (a + SIZEOF_RECORD) r)" for i
    using byte_stores_claimed [OF a that] .
  with ok tail tso_fill(2) show ?thesis
    by (auto simp: pending_claimed_def tso_fill(1) store_local_def L)
next
  case (tso_publish a r rb)
  then show ?thesis by (simp add: pending_claimed_def)
next
  case (tso_commit i b ps)
  with ok show ?thesis by (auto simp: pending_claimed_def)
qed

text \<open>So the consumer reads from shared memory what the producer sees.\<close>

lemma unread_same:
  assumes h: "rb_holds n (buffered ps rb) rs q" and x: "x + k \<le> recs_size rs"
    and ps: "\<forall>i\<in>fst ` set ps. \<exists>d<q. i = (unat (tail_position rb) + d) mod 2 ^ n"
  shows "ring_load (rb_buffer rb) (unat (head_position rb) + x) k =
    ring_load (apply_stores ps (rb_buffer rb)) (unat (head_position rb) + x) k"
proof (rule nth_equalityI)
  fix j assume "j < length (ring_load (rb_buffer rb) (unat (head_position rb) + x) k)"
  then have j: "j < k" by simp
  have L: "length (rb_buffer rb) = 2 ^ n" and room: "recs_size rs + q \<le> 2 ^ n"
    using h by (auto elim!: rb_holdsE)
  have tail: "unat (tail_position rb) mod 2 ^ n = (unat (head_position rb) + recs_size rs) mod 2 ^ n"
    using rb_holds_index [OF h] by simp
  let ?i = "(unat (head_position rb) + x + j) mod 2 ^ n"
  have "?i \<notin> fst ` set ps"
  proof
    assume "?i \<in> fst ` set ps"
    then obtain d where d: "d < q" "?i = (unat (tail_position rb) + d) mod 2 ^ n" using ps by blast
    have "(unat (tail_position rb) + d) mod 2 ^ n = (unat (head_position rb) + recs_size rs + d) mod 2 ^ n"
      by (rule mod_add_shift [OF tail])
    moreover have "?i \<noteq> (unat (head_position rb) + recs_size rs + d) mod 2 ^ n"
      using mod_ne [of "unat (head_position rb) + x + j" "unat (head_position rb) + recs_size rs + d" "2 ^ n"]
        j x room d(1) by linarith
    ultimately show False using d(2) by simp
  qed
  then show "ring_load (rb_buffer rb) (unat (head_position rb) + x) k ! j =
      ring_load (apply_stores ps (rb_buffer rb)) (unat (head_position rb) + x) k ! j"
    using j L by (simp add: apply_stores_other)
qed simp


lemma consumer_read_same:
  assumes h: "rb_holds n (buffered ps rb) (r # rs) q" and a: "a = unat (head_position rb) mod 2 ^ n"
    and ps: "\<forall>i\<in>fst ` set ps. \<exists>d<q. i = (unat (tail_position rb) + d) mod 2 ^ n" and k: "x + k \<le> rec_size r"
  shows "rb_read rb (a + x) k = rb_read (buffered ps rb) (a + x) k"
proof -
  have L: "length (rb_buffer rb) = 2 ^ n" using h by (auto elim!: rb_holdsE)
  have "(a + x) mod 2 ^ n = (unat (head_position rb) + x) mod 2 ^ n" by (simp add: a mod_simps)
  then have "ring_load m (a + x) k = ring_load m (unat (head_position rb) + x) k" if "length m = 2 ^ n" for m
    using that by (intro ring_load_mod) simp
  moreover have "ring_load (rb_buffer rb) (unat (head_position rb) + x) k =
      ring_load (apply_stores ps (rb_buffer rb)) (unat (head_position rb) + x) k"
    using k by (intro unread_same [OF h _ ps]) simp
  ultimately show ?thesis using L by (simp add: rb_read_def) (simp add: buffered_def L)
qed

lemma poll_buffered:
  "vmars_spsc_rb_poll (buffered ps rb) = map_prod id (buffered ps) (vmars_spsc_rb_poll rb)"
  by (auto simp: vmars_spsc_rb_poll_def Let_def buffered_def head_index_def)

lemma poll_tail: "vmars_spsc_rb_poll rb = (p, rb') \<Longrightarrow> tail_position rb' = tail_position rb"
  by (auto simp: vmars_spsc_rb_poll_def Let_def split: if_splits)

lemma release_tail: "vmars_spsc_rb_release rb a = Inr (c, rb') \<Longrightarrow> tail_position rb' = tail_position rb"
  by (auto simp: vmars_spsc_rb_release_def and_then_eq_Inr split: if_splits)

lemma tso_consumer_seen:
  assumes step: "tso_consumer_step s t" and inv: "ring_inv n (seen s) rs" and ok: "pending_claimed n s"
  shows "consumer_step (seen s) (seen t)" and "pending_claimed n t"
proof -
  have h: "rb_holds n (buffered (tso_pending s) (tso_ring s)) rs (claimed_bytes (tso_producer s))"
    using inv producer_inv_holds [of n "ring (seen s)" rs "producer (seen s)"] by (simp add: ring_inv_def)
  note ps = ok [unfolded pending_claimed_def]
  have same: "rb_read (tso_ring s) (a + x) k = rb_read (buffered (tso_pending s) (tso_ring s)) (a + x) k"
    if "rs = r # rs'" "a = unat (head_position (tso_ring s)) mod 2 ^ n" "x + k \<le> rec_size r" for a x k r rs'
    using consumer_read_same [OF h [unfolded that(1)] that(2) ps that(3)] .
  show "consumer_step (seen s) (seen t)"
    using step
  proof cases
    case (tso_poll_none rb)
    then have "vmars_spsc_rb_poll (ring (seen s)) = (None, buffered (tso_pending s) rb)" by (simp add: poll_buffered)
    from poll_none [OF _ this] tso_poll_none show ?thesis by (simp add: seen_def)
  next
    case (tso_poll_some a rb)
    then have "vmars_spsc_rb_poll (ring (seen s)) = (Some a, buffered (tso_pending s) rb)" by (simp add: poll_buffered)
    from poll_some [OF _ this] tso_poll_some show ?thesis by (simp add: seen_def)
  next
    case (tso_read_record a l r)
    obtain r' rs' where rs: "rs = r' # rs'" and a: "a = unat (head_position (tso_ring s)) mod 2 ^ n"
      using inv tso_read_record(2) by (auto simp: ring_inv_def neq_Nil_conv)
    have h': "rb_holds n (buffered (tso_pending s) (tso_ring s)) (r' # rs') (claimed_bytes (tso_producer s))"
      using h rs by simp
    have a': "a = unat (head_position (buffered (tso_pending s) (tso_ring s))) mod 2 ^ n" using a by simp
    have l: "rb_read (buffered (tso_pending s) (tso_ring s)) a 4 = Inr l"
      using same [OF rs a, of 0 4] tso_read_record(3) by (simp add: rec_size_def SIZEOF_RECORD_def)
    then have len: "nat (le_signed l) = length r'" using consumer_reads(1,3) [OF h' a'] by simp
    have r: "rb_read (buffered (tso_pending s) (tso_ring s)) (a + SIZEOF_RECORD) (nat (le_signed l)) = Inr r"
      using same [OF rs a, of SIZEOF_RECORD "length r'"] tso_read_record(4) len by (simp add: rec_size_def)
    from read_record [of "seen s" a l r] l r tso_read_record(2) show ?thesis by (simp add: tso_read_record(1))
  next
    case (tso_release a r rb)
    obtain rs' where rs: "rs = r # rs'" and a: "a = unat (head_position (tso_ring s)) mod 2 ^ n"
      using inv tso_release(2) by (auto simp: ring_inv_def neq_Nil_conv)
    have "rb_read (tso_ring s) a 4 = rb_read (buffered (tso_pending s) (tso_ring s)) a 4"
      using same [OF rs a, of 0 4] by (simp add: rec_size_def SIZEOF_RECORD_def)
    then have "vmars_spsc_rb_release (ring (seen s)) a = Inr (0, buffered (tso_pending s) rb)"
      using tso_release(3)
      by (auto simp: vmars_spsc_rb_release_def head_index_def and_then_eq_Inr split: if_splits) (simp add: buffered_def)
    from release [OF _ this] tso_release show ?thesis by (simp add: seen_def)
  qed
  have "tso_pending t = tso_pending s \<and> tso_producer t = tso_producer s \<and>
      tail_position (tso_ring t) = tail_position (tso_ring s)"
    using step by cases (auto dest: poll_tail release_tail)
  then show "pending_claimed n t" using ok by (simp add: pending_claimed_def)
qed

lemma tso_reach_seen: "tso_reach n s \<Longrightarrow> n \<le> 30 \<Longrightarrow> ring_reach n (seen s) \<and> pending_claimed n s"
proof (induction rule: tso_reach.induct)
  case (tso_start pagesize rb0 rb)
  then show ?case by (auto simp: seen_def pending_claimed_def intro: ring_reach.start)
next
  case (tso_produce s t)
  then obtain rs where rs: "ring_inv n (seen s) rs" using ring_reach_inv by blast
  have t: "ring_reach n (seen t)"
    using tso_produce tso_producer_seen [OF tso_produce(2)] by (auto intro: ring_reach.produce)
  with ring_reach_inv tso_produce.prems obtain rs' where "ring_inv n (seen t) rs'" by blast
  with pending_producer [OF tso_produce(2) _ rs] tso_produce t show ?case by blast
next
  case (tso_consume s t)
  then obtain rs where rs: "ring_inv n (seen s) rs" using ring_reach_inv by blast
  from tso_consumer_seen [OF tso_consume(2) rs] tso_consume show ?case by (auto intro: ring_reach.consume)
qed


subsection \<open>Every interleaving is an execution\<close>

lemma tso_commit_all: "tso_reach n s \<Longrightarrow> \<exists>t. tso_reach n t \<and> seen t = seen s \<and> tso_pending t = []"
proof (induction "tso_pending s" arbitrary: s)
  case (Cons p ps)
  obtain i b where p: "p = (i, b)" by (cases p)
  let ?t = "s\<lparr>tso_ring := (tso_ring s)\<lparr>rb_buffer := (rb_buffer (tso_ring s))[i := b]\<rparr>, tso_pending := ps\<rparr>"
  have c: "tso_pending s = (i, b) # ps" using Cons.hyps(2) p by simp
  have "tso_reach n ?t" by (rule tso_produce [OF Cons.prems tso_commit [OF c]])
  moreover have "seen ?t = seen s" using c by (simp add: seen_def buffered_def)
  ultimately show ?case using Cons.hyps(1) [of ?t] by auto
qed auto

lemma tso_produces:
  assumes "producer_step (seen s) u" and "tso_pending s = []"
  shows "\<exists>t. tso_producer_step s t \<and> seen t = u"
  using assms(1)
proof cases
  case (claim_none r rb)
  have "seen (store_local s rb 0 []) = u"
    using claim_buffer [OF claim_none(4)] by (simp add: claim_none(1) store_local_seen)
  with tso_claim_none [of s r rb] claim_none(2-4) show ?thesis by auto
next
  case (claim_some r a rb)
  let ?t = "(store_local s rb a (le_bytes 4 (to_int32 (of_nat (length r)))))\<lparr>tso_producer := P_Claimed a r\<rparr>"
  have "seen ?t = u"
    using claim_buffer [OF claim_some(4)] by (simp add: claim_some(1) store_local_seen)
  with tso_claim_some [of s r a rb] claim_some(2-4) show ?thesis by auto
next
  case (fill a r rb)
  have "rb_buffer rb = ring_store (rb_buffer (ring (seen s))) (a + SIZEOF_RECORD) r"
    using fill(3) by (auto simp: rb_write_def split: if_splits)
  then have "seen ((store_local s rb (a + SIZEOF_RECORD) r)\<lparr>tso_producer := P_Filled a r\<rparr>) = u"
    by (simp add: fill(1) store_local_seen)
  with tso_fill [of s a r rb] fill(2,3) show ?thesis by auto
next
  case (publish a r rb)
  have "seen (s\<lparr>tso_ring := rb, tso_producer := P_Idle, tso_sent := tso_sent s @ [r]\<rparr>) = u"
    using publish(1) assms(2) by (simp add: seen_def)
  with tso_publish [of s a r rb] publish(2,3) assms(2) show ?thesis by auto
qed

lemma tso_consumes:
  assumes "consumer_step (seen s) u" and "tso_pending s = []"
  shows "\<exists>t. tso_consumer_step s t \<and> seen t = u"
  using assms(1)
proof cases
  case (poll_none rb)
  then show ?thesis using assms(2) tso_poll_none [of s rb] by (intro exI [of _ "s\<lparr>tso_ring := rb\<rparr>"]) (simp add: seen_def)
next
  case (poll_some a rb)
  then show ?thesis using assms(2) tso_poll_some [of s a rb]
    by (intro exI [of _ "s\<lparr>tso_ring := rb, tso_consumer := C_Polled a\<rparr>"]) (simp add: seen_def)
next
  case (read_record a l r)
  then show ?thesis using assms(2) tso_read_record [of s a l r]
    by (intro exI [of _ "s\<lparr>tso_consumer := C_Read a r\<rparr>"]) simp
next
  case (release a r rb)
  then show ?thesis using assms(2) tso_release [of s a r rb]
    by (intro exI [of _ "s\<lparr>tso_ring := rb, tso_consumer := C_Idle, tso_received := tso_received s @ [r]\<rparr>"])
      (simp add: seen_def)
qed

lemma ring_reach_seen: "ring_reach n u \<Longrightarrow> \<exists>s. tso_reach n s \<and> seen s = u \<and> tso_pending s = []"
proof (induction rule: ring_reach.induct)
  case (start pagesize rb0 rb)
  from tso_start [OF start] show ?case by (intro exI conjI, assumption) (simp_all add: seen_def)
next
  case (produce u v)
  then obtain s where s: "tso_reach n s" "seen s = u" "tso_pending s = []" by blast
  with tso_produces [of s v] produce(2) obtain t where "tso_producer_step s t" "seen t = v" by auto
  with tso_commit_all [OF tso_produce [OF s(1), of t]] show ?case by auto
next
  case (consume u v)
  then obtain s where s: "tso_reach n s" "seen s = u" "tso_pending s = []" by blast
  with tso_consumes [of s v] consume(2) obtain t where "tso_consumer_step s t" "seen t = v" by auto
  with tso_commit_all [OF tso_consume [OF s(1), of t]] show ?case by auto
qed

subsection \<open>Property\<close>

text \<open>
  C7: on x86-64, with the loads and stores of \<^verbatim>\<open>src/atomic.h\<close>, the ring behaves as in the interleavings of whole
  operations: the states that the store buffers allow, as the producer sees them, are exactly the states of the
  interleavings. Though the bytes of a record reach shared memory one at a time and late, what the consumer has
  received is at any time an initial part of what has been published.
\<close>
theorem store_buffers_invisible:
  assumes "n \<le> 30"
  shows "seen ` {s. tso_reach n s} = {u. ring_reach n u} \<and>
    (\<forall>s. tso_reach n s \<longrightarrow> prefix (tso_received s) (tso_sent s))"
proof
  show "seen ` {s. tso_reach n s} = {u. ring_reach n u}"
    using tso_reach_seen assms ring_reach_seen by blast
  show "\<forall>s. tso_reach n s \<longrightarrow> prefix (tso_received s) (tso_sent s)"
    using tso_reach_seen ring_reach_inv assms unfolding ring_inv_def by (metis prefixI seen_fields(3,4))
qed

text \<open>A claim leaves the four bytes of the length in the store buffer.\<close>

theorem store_buffers_invisible_witness:
  "\<exists>s. tso_reach 4 s \<and> tso_pending s = [(0, 1), (1, 0), (2, 0), (3, 0)] \<and> ring_reach 4 (seen s) \<and>
     prefix (tso_received s) (tso_sent s)"
proof -
  let ?s = "\<lparr>tso_ring = ring16 [] 0 0 0, tso_pending = [], tso_producer = P_Idle, tso_consumer = C_Idle,
       tso_sent = [], tso_received = []\<rparr>"
  have "vmars_spsc_rb_init 4096 True True (ring16 [] 0 0 0) (2 ^ 4) = (0, ring16 [] 0 0 0)" by code_simp
  then have start: "tso_reach 4 ?s" by (rule tso_start)
  have claim: "vmars_spsc_rb_claim (ring (seen ?s)) (of_nat (length [7 :: byte])) = Inr (Some 0, ring16 [1] 0 0 0)"
    by code_simp
  let ?t = "(store_local ?s (ring16 [1] 0 0 0) 0 (le_bytes 4 (to_int32 (of_nat (length [7 :: byte])))))
      \<lparr>tso_producer := P_Claimed 0 [7]\<rparr>"
  have t: "tso_reach 4 ?t" by (rule tso_produce [OF start tso_claim_some [OF _ _ claim]]) simp_all
  have p: "tso_pending ?t = [(0, 1), (1, 0), (2, 0), (3, 0)]" by code_simp
  have four: "(4 :: nat) \<le> 30" by simp
  note inv = store_buffers_invisible [OF four]
  have "seen ?t \<in> {u. ring_reach 4 u}" using imageI [of ?t "{s. tso_reach 4 s}" seen] t unfolding conjunct1 [OF inv] by simp
  then have "ring_reach 4 (seen ?t)" by (rule CollectD)
  with t p conjunct2 [OF inv, rule_format, OF t] show ?thesis by (intro exI conjI)
qed

end
