(* ===== verification/Boyer_Moore.thy ===== *)
theory Boyer_Moore
  imports Vmars_Prelude
begin

text \<open>
  The substring search of \<^verbatim>\<open>src/simpleboyermoore.c\<close> (Horspool's variant of
  Boyer-Moore: only the bad-character table), its reference specification \<open>first_occ\<close>
  and the interface \<open>substring_search\<close> through which the FIX extractor uses it.
\<close>

subsection \<open>Specification: the first occurrence\<close>

fun first_occ :: "byte list \<Rightarrow> byte list \<Rightarrow> nat option" where
  "first_occ p [] = (if p = [] then Some 0 else None)"
| "first_occ p (x # xs) =
     (if prefix p (x # xs) then Some 0 else map_option Suc (first_occ p xs))"

definition occurs_at :: "byte list \<Rightarrow> byte list \<Rightarrow> nat \<Rightarrow> bool" where
  "occurs_at p h i \<longleftrightarrow> i \<le> length h \<and> prefix p (drop i h)"

lemma occurs_at_Cons_Suc [simp]: "occurs_at p (x # xs) (Suc i) = occurs_at p xs i"
  by (simp add: occurs_at_def)

lemma occurs_at_0 [simp]: "occurs_at p h 0 = prefix p h"
  by (simp add: occurs_at_def)

lemma first_occ_None: "first_occ p h = None \<longleftrightarrow> (\<forall>i. \<not> occurs_at p h i)"
proof (induction p h rule: first_occ.induct)
  case (1 p)
  then show ?case by (auto simp: occurs_at_def)
next
  case (2 p x xs)
  show ?case
  proof (cases "prefix p (x # xs)")
    case True
    then have "occurs_at p (x # xs) 0" by simp
    then show ?thesis using True by (auto simp del: occurs_at_0)
  next
    case False
    have "(\<forall>i. \<not> occurs_at p (x # xs) i) \<longleftrightarrow> (\<forall>i. \<not> occurs_at p xs i)"
      using False by (metis occurs_at_0 occurs_at_Cons_Suc not0_implies_Suc)
    with False 2 show ?thesis by simp
  qed
qed

lemma first_occ_Some:
  "first_occ p h = Some i \<longleftrightarrow> occurs_at p h i \<and> (\<forall>k<i. \<not> occurs_at p h k)"
proof (induction p h arbitrary: i rule: first_occ.induct)
  case (1 p)
  then show ?case by (cases i) (auto simp: occurs_at_def)
next
  case (2 p x xs)
  show ?case
  proof (cases "prefix p (x # xs)")
    case True
    then show ?thesis by (cases i) auto
  next
    case False
    have all: "(\<forall>k<Suc j. \<not> occurs_at p (x # xs) k) \<longleftrightarrow> (\<forall>k<j. \<not> occurs_at p xs k)" for j
      using False by (metis Suc_less_eq less_Suc_eq_0_disj occurs_at_0 occurs_at_Cons_Suc)
    show ?thesis
    proof (cases i)
      case 0
      with False show ?thesis by auto
    next
      case (Suc j)
      with False 2 all[of j] show ?thesis by simp
    qed
  qed
qed

lemma occurs_at_nth:
  "p \<noteq> [] \<Longrightarrow> occurs_at p h i \<longleftrightarrow>
     i + length p \<le> length h \<and> (\<forall>k<length p. h ! (i + k) = p ! k)"
proof -
  assume "p \<noteq> []"
  have "occurs_at p h i \<longleftrightarrow> i \<le> length h \<and> take (length p) (drop i h) = p"
    by (simp add: occurs_at_def take_eq_prefix)
  also have "\<dots> \<longleftrightarrow> i + length p \<le> length h \<and> (\<forall>k<length p. h ! (i + k) = p ! k)"
  proof (cases "i + length p \<le> length h")
    case True
    then show ?thesis by (auto simp: list_eq_iff_nth_eq)
  next
    case False
    then have "length (take (length p) (drop i h)) \<noteq> length p \<or> length h < i"
      using \<open>p \<noteq> []\<close> by auto
    with False show ?thesis by auto
  qed
  finally show ?thesis .
qed

lemma occurs_at_take:
  "n \<le> length h \<Longrightarrow> p \<noteq> [] \<Longrightarrow> occurs_at p (take n h) i \<longleftrightarrow> occurs_at p h i \<and> i + length p \<le> n"
  by (auto simp: occurs_at_nth)

subsection \<open>The matcher and its construction\<close>

text \<open>\<open>bm_pattern\<close> is the memory the pattern pointer points to, its NUL included.\<close>

record boyermoore_s =
  bm_pattern :: "byte list"
  bm_len :: nat
  bm_bad_match :: "nat list"

definition TABLE_SIZE :: nat where "TABLE_SIZE = 256"

definition char_index :: "byte \<Rightarrow> nat" where
  "char_index c = nat (sint c AND 0xFF)"

function bm_fill :: "byte list \<Rightarrow> nat \<Rightarrow> nat \<Rightarrow> nat list \<Rightarrow> nat list res" where
  "bm_fill pat n i tab =
     (if i < size_sub n 1
      then and_then (c_read pat (int i)) (\<lambda>c.
        bm_fill pat n (Suc i) (tab[char_index c := size_sub (size_sub n i) 1]))
      else Inr tab)"
  by pat_completeness auto
termination
  by (relation "measure (\<lambda>(pat, n, i, tab). size_sub n 1 - i)") auto

declare bm_fill.simps [simp del]

definition boyermoore_init :: "byte list \<Rightarrow> boyermoore_s res" where
  "boyermoore_init pat =
     and_then (c_strlen pat) (\<lambda>n.
     and_then (bm_fill pat n 0 (replicate TABLE_SIZE n)) (\<lambda>tab.
       Inr \<lparr>bm_pattern = pat, bm_len = n, bm_bad_match = tab\<rparr>))"

subsection \<open>The search\<close>

text \<open>The inner loop compares backwards from \<open>j\<close>; it ends with \<open>j = -1\<close> on a match.\<close>

function bm_compare :: "byte list \<Rightarrow> byte list \<Rightarrow> int \<Rightarrow> int \<Rightarrow> (int \<times> int) res" where
  "bm_compare pat hay j k =
     (if 0 \<le> j
      then and_then (c_read hay k) (\<lambda>h.
           and_then (c_read pat j) (\<lambda>c.
             if h = c then bm_compare pat hay (j - 1) (k - 1) else Inr (j, k)))
      else Inr (j, k))"
  by pat_completeness auto
termination
  by (relation "measure (\<lambda>(pat, hay, j, k). nat (j + 1))") auto

declare bm_compare.simps [simp del]

text \<open>
  The outer loop moves the window by the table's entry for its last character; a table entry
  of 0 would never move it, so the loop spends fuel.
\<close>

fun bm_scan :: "nat \<Rightarrow> boyermoore_s \<Rightarrow> byte list \<Rightarrow> int \<Rightarrow> int \<Rightarrow> int option res" where
  "bm_scan 0 needle hay n i = Inl OutOfFuel"
| "bm_scan (Suc fuel) needle hay n i =
     (if i < n
      then and_then (bm_compare (bm_pattern needle) hay
             (size_to_int (size_sub (bm_len needle) 1)) i) (\<lambda>(j, k).
        if j = -1 then Inr (Some (k + 1))
        else and_then (c_read hay i) (\<lambda>c.
          bm_scan fuel needle hay n
            (size_to_int (size_add (int_to_size i) (bm_bad_match needle ! char_index c)))))
      else Inr None)"

definition boyermoore_search :: "boyermoore_s \<Rightarrow> byte list \<Rightarrow> int \<Rightarrow> int option res" where
  "boyermoore_search needle hay n =
     (if int_to_size n < bm_len needle then Inr None
      else bm_scan (nat n + 1) needle hay n (size_to_int (size_sub (bm_len needle) 1)))"

subsection \<open>The bad-character table\<close>

lemma char_index_unat: "char_index c = unat c"
proof -
  have "sint c AND 0xFF = take_bit 8 (sint c)" by (simp add: take_bit_eq_mask mask_eq_exp_minus_1)
  also have "\<dots> = uint c" 
    by (simp add: sint_uint take_bit_signed_take_bit bintr_uint)
  finally show ?thesis by (simp add: char_index_def)
qed

lemma char_index_less [simp]: "char_index c < 256"
  using unsigned_less[of c] by (simp add: char_index_unat)

lemma char_index_inj [simp]: "char_index c = char_index d \<longleftrightarrow> c = d"
  by (simp add: char_index_unat word_unat_eq_iff)

text \<open>
  \<open>table_ok p m tab\<close>: every shift is between 1 and the pattern's length, and the shift for
  \<open>c\<close> jumps over no position among the first \<open>m\<close> where the pattern has \<open>c\<close>.
\<close>

definition table_ok :: "byte list \<Rightarrow> nat \<Rightarrow> nat list \<Rightarrow> bool" where
  "table_ok p m tab \<longleftrightarrow> length tab = 256 \<and>
     (\<forall>c. 1 \<le> tab ! char_index c \<and> tab ! char_index c \<le> length p \<and>
          (\<forall>k<m. length p - 1 - k < tab ! char_index c \<longrightarrow> p ! k \<noteq> c))"

lemma bm_fill_ok:
  assumes "table_ok p i tab" and "p \<noteq> []" and "length p < 2 ^ 31" and "i \<le> length p - 1"
  shows "\<exists>tab'. bm_fill (p @ rest) (length p) i tab = Inr tab' \<and> table_ok p (length p - 1) tab'"
  using assms
proof (induction "length p - 1 - i" arbitrary: i tab)
  case 0
  then have i: "i = length p - 1" by simp
  have "bm_fill (p @ rest) (length p) i tab = Inr tab"
    using 0 i by (subst bm_fill.simps) (simp add: size_sub_in Suc_le_eq)
  with 0 i show ?case by simp
next
  case (Suc d)
  have i: "i < length p - 1" using Suc.hyps(2) by simp
  let ?tab = "tab[char_index (p ! i) := length p - 1 - i]"
  have "table_ok p (Suc i) ?tab"
    using Suc.prems(1) i by (auto simp: table_ok_def nth_list_update less_Suc_eq)
  with Suc.hyps(1)[of "Suc i" ?tab] Suc.hyps(2) Suc.prems i
  have "\<exists>tab'. bm_fill (p @ rest) (length p) (Suc i) ?tab = Inr tab' \<and> table_ok p (length p - 1) tab'"
    by simp
  then show ?case
    using i Suc.prems less_trans[OF i, of "length p"]
    by (subst bm_fill.simps) (simp add: c_simps nth_append Suc_le_eq)
qed

text \<open>\<open>matcher_for p m\<close>: what the search relies on in a matcher for the pattern \<open>p\<close>.\<close>

definition matcher_for :: "byte list \<Rightarrow> boyermoore_s \<Rightarrow> bool" where
  "matcher_for p m \<longleftrightarrow> p \<noteq> [] \<and> length p < 2 ^ 31 \<and> prefix p (bm_pattern m) \<and>
     bm_len m = length p \<and> table_ok p (length p - 1) (bm_bad_match m)"

lemma boyermoore_init_matcher:
  assumes "p \<noteq> []" and "0 \<notin> set p" and "length p < 2 ^ 31"
  shows "\<exists>m. boyermoore_init (p @ 0 # rest) = Inr m \<and> matcher_for p m"
proof -
  have "table_ok p 0 (replicate TABLE_SIZE (length p))"
    using assms(1) by (auto simp: table_ok_def TABLE_SIZE_def Suc_le_eq)
  from bm_fill_ok[OF this assms(1,3), of "0 # rest"] obtain tab where
    "bm_fill (p @ 0 # rest) (length p) 0 (replicate TABLE_SIZE (length p)) = Inr tab"
    "table_ok p (length p - 1) tab" by auto
  then show ?thesis
    using assms by (auto simp: boyermoore_init_def c_strlen_append matcher_for_def)
qed

subsection \<open>Correctness of the search\<close>

lemma bm_compare_spec:
  assumes "- 1 \<le> j" and "j < int (length p)" and "prefix p pat" and "j \<le> k"
    and "k < int (length hay)"
  shows "\<exists>j'. bm_compare pat hay j k = Inr (j', k - (j - j')) \<and> - 1 \<le> j' \<and> j' \<le> j \<and>
     (\<forall>t. j' < t \<and> t \<le> j \<longrightarrow> hay ! nat (k - (j - t)) = p ! nat t) \<and>
     (0 \<le> j' \<longrightarrow> hay ! nat (k - (j - j')) \<noteq> p ! nat j')"
  using assms
proof (induction "nat (j + 1)" arbitrary: j k)
  case 0
  then have "j = - 1" by simp
  then show ?case by (intro exI[of _ j]) (auto simp: bm_compare.simps[of pat hay "- 1" k])
next
  case (Suc d)
  from Suc.hyps(2) have j: "0 \<le> j" and d: "d = nat (j - 1 + 1)" by simp_all
  have pat: "c_read pat j = Inr (p ! nat j)"
    using Suc.prems j by (auto simp: c_read_def prefix_def nth_append)
  have hay: "c_read hay k = Inr (hay ! nat k)"
    using Suc.prems j by (simp add: c_read_def)
  show ?case
  proof (cases "hay ! nat k = p ! nat j")
    case False
    with j pat hay have "bm_compare pat hay j k = Inr (j, k - (j - j))"
      by (subst bm_compare.simps) simp
    with False j show ?thesis by (intro exI[of _ j]) auto
  next
    case True
    with j pat hay have step: "bm_compare pat hay j k = bm_compare pat hay (j - 1) (k - 1)"
      by (subst bm_compare.simps) simp
    obtain j' where j': "bm_compare pat hay (j - 1) (k - 1) = Inr (j', k - 1 - (j - 1 - j'))"
        "- 1 \<le> j'" "j' \<le> j - 1"
        "\<forall>t. j' < t \<and> t \<le> j - 1 \<longrightarrow> hay ! nat (k - 1 - (j - 1 - t)) = p ! nat t"
        "0 \<le> j' \<longrightarrow> hay ! nat (k - 1 - (j - 1 - j')) \<noteq> p ! nat j'"
      using Suc.hyps(1)[of "j - 1" "k - 1"] d Suc.prems j by auto
    have "hay ! nat (k - (j - t)) = p ! nat t" if "j' < t" "t \<le> j" for t
    proof (cases "t = j")
      case True
      then show ?thesis using \<open>hay ! nat k = p ! nat j\<close> by simp
    next
      case False
      with that j'(4)[rule_format, of t] show ?thesis by (simp add: algebra_simps)
    qed
    with j' step show ?thesis by (intro exI[of _ j']) (simp add: algebra_simps)
  qed
qed

text \<open>A window whose comparison fails, and the windows its shift jumps over, hold no match.\<close>

lemma shift_skips:
  assumes tab: "table_ok p (length p - 1) tab" and p: "p \<noteq> []"
    and w: "w + length p \<le> length hay" and no: "\<not> occurs_at p hay w"
    and k: "k < tab ! char_index (hay ! (w + length p - 1))"
  shows "\<not> occurs_at p hay (w + k)"
proof (cases "k = 0")
  case True
  with no show ?thesis by simp
next
  case False
  let ?c = "hay ! (w + length p - 1)" and ?q = "length p - 1 - k"
  have kl: "k < length p" using tab k less_le_trans by (auto simp: table_ok_def)
  then have q: "?q < length p - 1" "length p - 1 - ?q = k" using False by auto
  with tab k have "p ! ?q \<noteq> ?c" by (auto simp: table_ok_def)
  moreover have "w + k + ?q = w + length p - 1" using kl False by simp
  ultimately have "hay ! (w + k + ?q) \<noteq> p ! ?q" by metis
  moreover have "?q < length p" using q(1) by simp
  ultimately have "\<exists>q<length p. hay ! (w + k + q) \<noteq> p ! q" by blast
  with p show ?thesis by (auto simp: occurs_at_nth)
qed

lemma bm_scan_correct:
  assumes m: "matcher_for p m" and n: "0 \<le> n" "n \<le> int (length hay)" "n + int (length p) < 2 ^ 31"
    and i: "i = int (w + length p) - 1" and fuel: "n - i < int fuel" "0 < fuel"
    and none: "\<forall>k<w. \<not> occurs_at p (take (nat n) hay) k" and w: "int w \<le> n"
  shows "bm_scan fuel m hay n i = Inr (map_option int (first_occ p (take (nat n) hay)))"
  using i fuel none w
proof (induction fuel arbitrary: i w)
  case 0
  then show ?case by simp
next
  case (Suc fuel)
  note i = Suc.prems(1)
  from m have p: "p \<noteq> []" "length p < 2 ^ 31" "prefix p (bm_pattern m)" "bm_len m = length p"
    and tab: "table_ok p (length p - 1) (bm_bad_match m)" by (auto simp: matcher_for_def)
  from p(1) have lp: "1 \<le> length p" by (simp add: Suc_le_eq)
  let ?h = "take (nat n) hay"
  show ?case
  proof (cases "i < n")
    case False
    have "\<not> occurs_at p ?h k" for k
      using Suc.prems(4) False i n p(1) by (cases "k < w") (auto simp: occurs_at_nth)
    then have "first_occ p ?h = None" by (simp add: first_occ_None)
    with False show ?thesis by simp
  next
    case True
    have wn: "w + length p \<le> nat n" using True i by linarith
    have start: "size_to_int (size_sub (bm_len m) 1) = int (length p) - 1"
      using p lp by (simp add: size_sub_in size_to_int_in of_nat_diff)
    have hay_nth: "?h ! x = hay ! x" if "x < nat n" for x using that by simp
    obtain j where cmp: "bm_compare (bm_pattern m) hay (int (length p) - 1) i =
          Inr (j, i - (int (length p) - 1 - j))"
        and j: "- 1 \<le> j" "j \<le> int (length p) - 1"
        and eq: "\<forall>t. j < t \<and> t \<le> int (length p) - 1 \<longrightarrow>
              hay ! nat (i - (int (length p) - 1 - t)) = p ! nat t"
        and neq: "0 \<le> j \<longrightarrow> hay ! nat (i - (int (length p) - 1 - j)) \<noteq> p ! nat j"
      using bm_compare_spec[of "int (length p) - 1" p "bm_pattern m" i hay] p i True n lp
      by auto
    show ?thesis
    proof (cases "j = - 1")
      case True
      have "hay ! (w + k) = p ! k" if "k < length p" for k
      proof -
        have "nat (i - (int (length p) - 1 - int k)) = w + k" using i by simp
        with eq[rule_format, of "int k"] True that show ?thesis by simp
      qed
      then have "occurs_at p ?h w" using p(1) wn n by (auto simp: occurs_at_nth)
      with Suc.prems(4) have "first_occ p ?h = Some w" by (simp add: first_occ_Some)
      with True \<open>i < n\<close> cmp start i show ?thesis by simp
    next
      case False
      have "hay ! (w + nat j) \<noteq> p ! nat j"
      proof -
        have "nat (i - (int (length p) - 1 - j)) = w + nat j" using i False j by simp
        with neq False j show ?thesis by simp
      qed
      moreover have "w + nat j < nat n" "nat j < length p" using wn j False by linarith+
      ultimately have no: "\<not> occurs_at p ?h w" using p(1) by (auto simp: occurs_at_nth)
      let ?c = "hay ! nat i" and ?s = "bm_bad_match m ! char_index (hay ! nat i)"
      have ni: "nat i = w + length p - 1" using i lp by simp
      have s: "1 \<le> ?s" "?s \<le> length p" using tab by (auto simp: table_ok_def)
      have c: "?h ! (w + length p - 1) = ?c" using ni wn lp by simp
      have "\<not> occurs_at p ?h k" if "k < w + ?s" for k
      proof (cases "k < w")
        case True
        with Suc.prems(4) show ?thesis by blast
      next
        case False
        with that have "k - w < ?s" "w + (k - w) = k" by auto
        with shift_skips[OF tab p(1) _ no, of "k - w"] wn n c show ?thesis by simp
      qed
      moreover have "int (w + ?s) \<le> n" using wn s by linarith
      moreover have "i + int ?s = int (w + ?s + length p) - 1" using i by simp
      moreover have "n - (i + int ?s) < int fuel" "0 < fuel" using Suc.prems(2) True s by linarith+
      ultimately have "bm_scan fuel m hay n (i + int ?s) = Inr (map_option int (first_occ p ?h))"
        using Suc.IH[of "i + int ?s" "w + ?s"] by blast
      moreover have "size_to_int (size_add (int_to_size i) ?s) = i + int ?s"
        using i True n(3) s lp by (simp add: int_to_size_in size_to_int_in size_add_in)
      moreover have "c_read hay i = Inr ?c" using i True n lp by (simp add: c_read_in)
      ultimately show ?thesis using \<open>i < n\<close> False cmp start by simp
    qed
  qed
qed

lemma boyermoore_search_correct:
  assumes m: "matcher_for p m" and n: "0 \<le> n" "n \<le> int (length hay)" "n + int (length p) < 2 ^ 31"
  shows "boyermoore_search m hay n = Inr (map_option int (first_occ p (take (nat n) hay)))"
proof -
  from m have p: "p \<noteq> []" "length p < 2 ^ 31" "bm_len m = length p"
    by (auto simp: matcher_for_def)
  then have lp: "1 \<le> length p" by (simp add: Suc_le_eq)
  have size: "int_to_size n = nat n" using n by (intro int_to_size_in) auto
  show ?thesis
  proof (cases "nat n < length p")
    case True
    then have "first_occ p (take (nat n) hay) = None"
      using p(1) by (auto simp: first_occ_None occurs_at_nth)
    with True size p show ?thesis by (simp add: boyermoore_search_def)
  next
    case False
    have start: "size_to_int (size_sub (bm_len m) 1) = int (0 + length p) - 1"
      using p lp by (simp add: size_sub_in size_to_int_in of_nat_diff)
    have "bm_scan (nat n + 1) m hay n (int (0 + length p) - 1) =
        Inr (map_option int (first_occ p (take (nat n) hay)))"
      by (rule bm_scan_correct[OF m n refl]) (use n lp in auto)
    with False size p(3) start show ?thesis by (simp add: boyermoore_search_def)
  qed
qed

subsection \<open>The interface of a substring search\<close>

text \<open>
  What the FIX extractor relies on: within the given length the search returns the least
  position of the pattern, or none. The bound on the length is far above the largest IP packet.
\<close>

locale substring_search =
  fixes pat :: "byte list"
    and find :: "byte list \<Rightarrow> int \<Rightarrow> int option res"
  assumes pat_nonempty: "pat \<noteq> []"
    and find_first: "0 \<le> n \<Longrightarrow> n \<le> int (length hay) \<Longrightarrow> n < 2 ^ 30 \<Longrightarrow>
      find hay n = Inr (map_option int (first_occ pat (take (nat n) hay)))"
begin

lemma find_total:
  "0 \<le> n \<Longrightarrow> n \<le> int (length hay) \<Longrightarrow> n < 2 ^ 30 \<Longrightarrow> \<exists>r. find hay n = Inr r"
  by (simp add: find_first)

lemma find_bounds:
  assumes "0 \<le> n" "n \<le> int (length hay)" "n < 2 ^ 30" and "find hay n = Inr (Some i)"
  shows "0 \<le> i \<and> i + int (length pat) \<le> n \<and> occurs_at pat hay (nat i)"
proof -
  from assms obtain k where k: "first_occ pat (take (nat n) hay) = Some k" "i = int k"
    by (auto simp: find_first)
  then have "occurs_at pat (take (nat n) hay) k" by (simp add: first_occ_Some)
  with k(2) assms(1,2) show ?thesis
    using pat_nonempty by (auto simp: occurs_at_nth)
qed

lemma find_here:
  "prefix pat hay \<Longrightarrow> int (length pat) \<le> n \<Longrightarrow> n \<le> int (length hay) \<Longrightarrow> n < 2 ^ 30 \<Longrightarrow>
     find hay n = Inr (Some 0)"
  using pat_nonempty occurs_at_take[of "nat n" hay pat 0]
  by (auto simp: find_first first_occ_Some le_nat_iff)

lemma find_absent:
  "0 \<le> n \<Longrightarrow> n \<le> int (length hay) \<Longrightarrow> n < 2 ^ 30 \<Longrightarrow>
     (\<And>k. k + length pat \<le> nat n \<Longrightarrow> \<not> occurs_at pat hay k) \<Longrightarrow> find hay n = Inr None"
  using pat_nonempty occurs_at_take[of "nat n" hay pat]
  by (auto simp: find_first first_occ_None)

lemma find_at:
  "int (k + length pat) \<le> n \<Longrightarrow> n \<le> int (length hay) \<Longrightarrow> n < 2 ^ 30 \<Longrightarrow>
     occurs_at pat hay k \<Longrightarrow> (\<And>l. l < k \<Longrightarrow> \<not> occurs_at pat hay l) \<Longrightarrow>
     find hay n = Inr (Some (int k))"
  using pat_nonempty occurs_at_take[of "nat n" hay pat]
  by (auto simp: find_first first_occ_Some le_nat_iff)

end

text \<open>
  The capture thread's matcher, \<^verbatim>\<open>boyermoore_init ("8=FIX.4.", &matcher)\<close> in
  \<^verbatim>\<open>src/packet.c\<close>.
\<close>

definition FIX_PATTERN :: "byte list" where
  "FIX_PATTERN = bytes_of ''8=FIX.4.''"

definition fix_matcher :: boyermoore_s where
  "fix_matcher =
     (case boyermoore_init (FIX_PATTERN @ [0]) of
        Inr m \<Rightarrow> m
      | Inl _ \<Rightarrow> \<lparr>bm_pattern = [], bm_len = 0, bm_bad_match = []\<rparr>)"

lemma FIX_PATTERN_bytes: "FIX_PATTERN = [56, 61, 70, 73, 88, 46, 52, 46]"
  by (simp add: FIX_PATTERN_def bytes_of_def of_char_def)

lemma length_FIX_PATTERN [simp]: "length FIX_PATTERN = 8"
  by (simp add: FIX_PATTERN_def)

lemma fix_matcher: "matcher_for FIX_PATTERN fix_matcher"
proof -
  obtain m where "boyermoore_init (FIX_PATTERN @ 0 # []) = Inr m" "matcher_for FIX_PATTERN m"
    using boyermoore_init_matcher[of FIX_PATTERN "[]"] by (auto simp: FIX_PATTERN_bytes)
  then show ?thesis by (simp add: fix_matcher_def)
qed

lemma fix_matcher_len [simp]: "bm_len fix_matcher = 8"
  using fix_matcher by (simp add: matcher_for_def)

interpretation bm: substring_search FIX_PATTERN "boyermoore_search fix_matcher"
  by unfold_locales
     (simp_all add: FIX_PATTERN_bytes boyermoore_search_correct[OF fix_matcher, unfolded FIX_PATTERN_bytes])

subsection \<open>Properties\<close>

text \<open>
  C1: for every non-empty pattern without NUL, a matcher built by \<open>boyermoore_init\<close> makes
  \<open>boyermoore_search\<close> return the least position of the pattern within the first \<open>n\<close>
  bytes, or NULL when there is none. It returns for every such input (no fuel is missing) and
  reads neither outside the haystack nor outside the pattern.
\<close>

theorem boyermoore_finds_first:
  assumes "p \<noteq> []" and "0 \<notin> set p" and "length p < 2 ^ 31"
    and "boyermoore_init (p @ 0 # rest) = Inr m"
    and "0 \<le> n" and "n \<le> int (length hay)" and "n + int (length p) < 2 ^ 31"
  shows "boyermoore_search m hay n = Inr (map_option int (first_occ p (take (nat n) hay)))"
  using boyermoore_init_matcher[OF assms(1-3), of rest] assms(4-)
  by (auto intro: boyermoore_search_correct)

theorem boyermoore_finds_first_witness:
  "\<exists>m. boyermoore_init [97, 98, 0] = Inr m \<and>
       boyermoore_search m [97, 97, 98, 97, 98] 5 = Inr (Some 1)"
proof -
  obtain m where m: "boyermoore_init ([97, 98] @ 0 # []) = Inr m"
    using boyermoore_init_matcher[of "[97, 98]" "[]"] by auto
  with boyermoore_finds_first[of "[97, 98]" "[]" m 5 "[97, 97, 98, 97, 98]"] show ?thesis by simp
qed

end
