(* ===== verification/Fix_Parser.thy ===== *)
theory Fix_Parser
  imports Vmars_Prelude
begin

text \<open>
  The FIX message parser of \<^verbatim>\<open>src/fixparser.c\<close> and \<^verbatim>\<open>src/fixparser.h\<close>: the
  checksum over eight bytes at a time, the BodyLength and tag loops, the field loop with its
  callbacks. The specification is the grammar of a message: \<open>field_bytes\<close> and
  \<open>message_bytes\<close>.
\<close>

subsection \<open>Constants and results\<close>

definition FIX_EMESSAGETOOSHORT :: int where "FIX_EMESSAGETOOSHORT = -1"
definition FIX_ECHECKSUMINVALID :: int where "FIX_ECHECKSUMINVALID = -2"
definition FIX_ETAGINVALID :: int where "FIX_ETAGINVALID = -3"
definition FIX_EEMPTYVALUE :: int where "FIX_EEMPTYVALUE = -4"
definition FIX_EINVALIDTYPE :: int where "FIX_EINVALIDTYPE = -5"

definition FIX_OPT_SKIP_VERIFY_CHECKSUM :: int where
  "FIX_OPT_SKIP_VERIFY_CHECKSUM = 1"
definition FIX_OPT_REPORT_CALCULATED_CHECKSUM_FOR_TAG_10 :: int where
  "FIX_OPT_REPORT_CALCULATED_CHECKSUM_FOR_TAG_10 = 2"

lemmas fix_codes = FIX_EMESSAGETOOSHORT_def FIX_ECHECKSUMINVALID_def FIX_ETAGINVALID_def
  FIX_EEMPTYVALUE_def FIX_EINVALIDTYPE_def

definition INITIAL_HEADER_42 :: "byte list" where
  "INITIAL_HEADER_42 = bytes_of ''8=FIX.4.2'' @ SOH # bytes_of ''9=''"
definition INITIAL_HEADER_44 :: "byte list" where
  "INITIAL_HEADER_44 = bytes_of ''8=FIX.4.4'' @ SOH # bytes_of ''9=''"

definition INITIAL_HEADER_LEN :: int where "INITIAL_HEADER_LEN = 12"
definition CHECK_SUM_LEN :: int where "CHECK_SUM_LEN = 7"

record vmars_fix_parse_result =
  pr_result :: int
  pr_bytes_consumed :: int

text \<open>What a loop body does next: leave the function with a result, or go on with its state.\<close>

datatype 'a flow = Early vmars_fix_parse_result | Go 'a

subsection \<open>The checksum\<close>

text \<open>\<open>_m_psadbw\<close>: the sum of the absolute differences of the eight unsigned bytes.\<close>

definition m_psadbw :: "byte list \<Rightarrow> byte list \<Rightarrow> int" where
  "m_psadbw a b = (\<Sum>(x, y) \<leftarrow> zip a b. \<bar>uint x - uint y\<bar>)"

definition c_read_m64 :: "byte list \<Rightarrow> int \<Rightarrow> byte list res" where
  "c_read_m64 buf pos =
     (if 0 \<le> pos \<and> pos + 8 \<le> int (length buf) then Inr (take 8 (drop (nat pos) buf))
      else Inl OutOfBounds)"

fun checksum_words :: "byte list \<Rightarrow> nat \<Rightarrow> int \<Rightarrow> int \<Rightarrow> int res" where
  "checksum_words buf 0 pos sum_acc = Inr sum_acc"
| "checksum_words buf (Suc ii) pos sum_acc =
     and_then (c_read_m64 buf pos) (\<lambda>v.
       checksum_words buf ii (pos + 8) (sum_acc + (m_psadbw v (replicate 8 0) AND 0xFFFF)))"

function checksum_tail :: "byte list \<Rightarrow> int \<Rightarrow> int \<Rightarrow> int \<Rightarrow> int res" where
  "checksum_tail buf ii buf_len sum_acc =
     (if ii < buf_len
      then and_then (c_read buf ii) (\<lambda>c. checksum_tail buf (ii + 1) buf_len (sum_acc + sint c))
      else Inr sum_acc)"
  by pat_completeness auto
termination
  by (relation "measure (\<lambda>(buf, ii, buf_len, sum_acc). nat (buf_len - ii))") auto

declare checksum_tail.simps [simp del]

text \<open>
  The sum is a 64-bit \<open>long\<close>; at most \<open>2 ^ 31\<close> bytes of at most 255 are added, so it
  cannot overflow and is an unbounded integer here.
\<close>

definition calculate_checksum :: "byte list \<Rightarrow> int \<Rightarrow> int res" where
  "calculate_checksum buf buf_len =
     (let extra = buf_len AND 0x07 in
      and_then (checksum_words buf (nat (drop_bit 3 buf_len)) 0 0) (\<lambda>sum_acc.
      and_then (checksum_tail buf (buf_len - extra) buf_len sum_acc) (\<lambda>sum_acc.
        Inr (sum_acc AND 0xFF))))"

definition supplied_checksum :: "byte list \<Rightarrow> int res" where
  "supplied_checksum expected =
     and_then (c_read expected 0) (\<lambda>a.
     and_then (c_read expected 1) (\<lambda>b.
     and_then (c_read expected 2) (\<lambda>c.
       Inr ((sint a - 48) * 100 + (sint b - 48) * 10 + (sint c - 48)))))"

definition validate_checksum :: "byte list \<Rightarrow> int \<Rightarrow> byte list \<Rightarrow> int res" where
  "validate_checksum buf buf_len expected =
     and_then (calculate_checksum buf buf_len) (\<lambda>calculated.
     and_then (supplied_checksum expected) (\<lambda>compare.
       Inr (calculated - compare)))"

definition opt_validate_checksum :: "int \<Rightarrow> bool" where
  "opt_validate_checksum options \<longleftrightarrow> options AND FIX_OPT_SKIP_VERIFY_CHECKSUM = 0"

definition opt_report_calculated_checksum :: "int \<Rightarrow> bool" where
  "opt_report_calculated_checksum options \<longleftrightarrow>
     options AND FIX_OPT_REPORT_CALCULATED_CHECKSUM_FOR_TAG_10 \<noteq> 0"

subsection \<open>The loops of the parser\<close>

text \<open>
  The BodyLength loop and the tag loop have the same body but for the byte that ends the
  number: digits are accumulated in an \<open>int\<close>, any other byte is an invalid tag.
\<close>

function number_loop :: "byte \<Rightarrow> byte list \<Rightarrow> int \<Rightarrow> int \<Rightarrow> int \<Rightarrow> (int \<times> int) flow res" where
  "number_loop delim buf len position acc =
     (if position < len
      then and_then (c_read buf position) (\<lambda>c.
        if is_digit c
        then and_then (c_int (acc * 10)) (\<lambda>m.
             and_then (c_int (m + (sint c - 48))) (\<lambda>acc'.
               number_loop delim buf len (position + 1) acc'))
        else if c = delim then Inr (Go (position + 1, acc))
        else Inr (Early \<lparr>pr_result = FIX_ETAGINVALID, pr_bytes_consumed = len\<rparr>))
      else Inr (Go (position, acc)))"
  by pat_completeness auto
termination
  by (relation "measure (\<lambda>(delim, buf, len, position, acc). nat (len - position))") auto

declare number_loop.simps [simp del]

definition body_length_loop :: "byte list \<Rightarrow> int \<Rightarrow> int \<Rightarrow> int \<Rightarrow> (int \<times> int) flow res" where
  "body_length_loop = number_loop SOH"

definition tag_loop :: "byte list \<Rightarrow> int \<Rightarrow> int \<Rightarrow> int \<Rightarrow> (int \<times> int) flow res" where
  "tag_loop = number_loop EQ"

text \<open>The value loop returns the position after the SOH and that of the SOH, -1 if there is none.\<close>

function value_loop :: "byte list \<Rightarrow> int \<Rightarrow> int \<Rightarrow> (int \<times> int) res" where
  "value_loop buf len position =
     (if position < len
      then and_then (c_read buf position) (\<lambda>b.
        if b = SOH then Inr (position + 1, position) else value_loop buf len (position + 1))
      else Inr (position, -1))"
  by pat_completeness auto
termination
  by (relation "measure (\<lambda>(buf, len, position). nat (len - position))") auto

declare value_loop.simps [simp del]

lemma number_loop_mono:
  "number_loop delim buf len p acc = Inr (Go (p', acc')) \<Longrightarrow> p \<le> p'"
proof (induction delim buf len p acc arbitrary: acc' rule: number_loop.induct)
  case (1 delim buf len p acc)
  from "1.prems" show ?case
    by (subst (asm) number_loop.simps)
       (auto simp: and_then_eq_Inr split: if_splits dest: "1.IH")
qed

lemma value_loop_mono:
  "value_loop buf len p = Inr (p', e) \<Longrightarrow> e \<noteq> -1 \<Longrightarrow> p < p'"
proof (induction buf len p rule: value_loop.induct)
  case (1 buf len p)
  from "1.prems" show ?case
    by (subst (asm) value_loop.simps)
       (auto simp: and_then_eq_Inr split: if_splits dest: "1.IH")
qed

definition calculated_checksum_str :: "int \<Rightarrow> byte list" where
  "calculated_checksum_str c =
     [word_of_int (48 + c div 100), word_of_int (48 + (c div 10) mod 10),
      word_of_int (48 + c mod 10)]"

text \<open>
  The field loop. \<open>tagp\<close> is the tag callback: it takes its context, the tag, the pointer to
  the value and the value's length, and returns the new context.
\<close>

type_synonym 'c tag_callback = "'c \<Rightarrow> int \<Rightarrow> byte list \<Rightarrow> int \<Rightarrow> 'c res"

function fields_loop ::
    "byte list \<Rightarrow> int \<Rightarrow> int \<Rightarrow> int \<Rightarrow> 'c tag_callback \<Rightarrow> int \<Rightarrow> 'c \<Rightarrow>
     (vmars_fix_parse_result option \<times> 'c) res" where
  "fields_loop buf len options checksum tagp position ctx =
     and_then (tag_loop buf len position 0) (\<lambda>f.
       case f of
         Early r \<Rightarrow> Inr (Some r, ctx)
       | Go (value_start, tag) \<Rightarrow>
           and_then (value_loop buf len value_start) (\<lambda>(position', value_end).
             if value_end = -1
             then Inr (Some \<lparr>pr_result = FIX_EEMPTYVALUE, pr_bytes_consumed = len\<rparr>, ctx)
             else and_then
               (if opt_report_calculated_checksum options \<and> tag = 10
                then tagp ctx tag (calculated_checksum_str checksum) 3
                else and_then (c_offset buf value_start) (\<lambda>v.
                       tagp ctx tag v (value_end - value_start)))
               (\<lambda>ctx'. if position' < len
                 then fields_loop buf len options checksum tagp position' ctx'
                 else Inr (None, ctx'))))"
  by pat_completeness auto
termination
  by (relation "measure (\<lambda>(buf, len, options, checksum, tagp, position, ctx). nat (len - position))")
     (auto simp: tag_loop_def dest!: number_loop_mono value_loop_mono)

declare fields_loop.simps [simp del]

definition parse_result :: "int \<Rightarrow> int \<Rightarrow> 'c \<Rightarrow> (vmars_fix_parse_result \<times> 'c) res" where
  "parse_result code consumed ctx =
     Inr (\<lparr>pr_result = code, pr_bytes_consumed = consumed\<rparr>, ctx)"

definition vmars_fix_parse_msg ::
    "byte list \<Rightarrow> int \<Rightarrow> 'c \<Rightarrow> ('c \<Rightarrow> int \<Rightarrow> int \<Rightarrow> 'c) option \<Rightarrow> 'c tag_callback \<Rightarrow>
     ('c \<Rightarrow> 'c) option \<Rightarrow> int \<Rightarrow> (vmars_fix_parse_result \<times> 'c) res" where
  "vmars_fix_parse_msg buf len ctx startp tagp endp options =
     (if INITIAL_HEADER_LEN > len then parse_result FIX_EMESSAGETOOSHORT len ctx
      else
        and_then (c_strncmp_eq buf INITIAL_HEADER_42 (nat INITIAL_HEADER_LEN)) (\<lambda>is_42.
        and_then (c_strncmp_eq buf INITIAL_HEADER_44 (nat INITIAL_HEADER_LEN)) (\<lambda>is_44.
          let fix_type = (if is_44 then 44 else if is_42 then 42 else -1) in
          if fix_type = -1 then parse_result FIX_EINVALIDTYPE len ctx
          else
            and_then (body_length_loop buf len INITIAL_HEADER_LEN 0) (\<lambda>f.
              case f of
                Early r \<Rightarrow> Inr (r, ctx)
              | Go (position, msg_len) \<Rightarrow>
                  if 0 = msg_len \<or> msg_len > (len - position) - CHECK_SUM_LEN
                  then parse_result FIX_EMESSAGETOOSHORT len ctx
                  else
                    let len' = msg_len + position + CHECK_SUM_LEN in
                    and_then (calculate_checksum buf (msg_len + position)) (\<lambda>calculated.
                    and_then (c_offset buf (position + msg_len + 3)) (\<lambda>supplied.
                    and_then (supplied_checksum supplied) (\<lambda>checksum.
                      if opt_validate_checksum options \<and> calculated \<noteq> checksum
                      then parse_result FIX_ECHECKSUMINVALID len' ctx
                      else
                        let ctx1 = (case startp of None \<Rightarrow> ctx | Some f \<Rightarrow> f ctx msg_len fix_type) in
                        and_then (fields_loop buf len' options calculated tagp position ctx1)
                          (\<lambda>(r, ctx2).
                            case r of
                              Some e \<Rightarrow> Inr (e, ctx2)
                            | None \<Rightarrow> parse_result 0 len'
                                (case endp of None \<Rightarrow> ctx2 | Some f \<Rightarrow> f ctx2)))))))))"

subsection \<open>The checksum is the byte sum modulo 256\<close>

definition byte_sum :: "byte list \<Rightarrow> int" where
  "byte_sum bs = (\<Sum>b \<leftarrow> bs. uint b) mod 256"

lemma uint_byte_bounds: "0 \<le> uint (b::byte)" "uint (b::byte) \<le> 255"
  using unsigned_less[of b, where ?'a = int] by simp_all

lemma sum_uint_bounds:
  "0 \<le> (\<Sum>b \<leftarrow> bs. uint (b::byte)) \<and> (\<Sum>b \<leftarrow> bs. uint (b::byte)) \<le> 255 * int (length bs)"
proof (induction bs)
  case (Cons b bs)
  then show ?case using uint_byte_bounds[of b] by simp
qed simp

lemma m_psadbw_zero: "m_psadbw v (replicate (length v) 0) = (\<Sum>b \<leftarrow> v. uint b)"
  by (induction v) (auto simp: m_psadbw_def)

lemma checksum_words_sum:
  "0 \<le> pos \<Longrightarrow> pos + 8 * int k \<le> int (length buf) \<Longrightarrow>
     checksum_words buf k pos s = Inr (s + (\<Sum>b \<leftarrow> take (8 * k) (drop (nat pos) buf). uint b))"
proof (induction k arbitrary: pos s)
  case 0
  then show ?case by simp
next
  case (Suc k)
  let ?v = "take 8 (drop (nat pos) buf)"
  have len: "length ?v = 8" using Suc.prems by simp
  have "(\<Sum>b \<leftarrow> ?v. uint b) AND 0xFFFF = take_bit 16 (\<Sum>b \<leftarrow> ?v. uint b)"
    by (simp add: take_bit_eq_mask mask_eq_exp_minus_1)
  also have "\<dots> = (\<Sum>b \<leftarrow> ?v. uint b)"
    using sum_uint_bounds[of ?v] len by (simp add: take_bit_int_eq_self_iff)
  finally have lane: "m_psadbw ?v (replicate 8 0) AND 0xFFFF = (\<Sum>b \<leftarrow> ?v. uint b)"
    using m_psadbw_zero[of ?v] len by simp
  have "take (8 * Suc k) (drop (nat pos) buf) = ?v @ take (8 * k) (drop (nat (pos + 8)) buf)"
    using Suc.prems by (simp add: take_add nat_add_distrib add.commute)
  moreover have "c_read_m64 buf pos = Inr ?v" using Suc.prems by (simp add: c_read_m64_def)
  ultimately show ?case
    using Suc.IH[of "pos + 8" "s + (\<Sum>b \<leftarrow> ?v. uint b)"] Suc.prems lane
    by (simp add: algebra_simps)
qed

lemma checksum_tail_sum:
  "0 \<le> ii \<Longrightarrow> ii \<le> n \<Longrightarrow> n \<le> int (length buf) \<Longrightarrow>
     checksum_tail buf ii n s = Inr (s + (\<Sum>b \<leftarrow> take (nat (n - ii)) (drop (nat ii) buf). sint b))"
proof (induction "nat (n - ii)" arbitrary: ii s)
  case 0
  then show ?case by (subst checksum_tail.simps) simp
next
  case (Suc d)
  have "nat (n - ii) = Suc (nat (n - (ii + 1)))" "nat ii < length buf" "nat (ii + 1) = Suc (nat ii)"
    using Suc.hyps(2) Suc.prems by auto
  then have "take (nat (n - ii)) (drop (nat ii) buf) =
      buf ! nat ii # take (nat (n - (ii + 1))) (drop (nat (ii + 1)) buf)"
    by (metis Cons_nth_drop_Suc take_Suc_Cons)
  moreover have "c_read buf ii = Inr (buf ! nat ii)" "ii < n"
    using Suc.hyps(2) Suc.prems by (auto simp: c_read_def)
  moreover have "checksum_tail buf (ii + 1) n (s + sint (buf ! nat ii)) = Inr (s + sint (buf ! nat ii)
      + (\<Sum>b \<leftarrow> take (nat (n - (ii + 1))) (drop (nat (ii + 1)) buf). sint b))"
    using Suc.hyps Suc.prems by (intro Suc.hyps(1)) auto
  ultimately show ?case by (subst checksum_tail.simps) simp
qed

lemma sum_sint_mod: "(\<Sum>b \<leftarrow> bs. sint (b::byte)) mod 256 = (\<Sum>b \<leftarrow> bs. uint b) mod 256"
proof (induction bs)
  case (Cons b bs)
  have "sint b mod 256 = uint b mod 256" by (simp add: uint_sint take_bit_eq_mod)
  from mod_add_cong[OF this Cons] show ?case by simp
qed simp

lemma calculate_checksum_byte_sum:
  assumes "0 \<le> n" and "n \<le> int (length buf)"
  shows "calculate_checksum buf n = Inr (byte_sum (take (nat n) buf))"
proof -
  define k where "k = nat (n div 8)"
  have extra: "n AND 0x07 = n mod 8"
    using take_bit_eq_mask[of 3 n] by (simp add: mask_eq_exp_minus_1 take_bit_eq_mod)
  have k: "nat (drop_bit 3 n) = k" "8 * int k = n - n mod 8"
    using assms by (auto simp: k_def drop_bit_eq_div minus_mod_eq_mult_div)
  have words: "checksum_words buf k 0 0 = Inr (\<Sum>b \<leftarrow> take (8 * k) buf. uint b)"
    using checksum_words_sum[of 0 k buf 0] assms k by auto
  have tail: "checksum_tail buf (8 * int k) n s = Inr (s + (\<Sum>b \<leftarrow> take (nat n - 8 * k) (drop (8 * k) buf). sint b))" for s
  proof -
    have "nat (n - 8 * int k) = nat n - 8 * k" "nat (8 * int k) = 8 * k" by simp_all
    with checksum_tail_sum[of "8 * int k" n buf s] assms k show ?thesis by simp
  qed
  have split: "take (nat n) buf = take (8 * k) buf @ take (nat n - 8 * k) (drop (8 * k) buf)"
    using take_add[of "8 * k" "nat n - 8 * k" buf] assms k(2) by simp
  have "calculate_checksum buf n = Inr (((\<Sum>b \<leftarrow> take (8 * k) buf. uint b) +
      (\<Sum>b \<leftarrow> take (nat n - 8 * k) (drop (8 * k) buf). sint b)) AND 0xFF)"
    using words tail k extra by (simp add: calculate_checksum_def Let_def)
  also have "\<dots> = Inr (((\<Sum>b \<leftarrow> take (8 * k) buf. uint b) +
      (\<Sum>b \<leftarrow> take (nat n - 8 * k) (drop (8 * k) buf). sint b)) mod 256)"
    using take_bit_eq_mask[of 8, where ?'a = int] by (simp add: mask_eq_exp_minus_1 take_bit_eq_mod)
  also have "\<dots> = Inr (byte_sum (take (nat n) buf))"
    using mod_add_cong[OF refl sum_sint_mod, of "\<Sum>b \<leftarrow> take (8 * k) buf. uint b"
        "take (nat n - 8 * k) (drop (8 * k) buf)"]
    by (subst split) (simp add: byte_sum_def)
  finally show ?thesis .
qed

subsection \<open>Numbers\<close>

lemma nth_drop_prefix: "prefix (c # r) (drop (nat p) buf) \<Longrightarrow> nat p < length buf \<and> buf ! nat p = c"
  by (auto simp: prefix_def) (metis drop_eq_Nil list.distinct(1) not_le, metis nth_via_drop)

lemma prefix_drop_step: "0 \<le> p \<Longrightarrow> prefix (c # r) (drop (nat p) buf) \<Longrightarrow> prefix r (drop (nat (p + 1)) buf)"
  by (auto simp: prefix_def nat_add_distrib) (metis drop_Suc drop_drop list.sel(3) tl_drop)

lemma prefix_drop_append:
  "0 \<le> p \<Longrightarrow> prefix (a @ r) (drop (nat p) buf) \<Longrightarrow> prefix r (drop (nat (p + int (length a))) buf)"
  by (auto simp: prefix_def nat_add_distrib)
     (metis add.commute append.assoc append_eq_conv_conj drop_drop)

lemma c_read_prefix: "0 \<le> p \<Longrightarrow> prefix (c # r) (drop (nat p) buf) \<Longrightarrow> c_read buf p = Inr c"
  using nth_drop_prefix[of c r p buf] by (auto simp: c_read_def)

lemma number_loop_step:
  assumes "0 \<le> p" "p < len" "prefix (c # r) (drop (nat p) buf)" "is_digit c"
    and "0 \<le> acc" "acc * 10 + (sint c - 48) < 2 ^ 31"
  shows "number_loop d buf len p acc = number_loop d buf len (p + 1) (acc * 10 + (sint c - 48))"
  using assms sint_digit[of c] by (subst number_loop.simps) (simp add: c_read_prefix c_int_def)

lemma number_loop_digits:
  "all_digits ds \<Longrightarrow> 0 \<le> acc \<Longrightarrow> num_value acc ds < 2 ^ 31 \<Longrightarrow> 0 \<le> p \<Longrightarrow>
     p + int (length ds) \<le> len \<Longrightarrow> prefix ds (drop (nat p) buf) \<Longrightarrow>
     number_loop d buf len p acc = number_loop d buf len (p + int (length ds)) (num_value acc ds)"
proof (induction ds arbitrary: p acc)
  case (Cons c ds)
  let ?a = "acc * 10 + (sint c - 48)"
  have a: "0 \<le> ?a" using Cons.prems sint_digit[of c] by auto
  have "?a \<le> num_value ?a ds" using Cons.prems a by (intro num_value_mono) auto
  then have "number_loop d buf len p acc = number_loop d buf len (p + 1) ?a"
    using Cons.prems by (intro number_loop_step) auto
  also have "\<dots> = number_loop d buf len (p + 1 + int (length ds)) (num_value ?a ds)"
    using Cons.prems a prefix_drop_step[of p c ds buf] by (intro Cons.IH) auto
  finally show ?case by (simp add: algebra_simps)
qed simp

lemma number_loop_done:
  assumes "all_digits ds" "num_value 0 ds < 2 ^ 31" "0 \<le> p" "p + int (length ds) < len"
    and "prefix (ds @ [d]) (drop (nat p) buf)" "\<not> is_digit d"
  shows "number_loop d buf len p 0 = Inr (Go (p + int (length ds) + 1, num_value 0 ds))"
proof -
  have "number_loop d buf len p 0 = number_loop d buf len (p + int (length ds)) (num_value 0 ds)"
    using assms append_prefixD by (intro number_loop_digits) auto
  moreover have "c_read buf (p + int (length ds)) = Inr d"
    using prefix_drop_append[OF assms(3,5)] assms(3) by (intro c_read_prefix) auto
  ultimately show ?thesis using assms by (simp add: number_loop.simps[of d buf len "p + int (length ds)"])
qed

text \<open>A number of 2^31 or more is a signed overflow, whatever follows its digits.\<close>

lemma number_loop_overflow:
  "all_digits ds \<Longrightarrow> 0 \<le> acc \<Longrightarrow> acc < 2 ^ 31 \<Longrightarrow> 2 ^ 31 \<le> num_value acc ds \<Longrightarrow> 0 \<le> p \<Longrightarrow>
     p + int (length ds) \<le> len \<Longrightarrow> prefix ds (drop (nat p) buf) \<Longrightarrow>
     number_loop d buf len p acc = Inl SignedOverflow"
proof (induction ds arbitrary: p acc)
  case (Cons c ds)
  let ?a = "acc * 10 + (sint c - 48)"
  have a: "0 \<le> ?a" using Cons.prems sint_digit[of c] by auto
  show ?case
  proof (cases "?a < 2 ^ 31")
    case True
    then have "number_loop d buf len p acc = number_loop d buf len (p + 1) ?a"
      using Cons.prems by (intro number_loop_step) auto
    also have "\<dots> = Inl SignedOverflow"
      using Cons.prems a True prefix_drop_step[of p c ds buf] by (intro Cons.IH) auto
    finally show ?thesis .
  next
    case False
    then show ?thesis
      using Cons.prems sint_digit[of c] by (subst number_loop.simps) (auto simp: c_read_prefix c_int_def)
  qed
qed simp

text \<open>Conversely, what the loop read when it went on: digits, then the delimiter or the end.\<close>

lemma prefix_Cons_drop: "0 \<le> p \<Longrightarrow> nat p < length buf \<Longrightarrow> prefix ds (drop (nat (p + 1)) buf) \<Longrightarrow>
    prefix (buf ! nat p # ds) (drop (nat p) buf)"
  by (subst Cons_nth_drop_Suc[symmetric]) (simp_all add: nat_add_distrib)

lemma number_loop_GoE:
  assumes "number_loop d buf len p acc = Inr (Go (p', acc'))" and "0 \<le> p" "p \<le> len"
    and "len \<le> int (length buf)" and "0 \<le> acc" "acc < 2 ^ 31"
  shows "\<exists>ds. all_digits ds \<and> acc' = num_value acc ds \<and> 0 \<le> acc' \<and> acc' < 2 ^ 31 \<and>
     (prefix (ds @ [d]) (drop (nat p) buf) \<and> p' = p + int (length ds) + 1 \<and> p' \<le> len \<or>
      prefix ds (drop (nat p) buf) \<and> p' = p + int (length ds) \<and> p' = len)"
  using assms
proof (induction "nat (len - p)" arbitrary: p acc)
  case 0
  then show ?case by (subst (asm) number_loop.simps) (auto intro!: exI[of _ "[]"])
next
  case (Suc k)
  let ?c = "buf ! nat p" and ?a = "acc * 10 + (sint (buf ! nat p) - 48)"
  have k: "k = nat (len - (p + 1))" using Suc.hyps(2) by simp
  have p: "p < len" "c_read buf p = Inr ?c" "nat p < length buf"
    using Suc.hyps(2) Suc.prems by (auto simp: c_read_def)
  show ?case
  proof (cases "is_digit ?c")
    case True
    have go: "number_loop d buf len (p + 1) ?a = Inr (Go (p', acc'))" "?a < 2 ^ 31"
      using Suc.prems(1) p True sint_digit[OF True]
      by (auto simp: number_loop.simps[of d buf len p] c_int_def split: if_splits)
    have a: "0 \<le> ?a" using Suc.prems(5) sint_digit[OF True] by simp
    obtain ds where ds: "all_digits ds" "acc' = num_value ?a ds" "0 \<le> acc'" "acc' < 2 ^ 31"
      "prefix (ds @ [d]) (drop (nat (p + 1)) buf) \<and> p' = p + 1 + int (length ds) + 1 \<and> p' \<le> len \<or>
       prefix ds (drop (nat (p + 1)) buf) \<and> p' = p + 1 + int (length ds) \<and> p' = len"
      using Suc.hyps(1)[OF k go(1)] Suc.prems p go(2) a by auto
    with True p Suc.prems prefix_Cons_drop[of p buf ds] prefix_Cons_drop[of p buf "ds @ [d]"]
    show ?thesis by (intro exI[of _ "?c # ds"]) auto
  next
    case False
    with Suc.prems(1) p have "?c = d" "p' = p + 1" "acc' = acc"
      by (auto simp: number_loop.simps[of d buf len p] split: if_splits)
    with p Suc.prems prefix_Cons_drop[of p buf "[]"] show ?thesis
      by (intro exI[of _ "[]"]) auto
  qed
qed

lemma number_loop_Early: "number_loop d buf len p acc = Inr (Early r) \<Longrightarrow>
    r = \<lparr>pr_result = FIX_ETAGINVALID, pr_bytes_consumed = len\<rparr>"
proof (induction d buf len p acc rule: number_loop.induct)
  case (1 d buf len p acc)
  from "1.prems" show ?case
    by (subst (asm) number_loop.simps)
       (auto simp: and_then_eq_Inr split: if_splits dest: "1.IH")
qed

lemma number_loop_in_bounds:
  "0 \<le> p \<Longrightarrow> len \<le> int (length buf) \<Longrightarrow> in_bounds (number_loop d buf len p acc)"
proof (induction d buf len p acc rule: number_loop.induct)
  case (1 d buf len p acc)
  show ?case
  proof (cases "p < len")
    case True
    with "1.prems" have r: "c_read buf p = Inr (buf ! nat p)" by (simp add: c_read_def)
    show ?thesis
      using "1.IH"[OF True r] "1.prems" True
      by (subst number_loop.simps) (auto simp: r intro!: in_bounds_and_then)
  next
    case False
    then show ?thesis by (subst number_loop.simps) simp
  qed
qed

end
