(* ===== verification/Capture_Context.thy ===== *)
theory Capture_Context
  imports Boyer_Moore Fix_Parser Spsc_Ring
begin

text \<open>
  The state of a capture thread: the monitoring counters of \<^verbatim>\<open>src/counter_handler.h\<close>,
  the fragments and the stream identifiers of \<^verbatim>\<open>src/fix.c\<close> and the capture context of
  \<^verbatim>\<open>src/packet.h\<close>, with the operations on each.
\<close>

subsection \<open>Counters\<close>

record vmars_monitoring_counters =
  fd :: int
  invalid_checksums :: "64 word"
  corrupt_messages :: "64 word"
  valid_messages :: "64 word"
  parsing_errors :: "64 word"
  bytes_total :: "64 word"
  mass_quote_count :: "64 word"
  mass_quote_ack_count :: "64 word"
  new_order_single_count :: "64 word"
  execution_report_new_count :: "64 word"
  trace_request_count :: "64 word"
  trace_repsonse_count :: "64 word"

text \<open>\<open>memset (&counters, 0, sizeof (counters))\<close>.\<close>

definition counters_zero :: vmars_monitoring_counters where
  "counters_zero = \<lparr>fd = 0, invalid_checksums = 0, corrupt_messages = 0, valid_messages = 0,
     parsing_errors = 0, bytes_total = 0, mass_quote_count = 0, mass_quote_ack_count = 0,
     new_order_single_count = 0, execution_report_new_count = 0, trace_request_count = 0,
     trace_repsonse_count = 0\<rparr>"

definition atomic_release_increment :: "64 word \<Rightarrow> 64 word" where
  "atomic_release_increment v = v + 1"

subsection \<open>Message types\<close>

text \<open>\<open>INT_OF (x, y)\<close> and the message types of \<^verbatim>\<open>src/fixparser.h\<close>.\<close>

definition INT_OF :: "byte \<Rightarrow> byte \<Rightarrow> int" where
  "INT_OF x y = push_bit 8 (sint x) + sint y"

definition MSG_TYPE_NEW_ORDER_SINGLE :: int where "MSG_TYPE_NEW_ORDER_SINGLE = 68"
definition MSG_TYPE_EXECUTION_REPORT :: int where "MSG_TYPE_EXECUTION_REPORT = 56"
definition MSG_TYPE_MASS_QUOTE :: int where "MSG_TYPE_MASS_QUOTE = 105"
definition MSG_TYPE_MASS_QUOTE_ACK :: int where "MSG_TYPE_MASS_QUOTE_ACK = 98"
definition MSG_TYPE_TRACE_REQ :: int where "MSG_TYPE_TRACE_REQ = INT_OF 120 114"
definition MSG_TYPE_TRACE_RSP :: int where "MSG_TYPE_TRACE_RSP = INT_OF 120 115"

lemmas msg_types = MSG_TYPE_NEW_ORDER_SINGLE_def MSG_TYPE_EXECUTION_REPORT_def
  MSG_TYPE_MASS_QUOTE_def MSG_TYPE_MASS_QUOTE_ACK_def

lemma trace_types: "MSG_TYPE_TRACE_REQ = 30834" "MSG_TYPE_TRACE_RSP = 30835"
  by (simp_all add: MSG_TYPE_TRACE_REQ_def MSG_TYPE_TRACE_RSP_def INT_OF_def push_bit_eq_mult)

definition record_message_type_counter ::
    "vmars_monitoring_counters \<Rightarrow> int \<Rightarrow> vmars_monitoring_counters" where
  "record_message_type_counter c message_type =
     (if message_type = MSG_TYPE_NEW_ORDER_SINGLE
      then c\<lparr>new_order_single_count := atomic_release_increment (new_order_single_count c)\<rparr>
      else if message_type = MSG_TYPE_MASS_QUOTE
      then c\<lparr>mass_quote_count := atomic_release_increment (mass_quote_count c)\<rparr>
      else if message_type = MSG_TYPE_TRACE_REQ
      then c\<lparr>trace_request_count := atomic_release_increment (trace_request_count c)\<rparr>
      else if message_type = MSG_TYPE_EXECUTION_REPORT
      then c\<lparr>execution_report_new_count := atomic_release_increment (execution_report_new_count c)\<rparr>
      else if message_type = MSG_TYPE_MASS_QUOTE_ACK
      then c\<lparr>mass_quote_ack_count := atomic_release_increment (mass_quote_ack_count c)\<rparr>
      else if message_type = MSG_TYPE_TRACE_RSP
      then c\<lparr>trace_repsonse_count := atomic_release_increment (trace_repsonse_count c)\<rparr>
      else c)"

subsection \<open>Streams and fragments\<close>

record ipv4_stream =
  saddr :: "32 word"
  daddr :: "32 word"
  sport :: "16 word"
  dport :: "16 word"

definition ipv4_stream_hash :: "ipv4_stream \<Rightarrow> 32 word" where
  "ipv4_stream_hash s =
     (((saddr s * 31 + daddr s) * 31 + ucast (sport s)) * 31 + ucast (dport s))"

definition ipv4_stream_equal :: "ipv4_stream \<Rightarrow> ipv4_stream \<Rightarrow> bool" where
  "ipv4_stream_equal a b \<longleftrightarrow>
     saddr a = saddr b \<and> daddr a = daddr b \<and> sport a = sport b \<and> dport a = dport b"

lemma ipv4_stream_equal_iff [simp]: "ipv4_stream_equal a b \<longleftrightarrow> a = b"
  by (cases a; cases b) (simp add: ipv4_stream_equal_def)

text \<open>
  A fragment: its \<open>len\<close>, its \<open>capacity\<close> and the bytes of \<open>s\<close> that have been written;
  what \<open>malloc\<close> left behind them is not readable.
\<close>

record fragment =
  frag_len :: int
  frag_capacity :: int
  frag_s :: "byte list"

definition MAX_FRAGMENT_TOTAL_SIZE :: int where "MAX_FRAGMENT_TOTAL_SIZE = 4096"

definition FRAGMENT_CAPACITY :: int where "FRAGMENT_CAPACITY = MAX_FRAGMENT_TOTAL_SIZE - 8"

definition new_fragment :: fragment where
  "new_fragment = \<lparr>frag_len = 0, frag_capacity = FRAGMENT_CAPACITY, frag_s = []\<rparr>"

text \<open>\<open>strncpy (&fragment->s[offset], src, len)\<close>; the block has room for \<open>FRAGMENT_CAPACITY\<close> bytes.\<close>

definition fragment_store :: "fragment \<Rightarrow> int \<Rightarrow> byte list \<Rightarrow> nat \<Rightarrow> fragment res" where
  "fragment_store f offset src len =
     and_then (c_strncpy src len) (\<lambda>bs.
       if 0 \<le> offset \<and> offset \<le> int (length (frag_s f)) \<and> offset + int len \<le> FRAGMENT_CAPACITY
       then Inr (f\<lparr>frag_s := take (nat offset) (frag_s f) @ bs @ drop (nat offset + len) (frag_s f)\<rparr>)
       else Inl OutOfBounds)"

subsection \<open>The capture context\<close>

text \<open>
  The hash table of fragments behind \<open>state\<close> is a finite map from streams to fragments;
  \<open>None\<close> is the NULL pointer of a thread that never kept a fragment.
\<close>

record vmars_capture_context =
  ctx_port :: int
  ctx_matcher :: boyermoore_s
  ctx_rb :: vmars_spsc_rb
  ctx_counters :: vmars_monitoring_counters
  ctx_state :: "(ipv4_stream \<Rightarrow> fragment option) option"

definition get_fragment :: "vmars_capture_context \<Rightarrow> ipv4_stream \<Rightarrow> fragment option" where
  "get_fragment ctx stream_id =
     (case ctx_state ctx of None \<Rightarrow> None | Some fragment_map \<Rightarrow> fragment_map stream_id)"

definition put_fragment ::
    "vmars_capture_context \<Rightarrow> ipv4_stream \<Rightarrow> byte list \<Rightarrow> int \<Rightarrow> vmars_capture_context res" where
  "put_fragment ctx stream_id message len =
     (let fragment_map = (case ctx_state ctx of None \<Rightarrow> Map.empty | Some m \<Rightarrow> m);
          f = (case fragment_map stream_id of None \<Rightarrow> new_fragment | Some f \<Rightarrow> f) in
      and_then (fragment_store f 0 message (int_to_size len)) (\<lambda>f'.
        Inr (ctx\<lparr>ctx_state := Some (fragment_map(stream_id \<mapsto> f'\<lparr>frag_len := len\<rparr>))\<rparr>)))"

definition remove_fragment :: "vmars_capture_context \<Rightarrow> ipv4_stream \<Rightarrow> vmars_capture_context" where
  "remove_fragment ctx stream_id =
     (case ctx_state ctx of
        None \<Rightarrow> ctx
      | Some fragment_map \<Rightarrow>
          (if fragment_map stream_id = None then ctx
           else ctx\<lparr>ctx_state := Some (fragment_map(stream_id := None))\<rparr>))"

end
