(* ===== verification/Fix_Message.thy ===== *)
theory Fix_Message
  imports Fix_Parser
begin

text \<open>
  The grammar of FIX messages and the parser of \<^verbatim>\<open>src/fixparser.c\<close> against it: what
  the value and field loops do on well-formed fields, the converse, the byte sequence of a
  message, and the properties of \<open>vmars_fix_parse_msg\<close> (round trip, prefixes, soundness,
  bounds of its reads).
\<close>

subsection \<open>The value loop\<close>

lemma value_loop_found:
  "SOH \<notin> set v \<Longrightarrow> 0 \<le> p \<Longrightarrow> p + int (length v) < len \<Longrightarrow> prefix (v @ [SOH]) (drop (nat p) buf) \<Longrightarrow>
     value_loop buf len p = Inr (p + int (length v) + 1, p + int (length v))"
proof (induction v arbitrary: p)
  case Nil
  then show ?case by (subst value_loop.simps) (simp add: c_read_prefix)
next
  case (Cons c v)
  have "value_loop buf len (p + 1) = Inr (p + 1 + int (length v) + 1, p + 1 + int (length v))"
    using Cons.prems prefix_drop_step[of p c "v @ [SOH]" buf] by (intro Cons.IH) auto
  with Cons.prems show ?case
    by (subst value_loop.simps) (auto simp: c_read_prefix algebra_simps)
qed

lemma value_loop_cases:
  assumes "0 \<le> p" "p \<le> len" "len \<le> int (length buf)"
  shows "(\<exists>v. SOH \<notin> set v \<and> prefix (v @ [SOH]) (drop (nat p) buf) \<and> p + int (length v) < len \<and>
            value_loop buf len p = Inr (p + int (length v) + 1, p + int (length v))) \<or>
         value_loop buf len p = Inr (len, -1)"
  using assms
proof (induction "nat (len - p)" arbitrary: p)
  case 0
  then have "p = len" by simp
  then show ?case by (simp add: value_loop.simps[of buf len len])
next
  case (Suc k)
  let ?c = "buf ! nat p"
  have k: "k = nat (len - (p + 1))" and p: "p < len" "c_read buf p = Inr ?c" "nat p < length buf"
    using Suc.hyps(2) Suc.prems by (auto simp: c_read_def)
  show ?case
  proof (cases "?c = SOH")
    case True
    with p Suc.prems prefix_Cons_drop[of p buf "[]"] have "prefix ([] @ [SOH]) (drop (nat p) buf)" by simp
    moreover have "value_loop buf len p = Inr (p + int (length []) + 1, p + int (length []))"
      using p True by (subst value_loop.simps) simp
    ultimately show ?thesis using p by (intro disjI1 exI[of _ "[]"]) simp
  next
    case False
    then have eq: "value_loop buf len p = value_loop buf len (p + 1)"
      using p by (subst value_loop.simps) simp
    have "0 \<le> p + 1" "p + 1 \<le> len" using Suc.prems p by auto
    from Suc.hyps(1)[OF k this Suc.prems(3)] consider
        (found) v where "SOH \<notin> set v" "prefix (v @ [SOH]) (drop (nat (p + 1)) buf)"
          "p + 1 + int (length v) < len"
          "value_loop buf len (p + 1) = Inr (p + 1 + int (length v) + 1, p + 1 + int (length v))"
      | (none) "value_loop buf len (p + 1) = Inr (len, -1)" by blast
    then show ?thesis
    proof cases
      case (found v)
      with prefix_Cons_drop[of p buf "v @ [SOH]"] p False eq Suc.prems(1)
      show ?thesis by (intro disjI1 exI[of _ "?c # v"]) (auto simp: algebra_simps)
    next
      case none
      with eq show ?thesis by simp
    qed
  qed
qed

subsection \<open>Fields\<close>

text \<open>A field is the pair of its tag's bytes and its value's bytes.\<close>

type_synonym field = "byte list \<times> byte list"

definition field_bytes :: "field \<Rightarrow> byte list" where
  "field_bytes f = fst f @ EQ # snd f @ [SOH]"

definition fields_bytes :: "field list \<Rightarrow> byte list" where
  "fields_bytes fs = concat (map field_bytes fs)"

definition wf_field :: "field \<Rightarrow> bool" where
  "wf_field f \<longleftrightarrow> all_digits (fst f) \<and> num_value 0 (fst f) < 2 ^ 31 \<and> SOH \<notin> set (snd f)"

lemma fields_bytes_simps [simp]:
  "fields_bytes [] = []"
  "fields_bytes (f # fs) = field_bytes f @ fields_bytes fs"
  by (simp_all add: fields_bytes_def)

lemma fields_bytes_append [simp]: "fields_bytes (fs @ gs) = fields_bytes fs @ fields_bytes gs"
  by (simp add: fields_bytes_def)

lemma length_field_bytes [simp]:
  "length (field_bytes f) = length (fst f) + length (snd f) + 2"
  by (simp add: field_bytes_def)

lemma not_digit_delims [simp]: "\<not> is_digit EQ" "\<not> is_digit SOH" "EQ \<noteq> SOH"
  by (simp_all add: is_digit_def EQ_def SOH_def)

text \<open>
  The calls of the tag callback for a list of fields laid out at \<open>mem\<close>, in order: each gets
  the tag's number, the pointer to its value and the value's length (with the reporting option,
  tag 10 gets the computed checksum instead).
\<close>

definition deliver_field :: "int \<Rightarrow> int \<Rightarrow> 'c tag_callback \<Rightarrow> 'c tag_callback" where
  "deliver_field options checksum tagp ctx tag v n =
     (if opt_report_calculated_checksum options \<and> tag = 10
      then tagp ctx tag (calculated_checksum_str checksum) 3 else tagp ctx tag v n)"

fun run_fields :: "'c tag_callback \<Rightarrow> byte list \<Rightarrow> field list \<Rightarrow> 'c \<Rightarrow> 'c res" where
  "run_fields tagp mem [] ctx = Inr ctx"
| "run_fields tagp mem (f # fs) ctx =
     and_then (tagp ctx (num_value 0 (fst f)) (drop (length (fst f) + 1) mem) (int (length (snd f))))
       (run_fields tagp (drop (length (field_bytes f)) mem) fs)"

lemma fields_loop_step:
  assumes wf: "wf_field f" and p: "0 \<le> p" "p + int (length (field_bytes f)) \<le> len"
    and pre: "prefix (field_bytes f) (drop (nat p) buf)"
  shows "fields_loop buf len options checksum tagp p ctx =
    and_then (deliver_field options checksum tagp ctx (num_value 0 (fst f))
        (drop (length (fst f) + 1) (drop (nat p) buf)) (int (length (snd f))))
      (\<lambda>ctx'. if p + int (length (field_bytes f)) < len
        then fields_loop buf len options checksum tagp (p + int (length (field_bytes f))) ctx'
        else Inr (None, ctx'))"
proof -
  obtain t v where f: "f = (t, v)" by (cases f)
  let ?q = "p + int (length t) + 1"
  have pre': "prefix (t @ EQ # v @ [SOH]) (drop (nat p) buf)" using pre f by (simp add: field_bytes_def)
  have len: "int (length (field_bytes f)) = int (length t) + int (length v) + 2" using f by simp
  have "prefix (t @ [EQ]) (drop (nat p) buf)"
    using pre' by (metis append.assoc append_Cons append_Nil append_prefixD)
  then have tag: "tag_loop buf len p 0 = Inr (Go (?q, num_value 0 t))"
    using wf p len f by (auto simp: tag_loop_def wf_field_def intro!: number_loop_done)
  have pv: "prefix (v @ [SOH]) (drop (nat ?q) buf)"
    using prefix_drop_append[of p "t @ [EQ]" "v @ [SOH]" buf] pre' p by (simp add: algebra_simps)
  then have "value_loop buf len ?q = Inr (?q + int (length v) + 1, ?q + int (length v))"
    using wf p len f by (intro value_loop_found) (auto simp: wf_field_def)
  moreover have "c_offset buf ?q = Inr (drop (length t + 1) (drop (nat p) buf))"
  proof -
    have "int (length v) + ?q < int (length buf)"
      using prefix_length_le[OF pv] p by simp
    with p show ?thesis by (simp add: c_offset_def nat_add_distrib add.commute)
  qed
  ultimately show ?thesis
    using p(1) tag f len
    by (subst fields_loop.simps) (simp add: deliver_field_def algebra_simps cong: if_cong)
qed

lemma fields_loop_run:
  "fs \<noteq> [] \<Longrightarrow> \<forall>f\<in>set fs. wf_field f \<Longrightarrow> 0 \<le> p \<Longrightarrow> len = p + int (length (fields_bytes fs)) \<Longrightarrow>
     prefix (fields_bytes fs) (drop (nat p) buf) \<Longrightarrow>
     fields_loop buf len options checksum tagp p ctx =
       and_then (run_fields (deliver_field options checksum tagp) (drop (nat p) buf) fs ctx)
         (\<lambda>c. Inr (None, c))"
proof (induction fs arbitrary: p ctx)
  case (Cons f fs)
  let ?n = "int (length (field_bytes f))" and ?q = "p + int (length (field_bytes f))"
  let ?d = "deliver_field options checksum tagp ctx (num_value 0 (fst f))
        (drop (length (fst f) + 1) (drop (nat p) buf)) (int (length (snd f)))"
  have pre: "prefix (field_bytes f) (drop (nat p) buf)"
    using Cons.prems(5) by (auto intro: append_prefixD)
  have step: "fields_loop buf len options checksum tagp p ctx = and_then ?d (\<lambda>ctx'.
      if ?q < len then fields_loop buf len options checksum tagp ?q ctx' else Inr (None, ctx'))"
    using Cons.prems pre by (intro fields_loop_step) auto
  show ?case
  proof (cases "fs = []")
    case True
    with step Cons.prems(4) show ?thesis by (simp add: and_then_assoc)
  next
    case False
    then have "fields_bytes fs \<noteq> []" by (cases fs) (auto simp: field_bytes_def)
    then have lt: "?q < len" using Cons.prems(4) by simp
    have mem: "drop (nat ?q) buf = drop (length (field_bytes f)) (drop (nat p) buf)"
      using Cons.prems(3) by (simp add: nat_add_distrib add.commute)
    have "fields_loop buf len options checksum tagp ?q c =
        and_then (run_fields (deliver_field options checksum tagp) (drop (nat ?q) buf) fs c)
          (\<lambda>c. Inr (None, c))" for c
      using Cons.prems False prefix_drop_append[of p "field_bytes f" "fields_bytes fs" buf]
      by (intro Cons.IH) auto
    with step lt mem show ?thesis by (simp add: and_then_assoc del: length_field_bytes)
  qed
qed simp

text \<open>Conversely, a loop that reached the end of the message read well-formed fields only.\<close>

lemma fields_loop_inv:
  assumes "fields_loop buf len options checksum tagp p ctx = Inr (None, ctx')"
    and "0 \<le> p" "p < len" "len \<le> int (length buf)"
  shows "\<exists>fs. fs \<noteq> [] \<and> (\<forall>f\<in>set fs. wf_field f) \<and> len = p + int (length (fields_bytes fs)) \<and>
     prefix (fields_bytes fs) (drop (nat p) buf)"
  using assms
proof (induction "nat (len - p)" arbitrary: p ctx rule: less_induct)
  case less
  from less.prems(1) obtain x where x: "tag_loop buf len p 0 = Inr x"
    by (subst (asm) fields_loop.simps) (auto simp: and_then_eq_Inr)
  with less.prems(1) obtain q tag where t: "tag_loop buf len p 0 = Inr (Go (q, tag))"
    by (cases x) (auto simp: fields_loop.simps[of buf len options checksum tagp p ctx])
  from less.prems(1) t obtain q' e where v: "value_loop buf len q = Inr (q', e)" "e \<noteq> -1"
    by (subst (asm) fields_loop.simps) (auto simp: and_then_eq_Inr split: if_splits)
  obtain ds where ds: "all_digits ds" "num_value 0 ds < 2 ^ 31"
    and q: "prefix (ds @ [EQ]) (drop (nat p) buf) \<and> q = p + int (length ds) + 1 \<and> q \<le> len \<or>
       prefix ds (drop (nat p) buf) \<and> q = p + int (length ds) \<and> q = len"
    using number_loop_GoE[OF t[unfolded tag_loop_def]] less.prems by auto
  have "0 \<le> q" "q \<le> len" using q less.prems by auto
  with value_loop_cases[of q len buf] v less.prems obtain w where w: "SOH \<notin> set w"
    "prefix (w @ [SOH]) (drop (nat q) buf)" "q + int (length w) < len" by auto
  with q have q_eq: "q = p + int (length ds) + 1" and "prefix (ds @ [EQ]) (drop (nat p) buf)" by auto
  then obtain r where r: "drop (nat p) buf = (ds @ [EQ]) @ r" by (auto simp: prefix_def)
  have "nat q = nat p + length (ds @ [EQ])" using less.prems(2) q_eq by simp
  then have "drop (nat q) buf = drop (length (ds @ [EQ])) (drop (nat p) buf)"
    by (simp only: drop_drop add.commute)
  then have "drop (nat q) buf = r" using r by simp
  with w r have pre: "prefix (field_bytes (ds, w)) (drop (nat p) buf)"
    by (auto simp: field_bytes_def prefix_def)
  have wf: "wf_field (ds, w)" using ds w by (simp add: wf_field_def)
  let ?q = "p + int (length (field_bytes (ds, w)))"
  have le: "?q \<le> len" using w(3) q_eq by simp
  obtain c where c: "(if ?q < len then fields_loop buf len options checksum tagp ?q c else Inr (None, c))
      = Inr (None, ctx')"
    using less.prems(1) unfolding fields_loop_step[OF wf less.prems(2) le pre] and_then_eq_Inr by blast
  show ?case
  proof (cases "?q < len")
    case False
    with wf pre le show ?thesis by (intro exI[of _ "[(ds, w)]"]) auto
  next
    case True
    with c have "fields_loop buf len options checksum tagp ?q c = Inr (None, ctx')" by simp
    then obtain fs where fs: "fs \<noteq> []" "\<forall>f\<in>set fs. wf_field f"
      "len = ?q + int (length (fields_bytes fs))" "prefix (fields_bytes fs) (drop (nat ?q) buf)"
      using less.hyps[of ?q c] less.prems True by auto
    have "nat ?q = length (field_bytes (ds, w)) + nat p" using less.prems(2) by simp
    then have "drop (nat ?q) buf = drop (length (field_bytes (ds, w))) (drop (nat p) buf)"
      by (simp only: drop_drop)
    moreover obtain r where r: "drop (nat p) buf = field_bytes (ds, w) @ r"
      using pre by (auto simp: prefix_def)
    ultimately have "prefix (fields_bytes fs) r"
      using fs(4) by (simp del: length_field_bytes)
    with r have "prefix (field_bytes (ds, w) @ fields_bytes fs) (drop (nat p) buf)" by simp
    with wf fs show ?thesis by (intro exI[of _ "(ds, w) # fs"]) auto
  qed
qed

subsection \<open>Messages\<close>

text \<open>
  The byte sequences the parser accepts: one of the two headers, the BodyLength, then fields
  that take exactly BodyLength bytes and the seven of the checksum field.
\<close>

definition fix_header :: "byte list \<Rightarrow> bool" where
  "fix_header h \<longleftrightarrow> h = INITIAL_HEADER_42 \<or> h = INITIAL_HEADER_44"

definition header_type :: "byte list \<Rightarrow> int" where
  "header_type h = (if h = INITIAL_HEADER_44 then 44 else 42)"

definition wf_message :: "byte list \<Rightarrow> byte list \<Rightarrow> field list \<Rightarrow> bool" where
  "wf_message h ld fs \<longleftrightarrow> fix_header h \<and> all_digits ld \<and> 0 < num_value 0 ld \<and>
     num_value 0 ld < 2 ^ 31 \<and> (\<forall>f\<in>set fs. wf_field f) \<and>
     int (length (fields_bytes fs)) = num_value 0 ld + 7"

definition message_bytes :: "byte list \<Rightarrow> byte list \<Rightarrow> field list \<Rightarrow> byte list" where
  "message_bytes h ld fs = h @ ld @ SOH # fields_bytes fs"

text \<open>The sum over the message up to the checksum field, and the three bytes it is compared with.\<close>

definition message_sum :: "byte list \<Rightarrow> byte list \<Rightarrow> field list \<Rightarrow> int" where
  "message_sum h ld fs =
     byte_sum (take (length (message_bytes h ld fs) - 7) (message_bytes h ld fs))"

definition message_checksum :: "byte list \<Rightarrow> byte list \<Rightarrow> field list \<Rightarrow> int res" where
  "message_checksum h ld fs =
     supplied_checksum (drop (length (message_bytes h ld fs) - 4) (message_bytes h ld fs))"

lemma header_simps [simp]:
  "length INITIAL_HEADER_42 = 12" "length INITIAL_HEADER_44 = 12"
  "INITIAL_HEADER_42 \<noteq> INITIAL_HEADER_44" "INITIAL_HEADER_44 \<noteq> INITIAL_HEADER_42"
  by (simp_all add: INITIAL_HEADER_42_def INITIAL_HEADER_44_def bytes_of_def of_char_def)

lemma header_no_nul: "0 \<notin> set INITIAL_HEADER_42" "0 \<notin> set INITIAL_HEADER_44"
  by (auto simp: INITIAL_HEADER_42_def INITIAL_HEADER_44_def bytes_of_def of_char_def SOH_def)

lemma fix_header_length [simp]: "fix_header h \<Longrightarrow> length h = 12"
  by (auto simp: fix_header_def)

lemma header_compare:
  "12 \<le> length buf \<Longrightarrow> c_strncmp_eq buf INITIAL_HEADER_42 12 = Inr (take 12 buf = INITIAL_HEADER_42)"
  "12 \<le> length buf \<Longrightarrow> c_strncmp_eq buf INITIAL_HEADER_44 12 = Inr (take 12 buf = INITIAL_HEADER_44)"
  by (simp_all add: c_strncmp_eq_iff header_no_nul)

lemma take_header: "fix_header h \<Longrightarrow> prefix h buf \<Longrightarrow> take 12 buf = h"
  using take_eq_prefix[of h buf] by simp

lemma length_message:
  "wf_message h ld fs \<Longrightarrow>
     int (length (message_bytes h ld fs)) = 12 + int (length ld) + 1 + num_value 0 ld + 7"
  by (simp add: wf_message_def message_bytes_def)

lemma wf_message_fields: "wf_message h ld fs \<Longrightarrow> fs \<noteq> []"
  by (auto simp: wf_message_def)

text \<open>The parser up to the field loop, on a buffer that starts with a header.\<close>

definition parse_after_header ::
    "byte list \<Rightarrow> int \<Rightarrow> 'c \<Rightarrow> ('c \<Rightarrow> int \<Rightarrow> int \<Rightarrow> 'c) option \<Rightarrow> 'c tag_callback \<Rightarrow>
     ('c \<Rightarrow> 'c) option \<Rightarrow> int \<Rightarrow> int \<Rightarrow> int \<Rightarrow> int \<Rightarrow> (vmars_fix_parse_result \<times> 'c) res" where
  "parse_after_header buf len ctx startp tagp endp options fix_type position msg_len =
     (let len' = msg_len + position + CHECK_SUM_LEN;
          calculated = byte_sum (take (nat (msg_len + position)) buf) in
      and_then (supplied_checksum (drop (nat (position + msg_len + 3)) buf)) (\<lambda>checksum.
        if opt_validate_checksum options \<and> calculated \<noteq> checksum
        then parse_result FIX_ECHECKSUMINVALID len' ctx
        else
          let ctx1 = (case startp of None \<Rightarrow> ctx | Some f \<Rightarrow> f ctx msg_len fix_type) in
          and_then (fields_loop buf len' options calculated tagp position ctx1)
            (\<lambda>(r, ctx2).
              case r of
                Some e \<Rightarrow> Inr (e, ctx2)
              | None \<Rightarrow> parse_result 0 len'
                  (case endp of None \<Rightarrow> ctx2 | Some f \<Rightarrow> f ctx2))))"

lemma parse_msg_header:
  assumes "fix_header h" "prefix h buf" "12 \<le> len" "len \<le> int (length buf)"
  shows "vmars_fix_parse_msg buf len ctx startp tagp endp options =
    and_then (number_loop SOH buf len 12 0) (\<lambda>f.
      case f of
        Early r \<Rightarrow> Inr (r, ctx)
      | Go (position, msg_len) \<Rightarrow>
          if 0 = msg_len \<or> msg_len > (len - position) - 7
          then parse_result FIX_EMESSAGETOOSHORT len ctx
          else parse_after_header buf len ctx startp tagp endp options (header_type h) position msg_len)"
proof -
  have len: "12 \<le> length buf" using assms(3,4) by linarith
  note defs = vmars_fix_parse_msg_def INITIAL_HEADER_LEN_def CHECK_SUM_LEN_def
    body_length_loop_def
  have cmp: "c_strncmp_eq buf INITIAL_HEADER_42 12 = Inr (h = INITIAL_HEADER_42)"
    "c_strncmp_eq buf INITIAL_HEADER_44 12 = Inr (h = INITIAL_HEADER_44)"
    using len take_header[OF assms(1,2)] by (simp_all add: header_compare)
  have h: "h = INITIAL_HEADER_42 \<or> h = INITIAL_HEADER_44" using assms(1) by (simp add: fix_header_def)
  show ?thesis
  proof (cases "number_loop SOH buf len 12 0")
    case (Inl e)
    with h assms(3) cmp show ?thesis by (elim disjE) (simp_all add: defs Let_def)
  next
    case (Inr f)
    show ?thesis
    proof (cases f)
      case (Early r)
      with h Inr assms(3) cmp show ?thesis by (elim disjE) (simp_all add: defs Let_def)
    next
      case (Go x)
      obtain p m where x: "x = (p, m)" by (cases x)
      with Inr Go have go: "number_loop SOH buf len 12 0 = Inr (Go (p, m))" by simp
      show ?thesis
      proof (cases "0 = m \<or> m > (len - p) - 7")
        case True
        with h go assms(3) cmp show ?thesis by (elim disjE[of "h = _"]) (auto simp: defs Let_def)
      next
        case False
        obtain ds where "m = num_value 0 ds" "0 \<le> m" "12 \<le> p"
          using number_loop_GoE[OF go] assms(3,4) number_loop_mono[OF go] by auto
        with False assms(4) have
          "calculate_checksum buf (m + p) = Inr (byte_sum (take (nat (m + p)) buf))"
          "c_offset buf (p + m + 3) = Inr (drop (nat (p + m + 3)) buf)"
          by (auto simp: c_offset_def intro: calculate_checksum_byte_sum)
        with h False go assms(3) cmp show ?thesis
          by (elim disjE[of "h = _"]) (simp_all add: defs parse_after_header_def header_type_def Let_def)
      qed
    qed
  qed
qed

lemma supplied_checksum_append: "3 \<le> length a \<Longrightarrow> supplied_checksum (a @ r) = supplied_checksum a"
  by (auto simp: supplied_checksum_def c_read_def nth_append)

lemma supplied_checksum_total: "3 \<le> length a \<Longrightarrow> \<exists>ck. supplied_checksum a = Inr ck"
  by (auto simp: supplied_checksum_def c_read_def)

lemma message_checksum_total: "wf_message h ld fs \<Longrightarrow> \<exists>ck. message_checksum h ld fs = Inr ck"
  using length_message[of h ld fs] supplied_checksum_total
  by (auto simp: message_checksum_def wf_message_def)

lemma parse_message:
  assumes wf: "wf_message h ld fs" and pre: "prefix (message_bytes h ld fs) buf"
    and len: "int (length (message_bytes h ld fs)) \<le> len" "len \<le> int (length buf)"
    and ck: "message_checksum h ld fs = Inr ck"
  shows "vmars_fix_parse_msg buf len ctx startp tagp endp options =
    (let n = int (length (message_bytes h ld fs)); s = message_sum h ld fs in
     if opt_validate_checksum options \<and> s \<noteq> ck then parse_result FIX_ECHECKSUMINVALID n ctx
     else and_then (run_fields (deliver_field options s tagp) (drop (12 + length ld + 1) buf) fs
            (case startp of None \<Rightarrow> ctx | Some f \<Rightarrow> f ctx (num_value 0 ld) (header_type h)))
          (\<lambda>c. parse_result 0 n (case endp of None \<Rightarrow> c | Some f \<Rightarrow> f c)))"
proof -
  let ?m = "message_bytes h ld fs" and ?v = "num_value 0 ld" and ?p = "12 + int (length ld) + 1"
  let ?f = "fields_bytes fs"
  note L = length_message[OF wf]
  from wf have h: "fix_header h" and ld: "all_digits ld" "0 < ?v" "?v < 2 ^ 31"
    and fs: "\<forall>f\<in>set fs. wf_field f" "int (length ?f) = ?v + 7" by (auto simp: wf_message_def)
  obtain r where buf: "buf = ?m @ r" using pre by (auto simp: prefix_def)
  have d12: "drop 12 buf = ld @ SOH # ?f @ r" using h buf by (simp add: message_bytes_def)
  have dp: "drop (12 + length ld + 1) buf = ?f @ r"
    using h buf by (simp add: message_bytes_def)
  have "number_loop SOH buf len 12 0 = Inr (Go (?p, ?v))"
    using ld L len(1) d12 by (intro number_loop_done) (auto simp: prefix_def)
  moreover have "prefix h buf" using buf by (simp add: message_bytes_def)
  ultimately have A: "vmars_fix_parse_msg buf len ctx startp tagp endp options =
      parse_after_header buf len ctx startp tagp endp options (header_type h) ?p ?v"
    using parse_msg_header[OF h _ _ len(2), of ctx startp tagp endp options] ld L len(1) by auto
  have fin: "?v + ?p + CHECK_SUM_LEN = int (length ?m)" using L by (simp add: CHECK_SUM_LEN_def)
  have sum: "byte_sum (take (nat (?v + ?p)) buf) = message_sum h ld fs"
  proof -
    have "nat (?v + ?p) = length ?m - 7" using L ld by linarith
    then show ?thesis using buf by (simp add: message_sum_def)
  qed
  have sup: "supplied_checksum (drop (nat (?p + ?v + 3)) buf) = Inr ck"
  proof -
    have "nat (?p + ?v + 3) = length ?m - 4" using L ld by linarith
    then have "drop (nat (?p + ?v + 3)) buf = drop (length ?m - 4) ?m @ r" using buf by simp
    moreover have "3 \<le> length (drop (length ?m - 4) ?m)" using L ld by simp
    ultimately show ?thesis using ck by (simp add: message_checksum_def supplied_checksum_append)
  qed
  have loop: "fields_loop buf (int (length ?m)) options s tagp ?p c =
      and_then (run_fields (deliver_field options s tagp) (drop (12 + length ld + 1) buf) fs c)
        (\<lambda>c. Inr (None, c))" for s c
  proof -
    have p: "nat ?p = 12 + length ld + 1" by simp
    with dp have "prefix ?f (drop (nat ?p) buf)" by simp
    with fields_loop_run[OF wf_message_fields[OF wf] fs(1), of ?p "int (length ?m)" buf options s tagp c]
    show ?thesis using fs(2) L unfolding p by simp
  qed
  show ?thesis
    unfolding A parse_after_header_def fin sum sup Let_def and_then_Inr loop and_then_assoc
    by simp
qed

text \<open>A proper prefix of a message is too short: nothing is reported, all its bytes are consumed.\<close>

lemma num_value_take_less:
  assumes "all_digits ld" "num_value 0 ld < b"
  shows "num_value 0 (take k ld) < b \<and> 0 \<le> num_value 0 (take k ld)"
proof -
  have "all_digits (take k ld)" using assms(1) in_set_takeD[of _ k ld] by blast
  then have nn: "0 \<le> num_value 0 (take k ld)" using num_value_mono[of "take k ld" 0] by simp
  have "num_value 0 (take k ld) \<le> num_value (num_value 0 (take k ld)) (drop k ld)"
    using nn assms(1) in_set_dropD[of _ k ld] by (blast intro: num_value_mono)
  also have "\<dots> = num_value 0 ld"
    by (metis append_take_drop_id foldl_append num_value_def)
  finally show ?thesis using nn assms(2) by simp
qed

lemma parse_prefix:
  assumes wf: "wf_message h ld fs" and k: "k < length (message_bytes h ld fs)" "k \<le> length buf"
    and pre: "prefix (take k (message_bytes h ld fs)) buf"
  shows "vmars_fix_parse_msg buf (int k) ctx startp tagp endp options =
    parse_result FIX_EMESSAGETOOSHORT (int k) ctx"
proof (cases "k < 12")
  case True
  then show ?thesis by (simp add: vmars_fix_parse_msg_def INITIAL_HEADER_LEN_def)
next
  case False
  let ?m = "message_bytes h ld fs"
  note L = length_message[OF wf]
  from wf have h: "fix_header h" and ld: "all_digits ld" "0 < num_value 0 ld" "num_value 0 ld < 2 ^ 31"
    by (auto simp: wf_message_def)
  have tk: "take k ?m = h @ take (k - 12) (ld @ SOH # fields_bytes fs)"
    using False h by (simp add: message_bytes_def)
  then obtain r where buf: "buf = h @ take (k - 12) (ld @ SOH # fields_bytes fs) @ r"
    using pre by (auto simp: prefix_def)
  have d12: "drop 12 buf = take (k - 12) (ld @ SOH # fields_bytes fs) @ r" using h buf by simp
  have hdr: "vmars_fix_parse_msg buf (int k) ctx startp tagp endp options =
    and_then (number_loop SOH buf (int k) 12 0) (\<lambda>f.
      case f of Early r \<Rightarrow> Inr (r, ctx) | Go (position, msg_len) \<Rightarrow>
          if 0 = msg_len \<or> msg_len > (int k - position) - 7
          then parse_result FIX_EMESSAGETOOSHORT (int k) ctx
          else parse_after_header buf (int k) ctx startp tagp endp options (header_type h) position msg_len)"
  proof (rule parse_msg_header[OF h])
    show "prefix h buf" using buf by simp
  qed (use False k in simp_all)
  show ?thesis
  proof (cases "k \<le> 12 + length ld")
    case True
    let ?d = "take (k - 12) ld"
    have d: "drop 12 buf = ?d @ r" "length ?d = k - 12" using d12 True by simp_all
    have dd: "all_digits ?d" using ld(1) by (auto dest: in_set_takeD)
    have v: "num_value 0 ?d < 2 ^ 31" "0 \<le> num_value 0 ?d"
      using num_value_take_less[OF ld(1,3)] by auto
    have "number_loop SOH buf (int k) 12 0 = number_loop SOH buf (int k) (12 + int (length ?d)) (num_value 0 ?d)"
      using dd v d False by (intro number_loop_digits) auto
    also have "\<dots> = Inr (Go (int k, num_value 0 ?d))"
      using d False by (subst number_loop.simps) simp
    finally show ?thesis using hdr v by simp
  next
    case after: False
    have t: "take (k - 12) (ld @ SOH # fields_bytes fs) =
        ld @ SOH # take (k - 12 - length ld - 1) (fields_bytes fs)"
      using after False by (simp add: take_Cons')
    have "number_loop SOH buf (int k) 12 0 = Inr (Go (12 + int (length ld) + 1, num_value 0 ld))"
      using ld after d12 t by (intro number_loop_done) auto
    then show ?thesis using hdr L k(1) by simp
  qed
qed

subsection \<open>What the parser returns\<close>

text \<open>One round of the field loop: an error that consumes the message, or a step forward.\<close>

lemma fields_loop_round:
  assumes "fields_loop buf len options checksum tagp p ctx = Inr (ro, c)"
  shows "(\<exists>code. code \<in> {FIX_ETAGINVALID, FIX_EEMPTYVALUE} \<and>
      ro = Some \<lparr>pr_result = code, pr_bytes_consumed = len\<rparr>) \<or>
    (\<exists>q ctx'. p < q \<and> (if q < len
       then fields_loop buf len options checksum tagp q ctx' = Inr (ro, c) else ro = None))"
proof -
  obtain x where x: "tag_loop buf len p 0 = Inr x"
    using assms by (subst (asm) fields_loop.simps) (auto simp: and_then_eq_Inr)
  show ?thesis
  proof (cases x)
    case (Early r)
    with assms x show ?thesis
      by (auto simp: fields_loop.simps[of buf len options checksum tagp p] tag_loop_def dest: number_loop_Early)
  next
    case (Go y)
    obtain q t where y: "y = (q, t)" by (cases y)
    have t: "tag_loop buf len p 0 = Inr (Go (q, t))" using x Go y by simp
    obtain q' e where v: "value_loop buf len q = Inr (q', e)"
      using assms t by (subst (asm) fields_loop.simps) (auto simp: and_then_eq_Inr)
    show ?thesis
    proof (cases "e = -1")
      case True
      with assms t v show ?thesis
        by (auto simp: fields_loop.simps[of buf len options checksum tagp p])
    next
      case False
      then have "p < q'"
        using number_loop_mono[OF t[unfolded tag_loop_def]] value_loop_mono[OF v] by simp
      with assms t v False show ?thesis
        by (auto simp: fields_loop.simps[of buf len options checksum tagp p] and_then_eq_Inr
            split: if_splits)
    qed
  qed
qed

lemma fields_loop_Some:
  "fields_loop buf len options checksum tagp p ctx = Inr (Some r, c) \<Longrightarrow>
     pr_bytes_consumed r = len \<and> pr_result r \<in> {FIX_ETAGINVALID, FIX_EEMPTYVALUE}"
proof (induction "nat (len - p)" arbitrary: p ctx rule: less_induct)
  case less
  from fields_loop_round[OF less.prems] show ?case
  proof (elim disjE exE conjE)
    fix q ctx'
    assume "p < q" and r: "if q < len
       then fields_loop buf len options checksum tagp q ctx' = Inr (Some r, c) else Some r = None"
    then have "q < len" by (simp split: if_splits)
    with \<open>p < q\<close> r show ?case using less.hyps[of q ctx'] by simp
  qed auto
qed

lemma parse_after_header_cases:
  assumes "parse_after_header buf len ctx startp tagp endp options ty p m = Inr (r, c)"
  shows "\<exists>ck. supplied_checksum (drop (nat (p + m + 3)) buf) = Inr ck \<and>
    (opt_validate_checksum options \<and> byte_sum (take (nat (m + p)) buf) \<noteq> ck \<and>
       r = \<lparr>pr_result = FIX_ECHECKSUMINVALID, pr_bytes_consumed = m + p + 7\<rparr> \<or>
     (opt_validate_checksum options \<longrightarrow> byte_sum (take (nat (m + p)) buf) = ck) \<and>
       (\<exists>ctx1 ro c'. fields_loop buf (m + p + 7) options (byte_sum (take (nat (m + p)) buf)) tagp p ctx1
            = Inr (ro, c') \<and>
          r = (case ro of Some e \<Rightarrow> e | None \<Rightarrow> \<lparr>pr_result = 0, pr_bytes_consumed = m + p + 7\<rparr>)))"
proof -
  let ?s = "byte_sum (take (nat (m + p)) buf)"
  let ?ctx1 = "case startp of None \<Rightarrow> ctx | Some f \<Rightarrow> f ctx m ty"
  from assms obtain ck where ck: "supplied_checksum (drop (nat (p + m + 3)) buf) = Inr ck"
    unfolding parse_after_header_def Let_def and_then_eq_Inr by blast
  show ?thesis
  proof (cases "opt_validate_checksum options \<and> ?s \<noteq> ck")
    case True
    with assms ck show ?thesis
      by (simp add: parse_after_header_def parse_result_def CHECK_SUM_LEN_def Let_def)
  next
    case False
    then have "and_then (fields_loop buf (m + p + 7) options ?s tagp p ?ctx1)
        (\<lambda>(ro, ctx2). case ro of Some e \<Rightarrow> Inr (e, ctx2)
          | None \<Rightarrow> parse_result 0 (m + p + 7) (case endp of None \<Rightarrow> ctx2 | Some f \<Rightarrow> f ctx2)) = Inr (r, c)"
      using assms ck by (simp add: parse_after_header_def CHECK_SUM_LEN_def Let_def if_not_P del: de_Morgan_conj)
    then obtain ro c' where "fields_loop buf (m + p + 7) options ?s tagp p ?ctx1 = Inr (ro, c')"
      "(case ro of Some e \<Rightarrow> Inr (e, c')
          | None \<Rightarrow> parse_result 0 (m + p + 7) (case endp of None \<Rightarrow> c' | Some f \<Rightarrow> f c')) = Inr (r, c)"
      unfolding and_then_eq_Inr by auto
    then have "fields_loop buf (m + p + 7) options ?s tagp p ?ctx1 = Inr (ro, c')"
      "r = (case ro of Some e \<Rightarrow> e | None \<Rightarrow> \<lparr>pr_result = 0, pr_bytes_consumed = m + p + 7\<rparr>)"
      by (auto simp: parse_result_def split: option.splits)
    with ck False show ?thesis by blast
  qed
qed

lemma parse_consumed:
  assumes "vmars_fix_parse_msg buf len ctx startp tagp endp options = Inr (r, c)"
    and len: "0 \<le> len" "len \<le> int (length buf)"
  shows "0 \<le> pr_bytes_consumed r \<and> pr_bytes_consumed r \<le> len \<and>
    pr_result r \<in> {0, FIX_EMESSAGETOOSHORT, FIX_ECHECKSUMINVALID, FIX_ETAGINVALID,
      FIX_EEMPTYVALUE, FIX_EINVALIDTYPE} \<and>
    (pr_result r = FIX_EMESSAGETOOSHORT \<longrightarrow> pr_bytes_consumed r = len)"
proof (cases "12 \<le> len \<and> fix_header (take 12 buf)")
  case False
  with assms show ?thesis
    by (auto simp: vmars_fix_parse_msg_def INITIAL_HEADER_LEN_def header_compare parse_result_def
        fix_header_def split: if_splits)
next
  case True
  note hdr = parse_msg_header[OF conjunct2[OF True] take_is_prefix conjunct1[OF True] len(2)]
  from assms(1) obtain x where x: "number_loop SOH buf len 12 0 = Inr x"
    unfolding hdr by (auto simp: and_then_eq_Inr)
  show ?thesis
  proof (cases x)
    case (Early e)
    with assms(1) x number_loop_Early[of SOH buf len 12 0 e] len show ?thesis
      unfolding hdr by (auto simp: fix_codes)
  next
    case (Go y)
    obtain p m where "y = (p, m)" by (cases y)
    with x Go have go: "number_loop SOH buf len 12 0 = Inr (Go (p, m))" by simp
    have m: "0 \<le> m" "12 \<le> p"
      using number_loop_GoE[OF go] number_loop_mono[OF go] True len by auto
    show ?thesis
    proof (cases "0 = m \<or> m > (len - p) - 7")
      case short: True
      from assms(1)[unfolded hdr] go short len show ?thesis by (auto simp: parse_result_def)
    next
      case fits: False
      from assms(1)[unfolded hdr] go fits
      have "parse_after_header buf len ctx startp tagp endp options (header_type (take 12 buf)) p m = Inr (r, c)"
        by simp
      from parse_after_header_cases[OF this]
      have "pr_bytes_consumed r = m + p + 7 \<and>
          pr_result r \<in> {0, FIX_ECHECKSUMINVALID, FIX_ETAGINVALID, FIX_EEMPTYVALUE}"
        by (auto dest: fields_loop_Some split: option.splits)
      with m fits show ?thesis by (auto simp: fix_codes)
    qed
  qed
qed

lemma parse_sound:
  assumes "vmars_fix_parse_msg buf len ctx startp tagp endp options = Inr (r, c)"
    and len: "0 \<le> len" "len \<le> int (length buf)"
    and ok: "pr_result r = 0" and opt: "opt_validate_checksum options"
  shows "\<exists>h ld fs. wf_message h ld fs \<and> take (nat (pr_bytes_consumed r)) buf = message_bytes h ld fs \<and>
    message_checksum h ld fs = Inr (message_sum h ld fs)"
proof -
  have hd12: "12 \<le> len" "fix_header (take 12 buf)"
    using assms
    by (auto simp: vmars_fix_parse_msg_def INITIAL_HEADER_LEN_def header_compare parse_result_def
        fix_header_def fix_codes split: if_splits)
  note hdr = parse_msg_header[OF hd12(2) take_is_prefix hd12(1) len(2)]
  from assms(1) obtain x where x: "number_loop SOH buf len 12 0 = Inr x"
    unfolding hdr by (auto simp: and_then_eq_Inr)
  with assms(1) ok number_loop_Early[of SOH buf len 12 0] obtain p m where
    go: "number_loop SOH buf len 12 0 = Inr (Go (p, m))"
    unfolding hdr by (cases x) (auto simp: fix_codes)
  have fits: "\<not> (0 = m \<or> m > (len - p) - 7)"
    using assms(1) ok unfolding hdr go by (auto simp: parse_result_def fix_codes split: if_splits)
  obtain ld where ld: "all_digits ld" "m = num_value 0 ld" "0 < m" "m < 2 ^ 31"
    "prefix (ld @ [SOH]) (drop 12 buf)" "p = 12 + int (length ld) + 1"
    using number_loop_GoE[OF go] fits hd12(1) len by auto
  define n where "n = m + p + 7"
  have after: "parse_after_header buf len ctx startp tagp endp options (header_type (take 12 buf)) p m = Inr (r, c)"
    using assms(1) fits unfolding hdr go by simp
  from parse_after_header_cases[OF after] obtain ck where
    ck: "supplied_checksum (drop (nat (p + m + 3)) buf) = Inr ck"
      "byte_sum (take (nat (m + p)) buf) = ck"
    and ex: "\<exists>ctx1 ro c'. fields_loop buf n options (byte_sum (take (nat (m + p)) buf)) tagp p ctx1
            = Inr (ro, c') \<and> r = (case ro of Some e \<Rightarrow> e | None \<Rightarrow> \<lparr>pr_result = 0, pr_bytes_consumed = n\<rparr>)"
    using ok opt unfolding n_def by (auto simp: fix_codes)
  from ex obtain ctx1 ro c' where
    fl': "fields_loop buf n options (byte_sum (take (nat (m + p)) buf)) tagp p ctx1 = Inr (ro, c')"
    and r': "r = (case ro of Some e \<Rightarrow> e | None \<Rightarrow> \<lparr>pr_result = 0, pr_bytes_consumed = n\<rparr>)" by blast
  have "ro = None"
  proof (cases ro)
    case (Some e)
    with fl' r' ok show ?thesis by (auto simp: fix_codes dest: fields_loop_Some)
  qed
  with fl' r' have fl: "fields_loop buf n options (byte_sum (take (nat (m + p)) buf)) tagp p ctx1 = Inr (None, c')"
    and r: "pr_bytes_consumed r = n" by simp_all
  have n: "p < n" "n \<le> int (length buf)" using ld fits len by (auto simp: n_def)
  obtain fs where fs: "fs \<noteq> []" "\<forall>f\<in>set fs. wf_field f" "n = p + int (length (fields_bytes fs))"
    "prefix (fields_bytes fs) (drop (nat p) buf)"
    using fields_loop_inv[OF fl _ n] ld(6) by auto
  let ?h = "take 12 buf"
  have wf: "wf_message ?h ld fs" using ld hd12 fs by (simp add: wf_message_def n_def)
  obtain rest where d12: "drop 12 buf = ld @ SOH # rest" using ld(5) by (auto simp: prefix_def)
  have "buf = ?h @ ld @ SOH # rest" by (metis append_take_drop_id d12)
  moreover have "drop (nat p) buf = rest"
  proof -
    have "nat p = length (ld @ [SOH]) + 12" using ld(6) by simp
    then have "drop (nat p) buf = drop (length (ld @ [SOH])) (drop 12 buf)" by (simp only: drop_drop)
    with d12 show ?thesis by simp
  qed
  moreover obtain rr where rr: "rest = fields_bytes fs @ rr"
    using fs(4) \<open>drop (nat p) buf = rest\<close> by (auto simp: prefix_def)
  ultimately have buf: "buf = message_bytes ?h ld fs @ rr"
    unfolding message_bytes_def by (metis append.assoc append_Cons)
  note L = length_message[OF wf]
  define M where "M = message_bytes ?h ld fs"
  have M: "buf = M @ rr" using buf by (simp add: M_def)
  have i: "nat n = length M" "nat (m + p) = length M - 7" "nat (p + m + 3) = length M - 4"
    using L ld unfolding M_def n_def by linarith+
  have tn: "take (nat n) buf = M" unfolding i using M by simp
  have "take (nat (m + p)) buf = take (length M - 7) M" unfolding i using M by simp
  then have "byte_sum (take (nat (m + p)) buf) = message_sum ?h ld fs"
    by (simp add: message_sum_def M_def)
  moreover have "drop (nat (p + m + 3)) buf = drop (length M - 4) M @ rr" unfolding i using M by simp
  moreover have "3 \<le> length (drop (length M - 4) M)" using L ld unfolding M_def by simp
  ultimately have "message_checksum ?h ld fs = Inr (message_sum ?h ld fs)"
    using ck by (simp add: message_checksum_def M_def supplied_checksum_append)
  with wf tn r show ?thesis unfolding M_def by (intro exI conjI) auto
qed

subsection \<open>The parser stays inside its buffer\<close>

text \<open>The contract of a tag callback: it reads at most the value it is given (never empty memory).\<close>

definition callback_in_bounds :: "'c tag_callback \<Rightarrow> bool" where
  "callback_in_bounds tagp \<longleftrightarrow>
     (\<forall>ctx tag v n. 0 \<le> n \<and> n \<le> int (length v) \<and> v \<noteq> [] \<longrightarrow> in_bounds (tagp ctx tag v n))"

lemma fields_loop_in_bounds:
  assumes "callback_in_bounds tagp" "0 \<le> p" "p \<le> len" "len \<le> int (length buf)"
  shows "in_bounds (fields_loop buf len options checksum tagp p ctx)"
  using assms(2,3)
proof (induction "nat (len - p)" arbitrary: p ctx rule: less_induct)
  case less
  have tl: "in_bounds (tag_loop buf len p 0)"
    using less.prems assms(4) by (simp add: tag_loop_def number_loop_in_bounds)
  have body: "in_bounds (and_then (value_loop buf len q) (\<lambda>(position', value_end).
      if value_end = -1
      then Inr (Some \<lparr>pr_result = FIX_EEMPTYVALUE, pr_bytes_consumed = len\<rparr>, ctx)
      else and_then
        (if opt_report_calculated_checksum options \<and> tag = 10
         then tagp ctx tag (calculated_checksum_str checksum) 3
         else and_then (c_offset buf q) (\<lambda>v. tagp ctx tag v (value_end - q)))
        (\<lambda>ctx'. if position' < len
          then fields_loop buf len options checksum tagp position' ctx' else Inr (None, ctx'))))"
    if t: "tag_loop buf len p 0 = Inr (Go (q, tag))" for q tag
  proof -
    have q: "p \<le> q" "q \<le> len"
      using number_loop_GoE[OF t[unfolded tag_loop_def]] less.prems assms(4) by auto
    have "0 \<le> q" using q less.prems by simp
    from value_loop_cases[OF this q(2) assms(4)] consider (found) v :: "byte list" where "q + int (length v) < len"
        "value_loop buf len q = Inr (q + int (length v) + 1, q + int (length v))"
      | (none) "value_loop buf len q = Inr (len, -1)"
      by blast
    then show ?thesis
    proof cases
      case none
      then show ?thesis by simp
    next
      case (found v)
      have cb: "in_bounds (if opt_report_calculated_checksum options \<and> tag = 10
         then tagp ctx tag (calculated_checksum_str checksum) 3
         else and_then (c_offset buf q) (\<lambda>w. tagp ctx tag w (q + int (length v) - q)))"
        using assms(1,4) found(1) q less.prems
        by (auto simp: callback_in_bounds_def calculated_checksum_str_def c_offset_def)
      have "in_bounds (fields_loop buf len options checksum tagp (q + int (length v) + 1) c)"
        if "q + int (length v) + 1 < len" for c
        using that q less.prems by (intro less.hyps) auto
      moreover have ne: "q + int (length v) \<noteq> - 1" using q less.prems by simp
      ultimately show ?thesis
        unfolding found(2) and_then_Inr prod.case if_not_P[OF ne]
        by (intro in_bounds_and_then[OF cb]) simp
    qed
  qed
  show ?case
    using tl body by (subst fields_loop.simps) (auto intro!: in_bounds_and_then split: flow.splits)
qed

lemma parse_in_bounds:
  assumes cb: "callback_in_bounds tagp" and len: "len \<le> int (length buf)"
  shows "in_bounds (vmars_fix_parse_msg buf len ctx startp tagp endp options)"
proof (cases "12 \<le> len \<and> fix_header (take 12 buf)")
  case False
  with assms show ?thesis
    by (auto simp: vmars_fix_parse_msg_def INITIAL_HEADER_LEN_def header_compare parse_result_def
        fix_header_def split: if_splits)
next
  case True
  note hdr = parse_msg_header[OF conjunct2[OF True] take_is_prefix conjunct1[OF True] len]
  have "in_bounds (parse_after_header buf len ctx startp tagp endp options ty p m)"
    if go: "number_loop SOH buf len 12 0 = Inr (Go (p, m))" and fits: "\<not> (0 = m \<or> m > (len - p) - 7)"
    for p m ty
  proof -
    have m: "0 < m" "12 \<le> p"
      using number_loop_GoE[OF go] number_loop_mono[OF go] fits True len by auto
    have "3 \<le> length (drop (nat (p + m + 3)) buf)" using m fits len by auto
    then obtain ck where "supplied_checksum (drop (nat (p + m + 3)) buf) = Inr ck"
      using supplied_checksum_total by blast
    moreover have "in_bounds (fields_loop buf (m + p + CHECK_SUM_LEN) options s tagp p c)" for s c
      using m fits len by (intro fields_loop_in_bounds[OF cb]) (auto simp: CHECK_SUM_LEN_def)
    ultimately show ?thesis
      by (auto simp: parse_after_header_def parse_result_def Let_def intro!: in_bounds_and_then
          split: option.splits)
  qed
  then show ?thesis
    unfolding hdr using number_loop_in_bounds[of 12 len buf SOH 0] len
    by (auto simp: parse_result_def intro!: in_bounds_and_then split: flow.splits)
qed

subsection \<open>A reference encoder\<close>

text \<open>
  The message a FIX engine sends for a header and a list of body fields: BodyLength in decimal,
  the body, then field 10 with the byte sum of all that precedes it in three digits.
\<close>

definition checksum_field :: "byte list \<Rightarrow> field" where
  "checksum_field m = (decimal 10, calculated_checksum_str (byte_sum m))"

definition encode_body :: "byte list \<Rightarrow> field list \<Rightarrow> byte list" where
  "encode_body h fs = h @ decimal (length (fields_bytes fs)) @ SOH # fields_bytes fs"

definition encode_message :: "byte list \<Rightarrow> field list \<Rightarrow> byte list" where
  "encode_message h fs = encode_body h fs @ field_bytes (checksum_field (encode_body h fs))"

lemma checksum_str_value:
  assumes "0 \<le> c" "c < 256"
  shows "supplied_checksum (calculated_checksum_str c @ r) = Inr c"
proof -
  have "c div 100 \<in> {0..9}" "c div 10 mod 10 \<in> {0..9}" "c mod 10 \<in> {0..9}"
    using assms by auto
  then have "sint (word_of_int (48 + c div 100) :: byte) = 48 + c div 100"
    "sint (word_of_int (48 + c div 10 mod 10) :: byte) = 48 + c div 10 mod 10"
    "sint (word_of_int (48 + c mod 10) :: byte) = 48 + c mod 10"
    by (intro digit_byte_int; simp)+
  moreover have "c div 100 * 100 + (c div 10 mod 10) * 10 + c mod 10 = c"
  proof -
    have "c div 100 = c div 10 div 10" by (simp add: zdiv_zmult2_eq[symmetric])
    then show ?thesis using div_mult_mod_eq[of "c div 10" 10] div_mult_mod_eq[of c 10] by linarith
  qed
  ultimately show ?thesis
    by (simp add: supplied_checksum_def calculated_checksum_str_def c_read_def)
qed

lemma byte_sum_bounds: "0 \<le> byte_sum m \<and> byte_sum m < 256"
  by (simp add: byte_sum_def)

lemma soh_not_in_checksum_str: "0 \<le> c \<Longrightarrow> c < 256 \<Longrightarrow> SOH \<notin> set (calculated_checksum_str c)"
proof -
  assume c: "0 \<le> c" "c < 256"
  have nz: "word_of_int (48 + d) \<noteq> SOH" if "0 \<le> d" "d < 10" for d :: int
  proof
    assume "word_of_int (48 + d) = SOH"
    then have "sint SOH = 48 + d" using digit_byte_int[OF that] by metis
    with that show False by (simp add: SOH_def)
  qed
  have "c div 100 \<in> {0..9}" "c div 10 mod 10 \<in> {0..9}" "c mod 10 \<in> {0..9}" using c by auto
  then have "word_of_int (48 + c div 100) \<noteq> SOH" "word_of_int (48 + c div 10 mod 10) \<noteq> SOH"
    "word_of_int (48 + c mod 10) \<noteq> SOH" by (intro nz; simp)+
  then show ?thesis by (auto simp: calculated_checksum_str_def)
qed

lemma decimal_10: "decimal 10 = [49, 48]"
  by (simp add: decimal.simps)

lemma encode_message_wf:
  assumes h: "fix_header h" and fs: "fs \<noteq> []" "\<forall>f\<in>set fs. wf_field f"
    and short: "length (fields_bytes fs) < 2 ^ 31"
  defines "ld \<equiv> decimal (length (fields_bytes fs))"
    and "all \<equiv> fs @ [checksum_field (encode_body h fs)]"
  shows "wf_message h ld all" and "message_bytes h ld all = encode_message h fs"
    and "message_checksum h ld all = Inr (message_sum h ld all)"
    and "message_sum h ld all = byte_sum (encode_body h fs)"
proof -
  let ?c = "checksum_field (encode_body h fs)"
  have val: "all_digits ld" "num_value 0 ld = int (length (fields_bytes fs))"
    using decimal_value by (auto simp: ld_def)
  have "fields_bytes fs \<noteq> []" using fs(1) by (cases fs) (auto simp: field_bytes_def)
  have c: "wf_field ?c" "length (field_bytes ?c) = 7"
    using decimal_value[of 10] soh_not_in_checksum_str byte_sum_bounds
    by (auto simp: checksum_field_def wf_field_def decimal_10 calculated_checksum_str_def)
  show wf: "wf_message h ld all"
    using h val fs short c \<open>fields_bytes fs \<noteq> []\<close> by (auto simp: wf_message_def all_def)
  show msg: "message_bytes h ld all = encode_message h fs"
    by (simp add: message_bytes_def encode_message_def encode_body_def all_def ld_def)
  have len: "length (encode_message h fs) = length (encode_body h fs) + 7"
    using c(2) by (simp add: encode_message_def)
  show sum: "message_sum h ld all = byte_sum (encode_body h fs)"
    unfolding message_sum_def msg len by (simp add: encode_message_def)
  have "drop (length (encode_message h fs) - 4) (encode_message h fs) =
      calculated_checksum_str (byte_sum (encode_body h fs)) @ [SOH]"
    unfolding len by (simp add: encode_message_def checksum_field_def field_bytes_def decimal_10)
  then show "message_checksum h ld all = Inr (message_sum h ld all)"
    unfolding message_checksum_def sum msg using checksum_str_value byte_sum_bounds by auto
qed

subsection \<open>Properties\<close>

text \<open>
  C2: the checksum computed eight bytes at a time, with the remaining bytes added as signed
  characters, is the sum of all bytes as unsigned numbers modulo 256.
\<close>

theorem calculate_checksum_is_byte_sum:
  assumes "0 \<le> n" and "n \<le> int (length buf)"
  shows "calculate_checksum buf n = Inr ((\<Sum>b \<leftarrow> take (nat n) buf. uint b) mod 256)"
  using calculate_checksum_byte_sum[OF assms] by (simp add: byte_sum_def)

theorem calculate_checksum_is_byte_sum_witness:
  "calculate_checksum [200, 200, 3, 4, 5, 6, 7, 8, 255, 2] 9 = Inr 176"
  using calculate_checksum_is_byte_sum[of 9 "[200, 200, 3, 4, 5, 6, 7, 8, 255, 2]"] by simp

text \<open>The callback that records every field it is given.\<close>

definition log_tag :: "(int \<times> byte list) list tag_callback" where
  "log_tag ctx tag v n = Inr (ctx @ [(tag, take (nat n) v)])"

lemma run_fields_log:
  "\<not> opt_report_calculated_checksum options \<Longrightarrow> prefix (fields_bytes fs) mem \<Longrightarrow>
     run_fields (deliver_field options s log_tag) mem fs ctx =
       Inr (ctx @ map (\<lambda>f. (num_value 0 (fst f), snd f)) fs)"
proof (induction fs arbitrary: mem ctx)
  case (Cons f fs)
  then have "prefix (field_bytes f @ fields_bytes fs) mem" by simp
  then obtain r where mem: "mem = field_bytes f @ fields_bytes fs @ r" by (auto simp: prefix_def)
  have "drop (length (fst f) + 1) mem = snd f @ SOH # fields_bytes fs @ r"
    by (simp add: mem field_bytes_def)
  moreover have "drop (length (field_bytes f)) mem = fields_bytes fs @ r" by (simp only: mem) simp
  ultimately show ?case
    using Cons by (simp add: deliver_field_def log_tag_def del: length_field_bytes)
qed simp

lemma run_fields_total_log: "\<exists>c. run_fields (deliver_field options s log_tag) mem fs ctx = Inr c"
  by (induction fs arbitrary: mem ctx) (auto simp: deliver_field_def log_tag_def)

text \<open>
  C3: round trip. Parsing the bytes of an encoded message, whatever follows them in the buffer,
  succeeds, consumes exactly the message and hands the callback every field in order, each with
  its tag number and its value, the checksum field last.
\<close>

theorem parse_encode_message:
  assumes "fix_header h" and "fs \<noteq> []" and "\<forall>f\<in>set fs. wf_field f"
    and "length (fields_bytes fs) < 2 ^ 31"
  shows "vmars_fix_parse_msg (encode_message h fs @ rest)
      (int (length (encode_message h fs @ rest))) [] None log_tag None 0 =
    Inr (\<lparr>pr_result = 0, pr_bytes_consumed = int (length (encode_message h fs))\<rparr>,
      map (\<lambda>f. (num_value 0 (fst f), snd f)) fs @
        [(10, calculated_checksum_str (byte_sum (encode_body h fs)))])"
proof -
  let ?ld = "decimal (length (fields_bytes fs))" and ?all = "fs @ [checksum_field (encode_body h fs)]"
  note E = encode_message_wf[OF assms]
  have "prefix (fields_bytes ?all) (drop (12 + length ?ld + 1) (encode_message h fs @ rest))"
    using E(2)[symmetric] assms(1) by (simp add: message_bytes_def)
  then have run: "run_fields (deliver_field 0 s log_tag) (drop (12 + length ?ld + 1) (encode_message h fs @ rest))
      ?all [] = Inr (map (\<lambda>f. (num_value 0 (fst f), snd f)) ?all)" for s
    using run_fields_log[of 0 ?all _ s "[]"] by (simp add: opt_report_calculated_checksum_def)
  have ten: "num_value 0 (fst (checksum_field m)) = 10" for m
    using decimal_value[of 10] by (simp add: checksum_field_def)
  show ?thesis
    using parse_message[OF E(1) _ _ _ E(3), of "encode_message h fs @ rest" _ "[]" None log_tag None 0]
      E(2) run ten
    by (simp add: Let_def parse_result_def checksum_field_def)
qed

text \<open>A small NewOrderSingle, used by the witnesses: type D, order id A1.\<close>

definition sample_fields :: "field list" where
  "sample_fields = [([51, 53], [68]), ([49, 49], [65, 49])]"

lemma sample_fields_wf:
  "sample_fields \<noteq> []" "\<forall>f\<in>set sample_fields. wf_field f"
  "length (fields_bytes sample_fields) = 11"
  by (auto simp: sample_fields_def wf_field_def is_digit_def SOH_def)

lemma sample_header: "fix_header INITIAL_HEADER_42"
  by (simp add: fix_header_def)

theorem parse_encode_message_witness:
  "vmars_fix_parse_msg (encode_message INITIAL_HEADER_42 sample_fields @ [56, 61])
      (int (length (encode_message INITIAL_HEADER_42 sample_fields @ [56, 61]))) [] None log_tag None 0 =
    Inr (\<lparr>pr_result = 0, pr_bytes_consumed = int (length (encode_message INITIAL_HEADER_42 sample_fields))\<rparr>,
      [(35, [68]), (11, [65, 49]),
       (10, calculated_checksum_str (byte_sum (encode_body INITIAL_HEADER_42 sample_fields)))])"
  using parse_encode_message[OF sample_header sample_fields_wf(1,2), of "[56, 61]"] sample_fields_wf(3)
  by (simp add: sample_fields_def)

text \<open>
  C4: memory safety. Whatever bytes the buffer holds and whatever length up to the buffer's
  is passed, the parser with a callback that reads only the value it is given makes no access
  outside the buffer: the only undefined behaviour it can reach is the overflow of a number.
\<close>

theorem parse_memory_safe:
  assumes "\<And>ctx tag v n. 0 \<le> n \<Longrightarrow> n \<le> int (length v) \<Longrightarrow> v \<noteq> [] \<Longrightarrow> in_bounds (tagp ctx tag v n)"
    and "len \<le> int (length buf)"
  shows "case vmars_fix_parse_msg buf len ctx startp tagp endp options of
      Inl e \<Rightarrow> e = SignedOverflow | Inr _ \<Rightarrow> True"
proof -
  have "callback_in_bounds tagp" using assms(1) by (auto simp: callback_in_bounds_def)
  from parse_in_bounds[OF this assms(2), of ctx startp endp options] show ?thesis
    by (cases "vmars_fix_parse_msg buf len ctx startp tagp endp options")
       (auto simp: in_bounds_def intro: fault.exhaust)
qed

theorem parse_memory_safe_witness:
  "case vmars_fix_parse_msg [56, 61, 70, 73, 88, 46, 52, 46, 50, 1, 57, 61, 53] 13 [] None log_tag None 0 of
      Inl e \<Rightarrow> e = SignedOverflow | Inr _ \<Rightarrow> True"
  by (rule parse_memory_safe) (simp_all add: log_tag_def)

text \<open>
  C5: soundness. When the parser succeeds (with checksum validation on), the bytes it consumed
  are a well-formed message: a known header, a BodyLength that is the length of the fields
  before the last seven bytes, well-formed fields, and three checksum digits whose value is the
  byte sum of everything before the last seven bytes.
\<close>

theorem parse_success_is_message:
  assumes "vmars_fix_parse_msg buf len ctx startp tagp endp options = Inr (r, c)"
    and "0 \<le> len" and "len \<le> int (length buf)"
    and "pr_result r = 0" and "options AND FIX_OPT_SKIP_VERIFY_CHECKSUM = 0"
  shows "\<exists>h ld fs. wf_message h ld fs \<and>
    take (nat (pr_bytes_consumed r)) buf = message_bytes h ld fs \<and>
    message_checksum h ld fs = Inr (message_sum h ld fs)"
  using parse_sound[OF assms(1-4)] assms(5) by (simp add: opt_validate_checksum_def)

theorem parse_success_is_message_witness:
  "\<exists>h ld fs. wf_message h ld fs \<and>
    take (length (encode_message INITIAL_HEADER_42 sample_fields))
      (encode_message INITIAL_HEADER_42 sample_fields) = message_bytes h ld fs \<and>
    message_checksum h ld fs = Inr (message_sum h ld fs)"
proof -
  let ?m = "encode_message INITIAL_HEADER_42 sample_fields"
  note E = encode_message_wf[OF sample_header sample_fields_wf(1,2)]
  obtain c where "vmars_fix_parse_msg ?m (int (length ?m)) [] None log_tag None 0 =
      Inr (\<lparr>pr_result = 0, pr_bytes_consumed = int (length ?m)\<rparr>, c)"
  proof -
    have "\<exists>c. run_fields (deliver_field 0 s log_tag) mem fs [] = Inr c" for s mem fs
      by (rule run_fields_total_log)
    then show ?thesis using that
      parse_message[OF E(1) _ _ _ E(3), of ?m "int (length ?m)" "[]" None log_tag None 0] E(2) sample_fields_wf(3)
      by (simp add: Let_def parse_result_def) (metis and_then_Inr)
  qed
  from parse_success_is_message[OF this] show ?thesis by simp
qed

text \<open>
  C6: a proper prefix of a well-formed message, as a TCP segment may end with, is reported as
  too short: no callback runs, the context is unchanged and every byte is consumed.
\<close>

theorem parse_proper_prefix:
  assumes "wf_message h ld fs" and "k < length (message_bytes h ld fs)"
  shows "vmars_fix_parse_msg (take k (message_bytes h ld fs)) (int k) ctx startp tagp endp options =
    Inr (\<lparr>pr_result = FIX_EMESSAGETOOSHORT, pr_bytes_consumed = int k\<rparr>, ctx)"
  using parse_prefix[OF assms, of "take k (message_bytes h ld fs)"] assms(2)
  by (simp add: parse_result_def)

theorem parse_proper_prefix_witness:
  "vmars_fix_parse_msg (take 20 (message_bytes INITIAL_HEADER_42 [53] [([51, 53], [68]), ([49, 48], [48, 48, 49])]))
     20 [] None log_tag None 0 =
    Inr (\<lparr>pr_result = FIX_EMESSAGETOOSHORT, pr_bytes_consumed = 20\<rparr>, [])"
  using parse_proper_prefix[of INITIAL_HEADER_42 "[53]" "[([51, 53], [68]), ([49, 48], [48, 48, 49])]" 20]
  by (simp add: wf_message_def fix_header_def is_digit_def wf_field_def message_bytes_def SOH_def)

text \<open>
  The number of consumed bytes is between 0 and the length passed, the code is one of the
  six of the header file, and a message that is too short consumes all the bytes.
\<close>

theorem parse_consumes_within:
  assumes "vmars_fix_parse_msg buf len ctx startp tagp endp options = Inr (r, c)"
    and "0 \<le> len" and "len \<le> int (length buf)"
  shows "0 \<le> pr_bytes_consumed r \<and> pr_bytes_consumed r \<le> len \<and>
    pr_result r \<in> {0, FIX_EMESSAGETOOSHORT, FIX_ECHECKSUMINVALID, FIX_ETAGINVALID,
      FIX_EEMPTYVALUE, FIX_EINVALIDTYPE} \<and>
    (pr_result r = FIX_EMESSAGETOOSHORT \<longrightarrow> pr_bytes_consumed r = len)"
  using parse_consumed[OF assms] .

theorem parse_consumes_within_witness:
  "0 \<le> pr_bytes_consumed \<lparr>pr_result = FIX_EMESSAGETOOSHORT, pr_bytes_consumed = 2\<rparr> \<and>
   vmars_fix_parse_msg [56, 61] 2 [] None log_tag None 0 =
     Inr (\<lparr>pr_result = FIX_EMESSAGETOOSHORT, pr_bytes_consumed = 2\<rparr>, [])"
proof -
  have p: "vmars_fix_parse_msg [56, 61] 2 [] None log_tag None 0 =
     Inr (\<lparr>pr_result = FIX_EMESSAGETOOSHORT, pr_bytes_consumed = 2\<rparr>, [])"
    by (simp add: vmars_fix_parse_msg_def INITIAL_HEADER_LEN_def parse_result_def)
  from parse_consumes_within[OF this] p show ?thesis by simp
qed

text \<open>
  C8: the BodyLength is accumulated in an \<open>int\<close> without a check, so a message whose
  BodyLength is 2^31 or more overflows a signed integer before any other check is made.
\<close>

theorem parse_body_length_overflow:
  assumes "fix_header h" and "all_digits ds" and "2 ^ 31 \<le> num_value 0 ds"
    and "prefix (h @ ds) buf" and "12 + int (length ds) \<le> len" and "len \<le> int (length buf)"
  shows "vmars_fix_parse_msg buf len ctx startp tagp endp options = Inl SignedOverflow"
proof -
  have "prefix h buf" "prefix ds (drop 12 buf)" using assms(1,4) by (auto simp: prefix_def)
  moreover from this have "number_loop SOH buf len 12 0 = Inl SignedOverflow"
    using assms by (intro number_loop_overflow[of ds]) auto
  ultimately show ?thesis using assms parse_msg_header[OF assms(1), of buf len] by simp
qed

theorem parse_body_length_overflow_witness:
  "vmars_fix_parse_msg (INITIAL_HEADER_42 @ [52, 50, 57, 52, 57, 54, 55, 50, 57, 54]) 22 [] None log_tag None 0
    = Inl SignedOverflow"
  using parse_body_length_overflow[of INITIAL_HEADER_42 "[52, 50, 57, 52, 57, 54, 55, 50, 57, 54]"
      "INITIAL_HEADER_42 @ [52, 50, 57, 52, 57, 54, 55, 50, 57, 54]" 22]
  by (simp add: fix_header_def is_digit_def)

end
