(* ===== verification/Fix_Details.thy ===== *)
theory Fix_Details
  imports Capture_Context Fix_Message
begin

text \<open>
  The details of a FIX message that \<^verbatim>\<open>src/fix.c\<close> collects in its tag callback, and the
  summary of \<^verbatim>\<open>src/fix.h\<close> that it writes to the ring buffer for the latency thread.
\<close>

subsection \<open>State\<close>

record fix_str =
  str_s :: "byte list option"
  str_len :: int

record fix_details =
  message_type :: int
  ord_status :: byte
  exec_type :: byte
  quote_status :: int
  sender_comp_id :: fix_str
  cl_ord_id :: fix_str
  target_comp_id :: fix_str
  symbol :: fix_str
  security_id :: fix_str

definition null_str :: fix_str where
  "null_str = \<lparr>str_s = None, str_len = 0\<rparr>"

text \<open>\<open>memset (fix_details, 0, sizeof (fix_details_t))\<close>.\<close>

definition details_zero :: fix_details where
  "details_zero = \<lparr>message_type = 0, ord_status = 0, exec_type = 0, quote_status = 0,
     sender_comp_id = null_str, cl_ord_id = null_str, target_comp_id = null_str,
     symbol = null_str, security_id = null_str\<rparr>"

definition FIX_CL_ORD_ID :: int where "FIX_CL_ORD_ID = 11"
definition FIX_MSG_TYPE :: int where "FIX_MSG_TYPE = 35"
definition FIX_SECURITY_ID :: int where "FIX_SECURITY_ID = 48"
definition FIX_SENDER_COMP_ID :: int where "FIX_SENDER_COMP_ID = 49"
definition FIX_SYMBOL :: int where "FIX_SYMBOL = 55"
definition FIX_TARGET_COMP_ID :: int where "FIX_TARGET_COMP_ID = 56"
definition FIX_QUOTE_ID :: int where "FIX_QUOTE_ID = 117"
definition FIX_EXEC_TYPE :: int where "FIX_EXEC_TYPE = 150"
definition FIX_QUOTE_STATUS :: int where "FIX_QUOTE_STATUS = 297"
definition FIX_UNDERLYING_SECURITY_ID :: int where "FIX_UNDERLYING_SECURITY_ID = 309"
definition FIX_UNDERLYING_SYMBOL :: int where "FIX_UNDERLYING_SYMBOL = 311"
definition FIX_EXEC_TYPE_NEW :: byte where "FIX_EXEC_TYPE_NEW = 48"
definition FIX_QUOTE_STATUS_ACCEPTED :: int where "FIX_QUOTE_STATUS_ACCEPTED = 0"

lemmas fix_tags = FIX_CL_ORD_ID_def FIX_MSG_TYPE_def FIX_SECURITY_ID_def FIX_SENDER_COMP_ID_def
  FIX_SYMBOL_def FIX_TARGET_COMP_ID_def FIX_QUOTE_ID_def FIX_EXEC_TYPE_def FIX_QUOTE_STATUS_def
  FIX_UNDERLYING_SECURITY_ID_def FIX_UNDERLYING_SYMBOL_def

subsection \<open>The tag callback\<close>

text \<open>\<open>temp\<close> holds the copied bytes and the NUL behind them.\<close>

definition str2int :: "byte list \<Rightarrow> nat \<Rightarrow> int res" where
  "str2int c len =
     (if len > 31 then Inr (-1)
      else and_then (c_strncpy c len) (\<lambda>temp. c_atoi (temp @ [0])))"

definition fix_str_of :: "byte list \<Rightarrow> int \<Rightarrow> fix_str" where
  "fix_str_of v len = \<lparr>str_s = Some v, str_len = len\<rparr>"

definition handle_tag :: "fix_details tag_callback" where
  "handle_tag d fix_tag fix_value len =
     (if fix_tag = FIX_MSG_TYPE then
        (if len = 1 then
           and_then (c_read fix_value 0) (\<lambda>c. Inr (d\<lparr>message_type := sint c\<rparr>))
         else if len = 2 then
           and_then (c_read fix_value 0) (\<lambda>c0. and_then (c_read fix_value 1) (\<lambda>c1.
             Inr (d\<lparr>message_type := INT_OF c0 c1\<rparr>)))
         else Inr d)
      else if fix_tag = FIX_EXEC_TYPE then
        and_then (c_read fix_value 0) (\<lambda>c. Inr (d\<lparr>exec_type := c\<rparr>))
      else if fix_tag = FIX_QUOTE_STATUS then
        and_then (str2int fix_value (int_to_size len)) (\<lambda>q. Inr (d\<lparr>quote_status := q\<rparr>))
      else if fix_tag = FIX_CL_ORD_ID then Inr (d\<lparr>cl_ord_id := fix_str_of fix_value len\<rparr>)
      else if fix_tag = FIX_QUOTE_ID then Inr (d\<lparr>cl_ord_id := fix_str_of fix_value len\<rparr>)
      else if fix_tag = FIX_SENDER_COMP_ID then Inr (d\<lparr>sender_comp_id := fix_str_of fix_value len\<rparr>)
      else if fix_tag = FIX_TARGET_COMP_ID then Inr (d\<lparr>target_comp_id := fix_str_of fix_value len\<rparr>)
      else if fix_tag = FIX_SYMBOL then Inr (d\<lparr>symbol := fix_str_of fix_value len\<rparr>)
      else if fix_tag = FIX_SECURITY_ID then Inr (d\<lparr>security_id := fix_str_of fix_value len\<rparr>)
      else if fix_tag = FIX_UNDERLYING_SECURITY_ID then Inr (d\<lparr>security_id := fix_str_of fix_value len\<rparr>)
      else if fix_tag = FIX_UNDERLYING_SYMBOL then Inr (d\<lparr>symbol := fix_str_of fix_value len\<rparr>)
      else Inr d)"

subsection \<open>The summary\<close>

definition SIZEOF_SUMMARY :: nat where "SIZEOF_SUMMARY = 24"

text \<open>\<open>'|'\<close>\<close>

definition BAR :: byte where "BAR = 124"

text \<open>Whether a message is measured, and its remote, local and instruction identifiers.\<close>

definition latency_ids :: "fix_details \<Rightarrow> bool \<times> fix_str \<times> fix_str \<times> fix_str" where
  "latency_ids d =
     (if message_type d = MSG_TYPE_NEW_ORDER_SINGLE \<or> message_type d = MSG_TYPE_MASS_QUOTE \<or>
         message_type d = MSG_TYPE_TRACE_REQ
      then (True, sender_comp_id d, target_comp_id d, cl_ord_id d)
      else if message_type d = MSG_TYPE_EXECUTION_REPORT
      then (exec_type d = FIX_EXEC_TYPE_NEW, target_comp_id d, sender_comp_id d, cl_ord_id d)
      else if message_type d = MSG_TYPE_MASS_QUOTE_ACK
      then (quote_status d = FIX_QUOTE_STATUS_ACCEPTED, target_comp_id d, sender_comp_id d, cl_ord_id d)
      else if message_type d = MSG_TYPE_TRACE_RSP
      then (True, target_comp_id d, sender_comp_id d, cl_ord_id d)
      else (False, null_str, null_str, null_str))"

definition instrument_id :: "fix_details \<Rightarrow> fix_str" where
  "instrument_id d =
     (if str_len (symbol d) \<noteq> 0 then symbol d
      else if str_len (security_id d) \<noteq> 0 then security_id d else null_str)"

text \<open>\<open>strncpy (dst, s.s, s.len)\<close> into the claimed record; nothing is read from a NULL.\<close>

definition str_bytes :: "fix_str \<Rightarrow> byte list res" where
  "str_bytes s =
     (case str_s s of
        None \<Rightarrow> (if str_len s = 0 then Inr [] else Inl OutOfBounds)
      | Some p \<Rightarrow> c_strncpy p (int_to_size (str_len s)))"

definition rb_strncpy :: "vmars_spsc_rb \<Rightarrow> nat \<Rightarrow> fix_str \<Rightarrow> vmars_spsc_rb res" where
  "rb_strncpy rb dst s = and_then (str_bytes s) (rb_write rb dst)"

definition process_for_latency_measurement ::
    "vmars_capture_context \<Rightarrow> 32 word \<Rightarrow> 32 word \<Rightarrow> fix_details \<Rightarrow> vmars_capture_context res" where
  "process_for_latency_measurement ctx tv_sec tv_nsec d =
     (let (should_process, remote_id, local_id, instruction) = latency_ids d in
      if \<not> should_process then Inr ctx
      else
        let ctx1 = ctx\<lparr>ctx_counters := record_message_type_counter (ctx_counters ctx) (message_type d)\<rparr>;
            instrument = instrument_id d in
        and_then (c_int (str_len remote_id + 1 + str_len local_id + 1 + str_len instruction + 1
                          + str_len instrument + 1)) (\<lambda>key_len.
        and_then (vmars_spsc_rb_claim (ctx_rb ctx1) (of_nat SIZEOF_SUMMARY + word_of_int key_len)) (\<lambda>(p, rb1).
          case p of
            None \<Rightarrow> Inr (ctx1\<lparr>ctx_rb := rb1\<rparr>)
          | Some record \<Rightarrow>
              let summary = record + SIZEOF_RECORD; key = summary + SIZEOF_SUMMARY in
              and_then (rb_write rb1 summary
                (le_bytes 8 (uint tv_sec) @ le_bytes 8 (uint tv_nsec) @
                 le_bytes 4 (message_type d) @ le_bytes 4 (key_len - 1))) (\<lambda>rb2.
              and_then (rb_strncpy rb2 key remote_id) (\<lambda>rb3.
              let offset = key + nat (str_len remote_id) in
              and_then (rb_write rb3 offset [BAR]) (\<lambda>rb4.
              let offset = offset + 1 in
              and_then (rb_strncpy rb4 offset local_id) (\<lambda>rb5.
              let offset = offset + nat (str_len local_id) in
              and_then (rb_write rb5 offset [BAR]) (\<lambda>rb6.
              let offset = offset + 1 in
              and_then (rb_strncpy rb6 offset instruction) (\<lambda>rb7.
              let offset = offset + nat (str_len instruction) in
              and_then (rb_write rb7 offset [BAR]) (\<lambda>rb8.
              let offset = offset + 1 in
              and_then (rb_strncpy rb8 offset instrument) (\<lambda>rb9.
              let offset = offset + nat (str_len instrument) in
              and_then (rb_write rb9 offset [0]) (\<lambda>rb10.
              and_then (vmars_spsc_rb_publish rb10 record) (\<lambda>(code, rb11).
                Inr (ctx1\<lparr>ctx_rb := rb11\<rparr>))))))))))))))"

subsection \<open>What is written to the ring\<close>

text \<open>The bytes of a summary with the given key, and the key of the four identifiers.\<close>

definition summary_bytes :: "32 word \<Rightarrow> 32 word \<Rightarrow> int \<Rightarrow> byte list \<Rightarrow> byte list" where
  "summary_bytes tv_sec tv_nsec msg_type key =
     le_bytes 8 (uint tv_sec) @ le_bytes 8 (uint tv_nsec) @ le_bytes 4 msg_type @
     le_bytes 4 (int (length key)) @ key @ [0]"

definition latency_key :: "byte list \<Rightarrow> byte list \<Rightarrow> byte list \<Rightarrow> byte list \<Rightarrow> byte list" where
  "latency_key remote local instruction instrument =
     remote @ BAR # local @ BAR # instruction @ BAR # instrument"

definition str_ok :: "fix_str \<Rightarrow> byte list \<Rightarrow> bool" where
  "str_ok s b \<longleftrightarrow> str_bytes s = Inr b \<and> str_len s = int (length b)"

lemma null_str_simps [simp]: "str_bytes null_str = Inr []" "str_len null_str = 0"
  by (simp_all add: str_bytes_def null_str_def)

lemma str_ok_null [simp]: "str_ok null_str []"
  by (simp add: str_ok_def)

lemma str_ok_null_iff [simp]: "str_ok null_str b \<longleftrightarrow> b = []"
  by (auto simp: str_ok_def str_bytes_def null_str_def)

lemma str_ok_of:
  assumes "0 \<le> n" "n < 2 ^ 31" "nat n \<le> length v" "0 \<notin> set (take (nat n) v)"
  shows "str_ok (fix_str_of v n) (take (nat n) v)"
  using assms by (simp add: str_ok_def str_bytes_def fix_str_of_def int_to_size_in c_strncpy_take)

lemma claimed_write_at:
  assumes "rb_claimed n rb rs a q bs" and "dst = a + length bs" and "length bs + length cs \<le> q"
  shows "\<exists>rb'. rb_write rb dst cs = Inr rb' \<and> rb_claimed n rb' rs a q (bs @ cs)"
  using claimed_write[OF assms(1,3)] assms(2) by auto

lemma claimed_strncpy:
  assumes "rb_claimed n rb rs a q bs" and "dst = a + length bs" and "str_ok s b"
    and "length bs + length b \<le> q"
  shows "\<exists>rb'. rb_strncpy rb dst s = Inr rb' \<and> rb_claimed n rb' rs a q (bs @ b)"
  using claimed_write_at[OF assms(1,2,4)] assms(3) by (simp add: rb_strncpy_def str_ok_def)

text \<open>An identifier and the character behind it.\<close>

lemma claimed_piece:
  assumes "rb_claimed n rb rs a q bs" and "dst = a + length bs" and "str_ok s b"
    and "length bs + length b + 1 \<le> q"
  shows "\<exists>rb' rb''. rb_strncpy rb dst s = Inr rb' \<and> rb_write rb' (dst + length b) [c] = Inr rb'' \<and>
    rb_claimed n rb'' rs a q (bs @ b @ [c])"
proof -
  from claimed_strncpy[OF assms(1-3)] assms(4) obtain rb'
    where "rb_strncpy rb dst s = Inr rb'" "rb_claimed n rb' rs a q (bs @ b)" by auto
  with claimed_write_at[OF this(2), of "dst + length b" "[c]"] assms(2,4) show ?thesis by auto
qed

text \<open>The writes of a claimed record and its publication.\<close>

lemma process_writes:
  assumes c: "rb_claimed n rb1 rs a (SIZEOF_RECORD + length payload) (le_bytes 4 (int (length payload)))"
    and ok: "str_ok remote b1" "str_ok local b2" "str_ok instruction b3" "str_ok instrument b4"
    and payload: "payload = summary_bytes tv_sec tv_nsec t (latency_key b1 b2 b3 b4)"
    and key_len: "key_len = int (length (latency_key b1 b2 b3 b4)) + 1"
    and key: "key = a + SIZEOF_RECORD + SIZEOF_SUMMARY"
  shows "\<exists>rb2 rb3 rb4 rb5 rb6 rb7 rb8 rb9 rb10 rb11.
    rb_write rb1 (a + SIZEOF_RECORD) (le_bytes 8 (uint tv_sec) @ le_bytes 8 (uint tv_nsec) @
      le_bytes 4 t @ le_bytes 4 (key_len - 1)) = Inr rb2 \<and>
    rb_strncpy rb2 key remote = Inr rb3 \<and>
    rb_write rb3 (key + nat (str_len remote)) [BAR] = Inr rb4 \<and>
    rb_strncpy rb4 (key + nat (str_len remote) + 1) local = Inr rb5 \<and>
    rb_write rb5 (key + nat (str_len remote) + 1 + nat (str_len local)) [BAR] = Inr rb6 \<and>
    rb_strncpy rb6 (key + nat (str_len remote) + 1 + nat (str_len local) + 1) instruction = Inr rb7 \<and>
    rb_write rb7 (key + nat (str_len remote) + 1 + nat (str_len local) + 1
      + nat (str_len instruction)) [BAR] = Inr rb8 \<and>
    rb_strncpy rb8 (key + nat (str_len remote) + 1 + nat (str_len local) + 1
      + nat (str_len instruction) + 1) instrument = Inr rb9 \<and>
    rb_write rb9 (key + nat (str_len remote) + 1 + nat (str_len local) + 1
      + nat (str_len instruction) + 1 + nat (str_len instrument)) [0] = Inr rb10 \<and>
    vmars_spsc_rb_publish rb10 a = Inr (0, rb11) \<and> rb_holds n rb11 (rs @ [payload]) 0"
proof -
  let ?h = "le_bytes 8 (uint tv_sec) @ le_bytes 8 (uint tv_nsec) @ le_bytes 4 t @ le_bytes 4 (key_len - 1)"
  let ?q = "SIZEOF_RECORD + length payload"
  have h24: "length ?h = 24" by simp
  have sizes: "length payload = 28 + length b1 + length b2 + length b3 + length b4"
    by (simp add: payload summary_bytes_def latency_key_def)
  have lens: "nat (str_len remote) = length b1" "nat (str_len local) = length b2"
    "nat (str_len instruction) = length b3" "nat (str_len instrument) = length b4"
    using ok by (simp_all add: str_ok_def)
  note szs = SIZEOF_RECORD_def SIZEOF_SUMMARY_def key sizes lens h24
  let ?l = "le_bytes 4 (int (length payload)) @ ?h"
  obtain rb2 where w2: "rb_write rb1 (a + SIZEOF_RECORD) ?h = Inr rb2"
    and c2: "rb_claimed n rb2 rs a ?q ?l"
    using claimed_write_at[OF c, of "a + SIZEOF_RECORD" ?h] by (auto simp: szs)
  obtain rb3 rb4 where w3: "rb_strncpy rb2 key remote = Inr rb3" "rb_write rb3 (key + length b1) [BAR] = Inr rb4"
    and c4: "rb_claimed n rb4 rs a ?q (?l @ b1 @ [BAR])"
    using claimed_piece[OF c2 _ ok(1), of key BAR] by (auto simp: szs)
  obtain rb5 rb6 where w5: "rb_strncpy rb4 (key + length b1 + 1) local = Inr rb5"
      "rb_write rb5 (key + length b1 + 1 + length b2) [BAR] = Inr rb6"
    and c6: "rb_claimed n rb6 rs a ?q ((?l @ b1 @ [BAR]) @ b2 @ [BAR])"
    using claimed_piece[OF c4 _ ok(2), of "key + length b1 + 1" BAR] by (auto simp: szs)
  obtain rb7 rb8 where w7: "rb_strncpy rb6 (key + length b1 + 1 + length b2 + 1) instruction = Inr rb7"
      "rb_write rb7 (key + length b1 + 1 + length b2 + 1 + length b3) [BAR] = Inr rb8"
    and c8: "rb_claimed n rb8 rs a ?q (((?l @ b1 @ [BAR]) @ b2 @ [BAR]) @ b3 @ [BAR])"
    using claimed_piece[OF c6 _ ok(3), of "key + length b1 + 1 + length b2 + 1" BAR] by (auto simp: szs)
  obtain rb9 rb10 where w9: "rb_strncpy rb8 (key + length b1 + 1 + length b2 + 1 + length b3 + 1) instrument = Inr rb9"
      "rb_write rb9 (key + length b1 + 1 + length b2 + 1 + length b3 + 1 + length b4) [0] = Inr rb10"
    and c10: "rb_claimed n rb10 rs a ?q ((((?l @ b1 @ [BAR]) @ b2 @ [BAR]) @ b3 @ [BAR]) @ b4 @ [0])"
    using claimed_piece[OF c8 _ ok(4), of "key + length b1 + 1 + length b2 + 1 + length b3 + 1" 0]
    by (auto simp: szs)
  have "(((?l @ b1 @ [BAR]) @ b2 @ [BAR]) @ b3 @ [BAR]) @ b4 @ [0] = le_bytes 4 (int (length payload)) @ payload"
    by (simp add: payload summary_bytes_def latency_key_def key_len)
  with c10 have "rb_claimed n rb10 rs a ?q (le_bytes 4 (int (length payload)) @ payload)" by simp
  from publish_ok[OF this] obtain rb11 where "vmars_spsc_rb_publish rb10 a = Inr (0, rb11)"
    "rb_holds n rb11 (rs @ [payload]) 0" by blast
  with w2 w3 w5 w7 w9 show ?thesis unfolding lens by blast
qed

lemma ctx_rb_same: "ctx\<lparr>ctx_counters := c, ctx_rb := ctx_rb ctx\<rparr> = (ctx\<lparr>ctx_counters := c\<rparr> :: vmars_capture_context)"
  by (cases ctx) simp

lemma process_ok:
  assumes h: "rb_holds n (ctx_rb ctx) rs 0"
    and ids: "latency_ids d = (True, remote, local, instruction)"
    and ok: "str_ok remote b1" "str_ok local b2" "str_ok instruction b3" "str_ok (instrument_id d) b4"
    and payload: "payload = summary_bytes tv_sec tv_nsec (message_type d) (latency_key b1 b2 b3 b4)"
    and small: "length payload < 2 ^ 31"
  shows "\<exists>rb'. process_for_latency_measurement ctx tv_sec tv_nsec d =
      Inr (ctx\<lparr>ctx_counters := record_message_type_counter (ctx_counters ctx) (message_type d), ctx_rb := rb'\<rparr>) \<and>
    rb_holds n rb' (if rb_room n rs payload then rs @ [payload] else rs) 0"
proof -
  define key_len where "key_len = str_len remote + 1 + str_len local + 1 + str_len instruction + 1
      + str_len (instrument_id d) + 1"
  have kl: "key_len = int (length (latency_key b1 b2 b3 b4)) + 1"
    using ok by (simp add: key_len_def str_ok_def latency_key_def)
  have pl: "length payload = SIZEOF_SUMMARY + nat key_len"
    by (simp add: payload summary_bytes_def SIZEOF_SUMMARY_def kl nat_add_distrib)
  have int_ok: "c_int key_len = Inr key_len" using small kl pl by (intro c_int_in) auto
  have len: "(of_nat SIZEOF_SUMMARY + word_of_int key_len :: size_word) = of_nat (length payload)"
    using kl pl by (simp add: word_of_int_nat)
  show ?thesis
  proof (cases "rb_room n rs payload")
    case True
    then have fits: "length payload + SIZEOF_RECORD + recs_size rs \<le> 2 ^ n"
      by (simp add: rb_room_def rec_size_def)
    from claim_ok[OF h fits] obtain a rb1
      where c: "vmars_spsc_rb_claim (ctx_rb ctx) (of_nat (length payload)) = Inr (Some a, rb1)"
        and c1: "rb_claimed n rb1 rs a (SIZEOF_RECORD + length payload) (le_bytes 4 (int (length payload)))"
      by blast
    from process_writes[OF c1 ok payload kl refl] c True show ?thesis
      unfolding process_for_latency_measurement_def ids Let_def split_conv key_len_def[symmetric]
        int_ok and_then_Inr by (auto simp: len)
  next
    case False
    then have "length payload + SIZEOF_RECORD + recs_size rs > 2 ^ n" by (simp add: rb_room_def rec_size_def)
    from claim_full[OF h _ this] small False h show ?thesis
      unfolding process_for_latency_measurement_def ids Let_def split_conv key_len_def[symmetric]
        int_ok and_then_Inr by (auto simp: len ctx_rb_same intro!: exI[of _ "ctx_rb ctx"])
  qed
qed

lemma process_skips:
  "\<not> fst (latency_ids d) \<Longrightarrow> process_for_latency_measurement ctx tv_sec tv_nsec d = Inr ctx"
  by (cases "latency_ids d") (simp add: process_for_latency_measurement_def)

subsection \<open>Details do not depend on where the message lies\<close>

text \<open>
  Two details are alike when their numbers agree and their strings have the same lengths and the
  same bytes to copy, wherever the strings point.
\<close>

definition str_alike :: "fix_str \<Rightarrow> fix_str \<Rightarrow> bool" where
  "str_alike s t \<longleftrightarrow> str_len s = str_len t \<and> str_bytes s = str_bytes t"

definition details_alike :: "fix_details \<Rightarrow> fix_details \<Rightarrow> bool" where
  "details_alike d e \<longleftrightarrow> message_type d = message_type e \<and> exec_type d = exec_type e \<and>
     quote_status d = quote_status e \<and> str_alike (sender_comp_id d) (sender_comp_id e) \<and>
     str_alike (cl_ord_id d) (cl_ord_id e) \<and> str_alike (target_comp_id d) (target_comp_id e) \<and>
     str_alike (symbol d) (symbol e) \<and> str_alike (security_id d) (security_id e)"

lemma str_alike_refl [simp]: "str_alike s s"
  by (simp add: str_alike_def)

lemma details_alike_refl [simp]: "details_alike d d"
  by (simp add: details_alike_def)

lemma c_strncpy_prefix: "n \<le> length v \<Longrightarrow> prefix v p \<Longrightarrow> c_strncpy p n = c_strncpy v n"
proof (induction v n arbitrary: p rule: c_strncpy.induct)
  case (3 c s n)
  from "3.prems"(2) obtain p' where p: "p = c # p'" "prefix s p'" by (auto simp: prefix_def)
  show ?case
  proof (cases "c = 0")
    case False
    with "3.IH"[OF this _ p(2)] "3.prems"(1) p(1) show ?thesis by simp
  qed (simp add: p(1))
qed auto

lemma str_alike_values:
  assumes "prefix v p" "prefix v q" "length v < 2 ^ 31"
  shows "str_alike (fix_str_of p (int (length v))) (fix_str_of q (int (length v)))"
  using assms c_strncpy_prefix[of "length v" v p] c_strncpy_prefix[of "length v" v q]
  by (simp add: str_alike_def fix_str_of_def str_bytes_def int_to_size_in)

lemma handle_tag_alike:
  assumes d: "details_alike d e" and p: "prefix (v @ [SOH]) p" and q: "prefix (v @ [SOH]) q"
    and v: "length v < 2 ^ 31"
  shows "rel_sum (=) details_alike (handle_tag d t p (int (length v))) (handle_tag e t q (int (length v)))"
proof -
  obtain x p' y q' where pq: "p = x # p'" "q = y # q'" and xy: "x = y"
    using p q by (cases p; cases q; cases v) auto
  have two: "\<exists>c. c_read p 1 = Inr c \<and> c_read q 1 = Inr c" if "int (length v) = 2"
  proof -
    have "length v = Suc (Suc 0)" using that by linarith
    then obtain a b where "v = [a, b]" by (auto simp: length_Suc_conv)
    with p q show ?thesis by (auto simp: prefix_def c_read_def)
  qed
  have pv: "prefix v p" "prefix v q" using p q by (auto dest: append_prefixD)
  have s: "str_alike (fix_str_of p (int (length v))) (fix_str_of q (int (length v)))"
    by (rule str_alike_values[OF pv v])
  have i: "str2int p (int_to_size (int (length v))) = str2int q (int_to_size (int (length v)))"
    using v c_strncpy_prefix[OF le_refl pv(1)] c_strncpy_prefix[OF le_refl pv(2)]
    by (simp add: str2int_def int_to_size_in)
  have r0: "c_read p 0 = Inr x" "c_read q 0 = Inr x" using pq xy by (simp_all add: c_read_def)
  consider (type) "t = FIX_MSG_TYPE" | (exec) "t = FIX_EXEC_TYPE" | (quote) "t = FIX_QUOTE_STATUS"
    | (str) "t \<noteq> FIX_MSG_TYPE" "t \<noteq> FIX_EXEC_TYPE" "t \<noteq> FIX_QUOTE_STATUS" by blast
  then show ?thesis
  proof cases
    case type
    then show ?thesis using d r0 two by (auto simp: handle_tag_def details_alike_def)
  next
    case exec
    then show ?thesis using d r0 by (simp add: handle_tag_def details_alike_def fix_tags)
  next
    case quote
    then show ?thesis using d unfolding handle_tag_def i
      by (cases "str2int q (int_to_size (int (length v)))")
         (simp_all add: details_alike_def fix_tags)
  next
    case str
    then show ?thesis using d s by (simp add: handle_tag_def details_alike_def)
  qed
qed

lemma deliver_plain: "deliver_field 0 s handle_tag = handle_tag"
  by (intro ext) (simp add: deliver_field_def opt_report_calculated_checksum_def)

lemma run_fields_alike:
  assumes "details_alike d e" and "prefix (fields_bytes fs) p" and "prefix (fields_bytes fs) q"
    and "length (fields_bytes fs) < 2 ^ 31"
  shows "rel_sum (=) details_alike (run_fields handle_tag p fs d) (run_fields handle_tag q fs e)"
  using assms
proof (induction fs arbitrary: p q d e)
  case (Cons f fs)
  obtain t v where f: "f = (t, v)" by (cases f)
  have shape: "prefix (v @ [SOH]) (drop (length t + 1) m) \<and> prefix (fields_bytes fs) (drop (length (field_bytes f)) m)"
    if "prefix (fields_bytes (f # fs)) m" for m
    using that f by (auto simp: prefix_def field_bytes_def)
  have "rel_sum (=) details_alike (handle_tag d (num_value 0 t) (drop (length t + 1) p) (int (length v)))
     (handle_tag e (num_value 0 t) (drop (length t + 1) q) (int (length v)))"
    using Cons.prems shape[of p] shape[of q] f by (intro handle_tag_alike) auto
  then show ?case
  proof (cases rule: rel_sum.cases)
    case (1 a c)
    then show ?thesis by (simp add: f)
  next
    case (2 b b')
    moreover have "rel_sum (=) details_alike (run_fields handle_tag (drop (length (field_bytes f)) p) fs b)
        (run_fields handle_tag (drop (length (field_bytes f)) q) fs b')"
      using Cons.prems shape[of p] shape[of q] 2 by (intro Cons.IH) auto
    ultimately show ?thesis by (simp add: f)
  qed
qed simp

lemma rb_strncpy_alike: "str_alike s t \<Longrightarrow> rb_strncpy rb a s = rb_strncpy rb a t"
  by (simp add: str_alike_def rb_strncpy_def)

lemma process_alike:
  assumes "details_alike d e"
  shows "process_for_latency_measurement ctx s ns d = process_for_latency_measurement ctx s ns e"
proof -
  obtain b r l i where d: "latency_ids d = (b, r, l, i)" by (metis prod_cases4)
  obtain b' r' l' i' where e: "latency_ids e = (b', r', l', i')" by (metis prod_cases4)
  have ids: "b = b'" "str_alike r r'" "str_alike l l'" "str_alike i i'"
    using assms d e by (auto simp: latency_ids_def details_alike_def split: if_splits)
  have instr: "str_alike (instrument_id d) (instrument_id e)"
    using assms by (auto simp: instrument_id_def details_alike_def str_alike_def)
  have "message_type d = message_type e" using assms by (simp add: details_alike_def)
  moreover have "str_len r = str_len r'" "str_len l = str_len l'" "str_len i = str_len i'"
    "str_len (instrument_id d) = str_len (instrument_id e)"
    using ids instr by (auto simp: str_alike_def)
  ultimately show ?thesis
    unfolding process_for_latency_measurement_def d e Let_def split_conv
      rb_strncpy_alike[OF ids(2)] rb_strncpy_alike[OF ids(3)] rb_strncpy_alike[OF ids(4)]
      rb_strncpy_alike[OF instr] by (simp only: ids(1))
qed

end
