(* ===== verification/Fix_Extract.thy ===== *)
theory Fix_Extract
  imports Fix_Details
begin

text \<open>
  The extraction of FIX messages from the payload of a TCP packet, \<^verbatim>\<open>src/fix.c\<close>:
  \<open>try_parse_fix_message\<close> and \<open>vmars_extract_fix_messages\<close> with its fragments, and what a
  capture thread does to a stream of messages that is cut into packets.
\<close>

subsection \<open>Definitions\<close>

definition try_parse_fix_message ::
    "vmars_capture_context \<Rightarrow> byte list \<Rightarrow> int \<Rightarrow>
     (vmars_fix_parse_result \<times> fix_details \<times> vmars_capture_context) res" where
  "try_parse_fix_message ctx fix_message fix_message_len =
     and_then (vmars_fix_parse_msg fix_message fix_message_len details_zero None handle_tag None 0)
       (\<lambda>(result, d).
         let c = ctx_counters ctx;
             c' = (if pr_result result = 0
                   then c\<lparr>valid_messages := atomic_release_increment (valid_messages c)\<rparr>
                   else if pr_result result = FIX_EMESSAGETOOSHORT then c
                   else if pr_result result = FIX_ECHECKSUMINVALID
                   then c\<lparr>invalid_checksums := atomic_release_increment (invalid_checksums c)\<rparr>
                   else c\<lparr>parsing_errors := atomic_release_increment (parsing_errors c)\<rparr>)
         in Inr (result, d, ctx\<lparr>ctx_counters := c'\<rparr>))"

text \<open>
  The packet starts with the rest of a fragmented message: \<open>fragment_len\<close> bytes at
  \<open>data\<close>. A fragment that grows is updated in the table before it is parsed.
\<close>

definition leading_fragment ::
    "vmars_capture_context \<Rightarrow> ipv4_stream \<Rightarrow> 32 word \<Rightarrow> 32 word \<Rightarrow> byte list \<Rightarrow> nat \<Rightarrow> nat \<Rightarrow>
     vmars_capture_context res" where
  "leading_fragment ctx stream_id tv_sec tv_nsec data data_len fragment_len =
     (case get_fragment ctx stream_id of
        None \<Rightarrow>
          if data_len < bm_len (ctx_matcher ctx)
          then put_fragment ctx stream_id data (size_to_int data_len)
          else let c = ctx_counters ctx in
            Inr (ctx\<lparr>ctx_counters := c\<lparr>corrupt_messages := atomic_release_increment (corrupt_messages c)\<rparr>\<rparr>)
      | Some f \<Rightarrow>
          if size_add (int_to_size (frag_len f)) fragment_len < int_to_size (frag_capacity f)
          then
            and_then (fragment_store f (frag_len f) data fragment_len) (\<lambda>f1.
            let f2 = f1\<lparr>frag_len := size_to_int (size_add (int_to_size (frag_len f)) fragment_len)\<rparr>;
                m = (case ctx_state ctx of None \<Rightarrow> Map.empty | Some m \<Rightarrow> m);
                ctx1 = ctx\<lparr>ctx_state := Some (m(stream_id \<mapsto> f2))\<rparr> in
            and_then (try_parse_fix_message ctx1 (frag_s f2) (frag_len f2)) (\<lambda>(result, d, ctx2).
            and_then (if pr_result result = 0
                      then process_for_latency_measurement ctx2 tv_sec tv_nsec d else Inr ctx2) (\<lambda>ctx3.
            Inr (if pr_result result \<noteq> FIX_EMESSAGETOOSHORT then remove_fragment ctx3 stream_id
                 else ctx3))))
          else Inr ctx)"

text \<open>
  The loop over the messages of the packet; \<open>current\<close> and \<open>next_msg\<close> are the offsets of the two
  pointers from \<open>data\<close>. Each turn moves \<open>current\<close> forward, so one unit of fuel per byte is
  enough.
\<close>

definition find_next ::
    "boyermoore_s \<Rightarrow> byte list \<Rightarrow> int \<Rightarrow> int \<Rightarrow> int option res" where
  "find_next matcher data current buf_remaining =
     (if int_to_size buf_remaining > bm_len matcher
      then
        let start = current + int (bm_len matcher) in
        and_then (c_offset data start) (\<lambda>p.
        and_then (boyermoore_search matcher p (buf_remaining - size_to_int (bm_len matcher))) (\<lambda>r.
          Inr (map_option (\<lambda>i. start + i) r)))
      else Inr None)"

fun extract_loop ::
    "nat \<Rightarrow> vmars_capture_context \<Rightarrow> ipv4_stream \<Rightarrow> 32 word \<Rightarrow> 32 word \<Rightarrow> byte list \<Rightarrow> int \<Rightarrow> int \<Rightarrow>
     (vmars_capture_context \<times> int) res" where
  "extract_loop 0 ctx stream_id tv_sec tv_nsec data current buf_remaining = Inl OutOfFuel"
| "extract_loop (Suc fuel) ctx stream_id tv_sec tv_nsec data current buf_remaining =
     and_then (find_next (ctx_matcher ctx) data current buf_remaining) (\<lambda>next_msg.
     let fix_message_len = (case next_msg of None \<Rightarrow> buf_remaining | Some n \<Rightarrow> n - current) in
     and_then (c_offset data current) (\<lambda>message.
     and_then (try_parse_fix_message ctx message fix_message_len) (\<lambda>(result, d, ctx1).
     let buf_remaining' = buf_remaining - pr_bytes_consumed result in
     and_then (if pr_result result = 0 then process_for_latency_measurement ctx1 tv_sec tv_nsec d
               else if pr_result result = FIX_EMESSAGETOOSHORT
               then put_fragment ctx1 stream_id message fix_message_len
               else Inr ctx1) (\<lambda>ctx2.
     case next_msg of
       None \<Rightarrow> Inr (ctx2, buf_remaining')
     | Some n \<Rightarrow> extract_loop fuel ctx2 stream_id tv_sec tv_nsec data n buf_remaining'))))"

definition vmars_extract_fix_messages ::
    "vmars_capture_context \<Rightarrow> 32 word \<Rightarrow> 16 word \<Rightarrow> 32 word \<Rightarrow> 16 word \<Rightarrow> 32 word \<Rightarrow> 32 word \<Rightarrow>
     byte list \<Rightarrow> nat \<Rightarrow> vmars_capture_context res" where
  "vmars_extract_fix_messages ctx src_addr src_port dst_addr dst_port tv_sec tv_nsec data data_len =
     (let buf_remaining = size_to_int data_len;
          stream_id = \<lparr>saddr = src_addr, daddr = dst_addr, sport = src_port, dport = dst_port\<rparr> in
      and_then (boyermoore_search (ctx_matcher ctx) data buf_remaining) (\<lambda>current.
      and_then
        (if current = Some 0 then Inr (ctx, buf_remaining)
         else
           let fragment_len = (case current of Some c \<Rightarrow> int_to_size c | None \<Rightarrow> data_len);
               buf_remaining' = size_to_int (size_sub (int_to_size buf_remaining) fragment_len) in
           and_then (leading_fragment ctx stream_id tv_sec tv_nsec data data_len fragment_len) (\<lambda>ctx'.
             Inr (ctx', buf_remaining'))) (\<lambda>(ctx1, buf_remaining1).
      and_then
        (case current of
           None \<Rightarrow> Inr (ctx1, buf_remaining1)
         | Some c \<Rightarrow> extract_loop (Suc (length data)) ctx1 stream_id tv_sec tv_nsec data c buf_remaining1)
        (\<lambda>(ctx2, buf_remaining2).
      if buf_remaining2 > 0
      then and_then (c_offset data (int data_len - buf_remaining2)) (\<lambda>p.
             put_fragment ctx2 stream_id p buf_remaining2)
      else Inr ctx2))))"

end
