(* ===== verification/Fix_Stream.thy ===== *)
theory Fix_Stream
  imports Fix_Extract
begin

text \<open>
  What a capture thread does to a stream of FIX messages cut into packets: the extractor of
  \<^verbatim>\<open>src/fix.c\<close> against the specification that handles each message whole, once and in order.
\<close>

subsection \<open>Messages\<close>

type_synonym fix_message = "byte list \<times> byte list \<times> field list"

fun msg_bytes :: "fix_message \<Rightarrow> byte list" where
  "msg_bytes (h, ld, fs) = message_bytes h ld fs"

text \<open>
  A message the extractor can handle: well-formed, with a correct checksum, short enough for a
  fragment, without NUL and without the text \<open>8=FIX.4.\<close> after its start.
\<close>

fun good_message :: "fix_message \<Rightarrow> bool" where
  "good_message (h, ld, fs) \<longleftrightarrow> wf_message h ld fs \<and>
     message_checksum h ld fs = Inr (message_sum h ld fs) \<and>
     length (message_bytes h ld fs) < 4088 \<and> 0 \<notin> set (message_bytes h ld fs) \<and>
     (\<forall>k>0. \<not> occurs_at FIX_PATTERN (message_bytes h ld fs) k)"

text \<open>What is left of a stream after its whole messages: nothing, or the start of a message.\<close>

definition unfinished :: "byte list \<Rightarrow> bool" where
  "unfinished q \<longleftrightarrow> q = [] \<or> (\<exists>m. good_message m \<and> strict_prefix q (msg_bytes m))"

lemma message_pattern: "wf_message h ld fs \<Longrightarrow> prefix FIX_PATTERN (message_bytes h ld fs)"
  by (auto simp: wf_message_def fix_header_def message_bytes_def FIX_PATTERN_bytes
      INITIAL_HEADER_42_def INITIAL_HEADER_44_def bytes_of_def of_char_def)

lemma good_pattern: "good_message m \<Longrightarrow> prefix FIX_PATTERN (msg_bytes m)"
  by (cases m) (simp add: message_pattern)

lemma good_length: "good_message m \<Longrightarrow> 20 \<le> length (msg_bytes m) \<and> length (msg_bytes m) < 4088"
  by (cases m) (use length_message in \<open>auto simp: wf_message_def message_bytes_def\<close>)

lemma fields_bytes_last: "fs \<noteq> [] \<Longrightarrow> last (fields_bytes fs) = SOH \<and> fields_bytes fs \<noteq> []"
  by (cases fs rule: rev_cases) (auto simp: field_bytes_def)

lemma good_last: "good_message m \<Longrightarrow> last (msg_bytes m) = SOH \<and> msg_bytes m \<noteq> []"
proof (cases m)
  case (fields h ld fs)
  moreover assume "good_message m"
  ultimately have "fs \<noteq> []" by (auto dest: wf_message_fields)
  with fields fields_bytes_last[of fs] show ?thesis by (auto simp: message_bytes_def)
qed

lemma pattern_no_SOH: "SOH \<notin> set FIX_PATTERN"
  by (simp add: FIX_PATTERN_bytes SOH_def)

text \<open>The pattern never occurs behind a message's start and before the next message's.\<close>

lemma no_inner_occurrence:
  assumes m: "good_message m" and k: "0 < k" "k < length (msg_bytes m)"
  shows "\<not> occurs_at FIX_PATTERN (msg_bytes m @ t) k"
proof
  let ?b = "msg_bytes m"
  assume occ: "occurs_at FIX_PATTERN (?b @ t) k"
  have nth: "(?b @ t) ! (k + i) = FIX_PATTERN ! i" if "i < 8" for i
  proof -
    from occ obtain zs where "drop k (?b @ t) = FIX_PATTERN @ zs" by (auto simp: occurs_at_def prefix_def)
    then have "drop k (?b @ t) ! i = FIX_PATTERN ! i" using that by (simp add: nth_append)
    moreover have "drop k (?b @ t) ! i = (?b @ t) ! (k + i)" by (rule nth_drop) (use k in simp)
    ultimately show ?thesis by simp
  qed
  show False
  proof (cases "k + 8 \<le> length ?b")
    case True
    then have "take (length ?b) (?b @ t) = ?b" by simp
    with occ occurs_at_take[of "length ?b" "?b @ t" FIX_PATTERN k] True
    have "occurs_at FIX_PATTERN ?b k" by (simp add: FIX_PATTERN_bytes)
    with m k show False by (cases m) auto
  next
    case False
    let ?i = "length ?b - 1 - k"
    have i: "?i < 8" "k + ?i = length ?b - 1" using False k by auto
    have "length ?b - 1 < length ?b" using k by linarith
    then have "?b ! (length ?b - 1) = FIX_PATTERN ! ?i"
      using nth[OF i(1)] unfolding i(2) by (simp add: nth_append)
    moreover have "?b ! (length ?b - 1) = SOH" using good_last[OF m] by (metis last_conv_nth)
    ultimately have "FIX_PATTERN ! ?i = SOH" by simp
    moreover have "FIX_PATTERN ! ?i \<in> set FIX_PATTERN" using i by (intro nth_mem) simp
    ultimately show False using pattern_no_SOH by metis
  qed
qed

lemma occurs_at_drop: "j \<le> length x \<Longrightarrow> occurs_at p (drop j x) l \<longleftrightarrow> occurs_at p x (j + l)"
  by (auto simp: occurs_at_def add.commute)

text \<open>What follows a message: another one, or less than the pattern.\<close>

definition msgs_bytes :: "fix_message list \<Rightarrow> byte list" where
  "msgs_bytes ms = concat (map msg_bytes ms)"

lemma msgs_bytes_simps [simp]:
  "msgs_bytes [] = []" "msgs_bytes (m # ms) = msg_bytes m @ msgs_bytes ms"
  by (simp_all add: msgs_bytes_def)

lemma unfinished_pattern: "unfinished q \<Longrightarrow> 8 \<le> length q \<Longrightarrow> prefix FIX_PATTERN q"
proof -
  assume "unfinished q" "8 \<le> length q"
  then obtain m where m: "good_message m" "prefix q (msg_bytes m)" by (auto simp: unfinished_def)
  from good_pattern[OF m(1)] m(2) \<open>8 \<le> length q\<close> show ?thesis
    by (metis length_FIX_PATTERN prefix_length_prefix)
qed

lemma tail_pattern:
  assumes "\<forall>m\<in>set ms. good_message m" "unfinished q"
  shows "ms \<noteq> [] \<or> 8 \<le> length q \<longleftrightarrow> prefix FIX_PATTERN (msgs_bytes ms @ q)"
proof (cases ms)
  case Nil
  then show ?thesis using unfinished_pattern[OF assms(2)] prefix_length_le[of FIX_PATTERN q] by auto
next
  case (Cons m ms')
  then show ?thesis using assms good_pattern[of m] by (auto simp: prefix_def)
qed

lemma tail_short: "\<not> prefix FIX_PATTERN (msgs_bytes ms @ q) \<Longrightarrow> \<forall>m\<in>set ms. good_message m \<Longrightarrow>
  unfinished q \<Longrightarrow> ms = [] \<and> length q < 8"
  using tail_pattern[of ms q] by auto

text \<open>The search from inside a message finds the next message's start.\<close>

lemma search_next:
  assumes m: "good_message m" and j: "0 < j" "j \<le> length (msg_bytes m)"
    and ms: "\<forall>m\<in>set ms. good_message m" and q: "unfinished q"
    and hay: "hay = drop j (msg_bytes m) @ msgs_bytes ms @ q" and n: "length hay < 2 ^ 30"
  shows "boyermoore_search fix_matcher hay (int (length hay)) =
    Inr (if ms \<noteq> [] \<or> 8 \<le> length q then Some (int (length (msg_bytes m) - j)) else None)"
proof -
  let ?t = "msgs_bytes ms @ q" and ?L = "length (msg_bytes m)"
  have hay': "hay = drop j (msg_bytes m @ ?t)" using hay j by simp
  have before: "\<not> occurs_at FIX_PATTERN hay l" if "l < ?L - j" for l
    unfolding hay' using that j no_inner_occurrence[OF m, of "j + l" ?t]
    by (subst occurs_at_drop) auto
  have at: "occurs_at FIX_PATTERN hay (?L - j + l) \<longleftrightarrow> occurs_at FIX_PATTERN ?t l" for l
  proof -
    have "drop (?L - j) hay = ?t" "?L - j \<le> length hay" using hay j by simp_all
    then show ?thesis using occurs_at_drop[of "?L - j" hay FIX_PATTERN l] by simp
  qed
  show ?thesis
  proof (cases "ms \<noteq> [] \<or> 8 \<le> length q")
    case True
    then have pre: "prefix FIX_PATTERN ?t" using tail_pattern[OF ms q] by simp
    then have "8 \<le> length ?t" using prefix_length_le by fastforce
    then have fit: "?L - j + 8 \<le> length hay" using hay j by simp
    have "occurs_at FIX_PATTERN hay (?L - j)" using at[of 0] pre by simp
    then have "boyermoore_search fix_matcher hay (int (length hay)) = Inr (Some (int (?L - j)))"
      using fit n before by (intro bm.find_at) auto
    with True show ?thesis by simp
  next
    case False
    then have short: "ms = []" "length q < 8" by auto
    have "boyermoore_search fix_matcher hay (int (length hay)) = Inr None"
    proof (rule bm.find_absent)
      fix k assume "k + length FIX_PATTERN \<le> nat (int (length hay))"
      then have "k < ?L - j" using hay j short by simp
      then show "\<not> occurs_at FIX_PATTERN hay k" by (rule before)
    qed (use n in auto)
    with False show ?thesis by simp
  qed
qed

lemma search_inside:
  assumes m: "good_message m" and p: "prefix (q @ p) (msg_bytes m)" "q \<noteq> []" "length p < 2 ^ 30"
  shows "boyermoore_search fix_matcher p (int (length p)) = Inr None"
proof (rule bm.find_absent)
  fix k assume k: "k + length FIX_PATTERN \<le> nat (int (length p))"
  obtain t where t: "msg_bytes m = q @ p @ t" using p(1) by (auto simp: prefix_def)
  show "\<not> occurs_at FIX_PATTERN p k"
  proof
    assume "occurs_at FIX_PATTERN p k"
    then have "occurs_at FIX_PATTERN (p @ t) k" by (auto simp: occurs_at_def prefix_def)
    then have "occurs_at FIX_PATTERN (msg_bytes m @ []) (length q + k)"
      using occurs_at_drop[of "length q" "msg_bytes m" FIX_PATTERN k] t by simp
    moreover have "length q + k < length (msg_bytes m)" using t k by simp
    ultimately show False using no_inner_occurrence[OF m, of "length q + k" "[]"] p(2) by simp
  qed
qed (use p in auto)

subsection \<open>Specification: each message is handled whole\<close>

definition count_valid :: "vmars_capture_context \<Rightarrow> vmars_capture_context" where
  "count_valid ctx = ctx\<lparr>ctx_counters := (ctx_counters ctx)
     \<lparr>valid_messages := atomic_release_increment (valid_messages (ctx_counters ctx))\<rparr>\<rparr>"

text \<open>The details of a message, its fields read in order from its own bytes.\<close>

fun message_details :: "fix_message \<Rightarrow> fix_details res" where
  "message_details (h, ld, fs) = run_fields handle_tag (fields_bytes fs) fs details_zero"

definition deliver ::
    "32 word \<Rightarrow> 32 word \<Rightarrow> fix_message \<Rightarrow> vmars_capture_context \<Rightarrow> vmars_capture_context res" where
  "deliver tv_sec tv_nsec m ctx =
     and_then (message_details m) (process_for_latency_measurement (count_valid ctx) tv_sec tv_nsec)"

fun deliver_all ::
    "32 word \<Rightarrow> 32 word \<Rightarrow> fix_message list \<Rightarrow> vmars_capture_context \<Rightarrow> vmars_capture_context res" where
  "deliver_all tv_sec tv_nsec [] ctx = Inr ctx"
| "deliver_all tv_sec tv_nsec (m # ms) ctx =
     and_then (deliver tv_sec tv_nsec m ctx) (deliver_all tv_sec tv_nsec ms)"

subsection \<open>Parsing a good message, and the start of one\<close>

lemma parse_good:
  assumes m: "good_message m" and pre: "prefix (msg_bytes m) buf"
    and len: "int (length (msg_bytes m)) \<le> len" "len \<le> int (length buf)"
  shows "(\<exists>e. message_details m = Inl e \<and> try_parse_fix_message ctx buf len = Inl e) \<or>
    (\<exists>d d'. message_details m = Inr d \<and> details_alike d' d \<and>
       try_parse_fix_message ctx buf len =
         Inr (\<lparr>pr_result = 0, pr_bytes_consumed = int (length (msg_bytes m))\<rparr>, d', count_valid ctx))"
proof -
  obtain h ld fs where f: "m = (h, ld, fs)" by (cases m)
  let ?p = "drop (12 + length ld + 1) buf"
  from m f have wf: "wf_message h ld fs" and ck: "message_checksum h ld fs = Inr (message_sum h ld fs)" by auto
  have hl: "length h = 12" using wf by (simp add: wf_message_def)
  have parse: "vmars_fix_parse_msg buf len details_zero None handle_tag None 0 =
    and_then (run_fields handle_tag ?p fs details_zero)
      (\<lambda>c. parse_result 0 (int (length (msg_bytes m))) c)"
    using parse_message[OF wf _ _ len(2) ck, of details_zero None handle_tag None 0] pre len f
    by (simp add: Let_def deliver_plain)
  have "prefix (fields_bytes fs) ?p" using pre f hl by (auto simp: message_bytes_def prefix_def)
  moreover have "length (fields_bytes fs) < 2 ^ 31"
    using good_length[OF m] f by (simp add: message_bytes_def)
  ultimately have "rel_sum (=) details_alike (run_fields handle_tag ?p fs details_zero)
      (run_fields handle_tag (fields_bytes fs) fs details_zero)"
    by (intro run_fields_alike) auto
  then show ?thesis
  proof (cases rule: rel_sum.cases)
    case (1 a c)
    with parse f show ?thesis by (simp add: try_parse_fix_message_def)
  next
    case (2 b c)
    with parse f show ?thesis
      by (simp add: try_parse_fix_message_def parse_result_def Let_def count_valid_def)
  qed
qed

lemma parse_unfinished:
  assumes m: "good_message m" and q: "strict_prefix q (msg_bytes m)" and pre: "prefix q buf"
  shows "try_parse_fix_message ctx buf (int (length q)) =
    Inr (\<lparr>pr_result = FIX_EMESSAGETOOSHORT, pr_bytes_consumed = int (length q)\<rparr>, details_zero, ctx)"
proof -
  obtain h ld fs where f: "m = (h, ld, fs)" by (cases m)
  from q obtain k where k: "q = take k (msg_bytes m)" "k < length (msg_bytes m)"
    by (metis append_eq_conv_conj prefix_length_less strict_prefix_def prefix_def)
  then have "vmars_fix_parse_msg buf (int k) details_zero None handle_tag None 0 =
      parse_result FIX_EMESSAGETOOSHORT (int k) details_zero"
    using m f pre prefix_length_le[OF pre] by (intro parse_prefix[of h ld fs]) auto
  with k show ?thesis
    by (simp add: try_parse_fix_message_def parse_result_def Let_def FIX_EMESSAGETOOSHORT_def)
qed

subsection \<open>What handling a message leaves alone\<close>

lemma process_frame:
  "process_for_latency_measurement ctx s ns d = Inr ctx' \<Longrightarrow>
     ctx_matcher ctx' = ctx_matcher ctx \<and> ctx_state ctx' = ctx_state ctx"
  by (auto simp: process_for_latency_measurement_def and_then_eq_Inr Let_def
      split: prod.splits if_splits option.splits)

lemma process_state:
  "process_for_latency_measurement (ctx\<lparr>ctx_state := st\<rparr>) s ns d =
     and_then (process_for_latency_measurement ctx s ns d) (\<lambda>c. Inr (c\<lparr>ctx_state := st\<rparr>))"
proof -
  obtain b r l i where ids: "latency_ids d = (b, r, l, i)" by (metis prod_cases4)
  show ?thesis
  proof (cases b)
    case True
    then show ?thesis
      unfolding process_for_latency_measurement_def ids Let_def split_conv
      by (simp, intro and_then_pull) (auto intro!: and_then_pull split: option.splits)
  qed (simp add: process_for_latency_measurement_def ids)
qed

lemma deliver_frame:
  "deliver s ns m ctx = Inr ctx' \<Longrightarrow> ctx_matcher ctx' = ctx_matcher ctx \<and> ctx_state ctx' = ctx_state ctx"
  by (auto simp: deliver_def and_then_eq_Inr count_valid_def dest!: process_frame)

lemma deliver_state:
  "deliver s ns m (ctx\<lparr>ctx_state := st\<rparr>) = and_then (deliver s ns m ctx) (\<lambda>c. Inr (c\<lparr>ctx_state := st\<rparr>))"
proof -
  have "count_valid (ctx\<lparr>ctx_state := st\<rparr>) = (count_valid ctx)\<lparr>ctx_state := st\<rparr>"
    by (simp add: count_valid_def)
  then show ?thesis by (cases "message_details m") (simp_all add: deliver_def process_state)
qed

lemma deliver_all_frame:
  "deliver_all s ns ms ctx = Inr ctx' \<Longrightarrow> ctx_matcher ctx' = ctx_matcher ctx \<and> ctx_state ctx' = ctx_state ctx"
proof (induction ms arbitrary: ctx)
  case (Cons m ms)
  from Cons.prems obtain c where c: "deliver s ns m ctx = Inr c" "deliver_all s ns ms c = Inr ctx'"
    by (auto simp: and_then_eq_Inr)
  from deliver_frame[OF c(1)] Cons.IH[OF c(2)] show ?case by simp
qed simp

lemma deliver_all_state:
  "deliver_all s ns ms (ctx\<lparr>ctx_state := st\<rparr>) = and_then (deliver_all s ns ms ctx) (\<lambda>c. Inr (c\<lparr>ctx_state := st\<rparr>))"
  by (induction ms arbitrary: ctx) (simp_all add: deliver_state and_then_assoc)

subsection \<open>The pending fragment of a stream\<close>

definition fragment_at :: "(ipv4_stream \<Rightarrow> fragment option) option \<Rightarrow> ipv4_stream \<Rightarrow> fragment option" where
  "fragment_at st sid = (case st of None \<Rightarrow> None | Some m \<Rightarrow> m sid)"

lemma get_fragment_at: "get_fragment ctx sid = fragment_at (ctx_state ctx) sid"
  by (simp add: get_fragment_def fragment_at_def)

text \<open>The table keeps the bytes \<open>q\<close> of the stream, or nothing for it.\<close>

definition pending :: "(ipv4_stream \<Rightarrow> fragment option) option \<Rightarrow> ipv4_stream \<Rightarrow> byte list \<Rightarrow> bool" where
  "pending st sid q \<longleftrightarrow>
     (case fragment_at st sid of
        None \<Rightarrow> q = []
      | Some f \<Rightarrow> q \<noteq> [] \<and> frag_len f = int (length q) \<and> frag_capacity f = FRAGMENT_CAPACITY \<and> prefix q (frag_s f))"

text \<open>The fragments of the other streams are those before.\<close>

definition same_others ::
    "(ipv4_stream \<Rightarrow> fragment option) option \<Rightarrow> (ipv4_stream \<Rightarrow> fragment option) option \<Rightarrow> ipv4_stream \<Rightarrow> bool" where
  "same_others st st' sid \<longleftrightarrow> (\<forall>s. s \<noteq> sid \<longrightarrow> fragment_at st' s = fragment_at st s)"

lemma same_others_refl [simp]: "same_others st st sid"
  by (simp add: same_others_def)

lemma same_others_trans: "same_others a b sid \<Longrightarrow> same_others b c sid \<Longrightarrow> same_others a c sid"
  by (simp add: same_others_def)

lemma pending_nil: "pending st sid [] \<longleftrightarrow> fragment_at st sid = None"
  by (simp add: pending_def split: option.splits)

text \<open>A fragment that is kept: the new state does not depend on the rest of the context.\<close>

definition put_state :: "(ipv4_stream \<Rightarrow> fragment option) option \<Rightarrow> ipv4_stream \<Rightarrow> byte list \<Rightarrow>
    (ipv4_stream \<Rightarrow> fragment option) option" where
  "put_state st sid q = Some ((case st of None \<Rightarrow> Map.empty | Some m \<Rightarrow> m)
     (sid \<mapsto> \<lparr>frag_len = int (length q), frag_capacity = FRAGMENT_CAPACITY, frag_s = q\<rparr>))"

lemma capacity_value: "FRAGMENT_CAPACITY = 4088"
  by (simp add: FRAGMENT_CAPACITY_def MAX_FRAGMENT_TOTAL_SIZE_def)

lemma put_fragment_new:
  assumes "fragment_at (ctx_state ctx) sid = None" and "prefix q p" and "0 \<notin> set q" and "length q < 4088"
  shows "put_fragment ctx sid p (int (length q)) = Inr (ctx\<lparr>ctx_state := put_state (ctx_state ctx) sid q\<rparr>)"
proof -
  have "c_strncpy p (length q) = Inr q"
    using assms(2,3) prefix_length_le[OF assms(2)] by (subst c_strncpy_take) (auto simp: prefix_def)
  then have "fragment_store new_fragment 0 p (length q) = Inr (new_fragment\<lparr>frag_s := q\<rparr>)"
    using assms(4) by (simp add: fragment_store_def new_fragment_def capacity_value)
  then show ?thesis using assms(1,4)
    by (auto simp: put_fragment_def Let_def int_to_size_in fragment_at_def put_state_def new_fragment_def
        split: option.splits)
qed

lemma put_state_pending: "q \<noteq> [] \<Longrightarrow> pending (put_state st sid q) sid q"
  by (simp add: pending_def put_state_def fragment_at_def)

lemma put_state_others: "same_others st (put_state st sid q) sid"
  by (simp add: same_others_def put_state_def fragment_at_def split: option.splits)

lemma unfinished_facts:
  assumes "unfinished q"
  shows "length q < 4088 \<and> 0 \<notin> set q \<and> (q \<noteq> [] \<longrightarrow> (\<exists>m. good_message m \<and> strict_prefix q (msg_bytes m)))"
proof (cases "q = []")
  case False
  then obtain m where m: "good_message m" "strict_prefix q (msg_bytes m)" using assms by (auto simp: unfinished_def)
  then have "0 \<notin> set q" by (cases m) (auto simp: strict_prefix_def prefix_def)
  moreover have "length q < 4088" using good_length[OF m(1)] m(2) by (auto dest: prefix_length_less)
  ultimately show ?thesis using m by blast
qed simp

subsection \<open>The loop over the messages of a packet\<close>

text \<open>The end of a packet: an unfinished message is kept, in the loop or behind it.\<close>

definition finish :: "ipv4_stream \<Rightarrow> byte list \<Rightarrow> vmars_capture_context \<Rightarrow> vmars_capture_context" where
  "finish sid q c = (if q = [] then c else c\<lparr>ctx_state := put_state (ctx_state c) sid q\<rparr>)"

lemma find_next_searches:
  assumes "boyermoore_search fix_matcher (drop (c + 8) data) (int (length (drop (c + 8) data))) = Inr r"
    and n: "8 < length data - c" and "length data < 2 ^ 30"
  shows "find_next fix_matcher data (int c) (int (length data - c)) = Inr (map_option (\<lambda>i. int c + 8 + i) r)"
proof -
  have "int (length (drop (c + 8) data)) = int (length data - c) - 8" using n by simp
  moreover have "int_to_size (int (length data - c)) > 8" using n assms(3) by (simp add: int_to_size_in)
  moreover have "c_offset data (int c + 8) = Inr (drop (c + 8) data)"
    using n by (subst c_offset_in) (simp_all add: nat_add_distrib)
  moreover have "size_to_int 8 = 8" by (simp add: size_to_int_in)
  ultimately show ?thesis using assms(1) by (simp add: find_next_def Let_def del: length_drop of_nat_diff)
qed

lemma find_next_good:
  assumes m: "good_message m" and ms: "\<forall>m\<in>set ms. good_message m" and q: "unfinished q"
    and d: "drop c data = msg_bytes m @ msgs_bytes ms @ q" "c \<le> length data" "length data < 2 ^ 30"
  shows "find_next fix_matcher data (int c) (int (length data - c)) =
    Inr (if ms \<noteq> [] \<or> 8 \<le> length q then Some (int (c + length (msg_bytes m))) else None)"
proof -
  let ?L = "length (msg_bytes m)" and ?hay = "drop (c + 8) data"
  have L: "20 \<le> ?L" using good_length[OF m] by simp
  have len: "length data = c + ?L + length (msgs_bytes ms @ q)"
    using arg_cong[OF d(1), of length] d(2) by simp
  have "?hay = drop 8 (drop c data)" by (simp add: add.commute)
  then have hay: "?hay = drop 8 (msg_bytes m) @ msgs_bytes ms @ q" using d(1) L by simp
  have "boyermoore_search fix_matcher ?hay (int (length ?hay)) =
      Inr (if ms \<noteq> [] \<or> 8 \<le> length q then Some (int (?L - 8)) else None)"
    using L d(3) by (intro search_next[OF m _ _ ms q hay]) auto
  then show ?thesis using len L d(3) by (subst find_next_searches) auto
qed

lemma find_next_unfinished:
  assumes q: "unfinished q" "8 \<le> length q"
    and d: "drop c data = q" "c \<le> length data" "length data < 2 ^ 30"
  shows "find_next fix_matcher data (int c) (int (length data - c)) = Inr None"
proof (cases "length q = 8")
  case True
  have "length data - c = 8" using d True by auto
  then show ?thesis by (simp add: find_next_def int_to_size_in)
next
  case False
  let ?hay = "drop (c + 8) data"
  have n: "8 < length data - c" using d q False by auto
  from q obtain m where m: "good_message m" "strict_prefix q (msg_bytes m)"
    by (auto simp: unfinished_def)
  have "?hay = drop 8 (drop c data)" by (simp add: add.commute)
  then have hay: "?hay = drop 8 q" using d(1) by simp
  have P: "prefix (take 8 q @ ?hay) (msg_bytes m)" using m(2) unfolding hay by (simp add: strict_prefix_def)
  have N: "take 8 q \<noteq> []" using q(2) by auto
  have "boyermoore_search fix_matcher ?hay (int (length ?hay)) = Inr None"
    using search_inside[OF m(1) P N] d(3) by simp
  then show ?thesis using n d(3) by (subst find_next_searches) auto
qed

lemma result_codes [simp]: "FIX_EMESSAGETOOSHORT \<noteq> 0" "0 \<noteq> FIX_EMESSAGETOOSHORT"
  by (simp_all add: FIX_EMESSAGETOOSHORT_def)

text \<open>One turn of the loop on a good message.\<close>

lemma extract_loop_step:
  assumes m: "good_message m" and ms: "\<forall>m\<in>set ms. good_message m" and q: "unfinished q"
    and matcher: "ctx_matcher ctx = fix_matcher"
    and d: "drop c data = msg_bytes m @ msgs_bytes ms @ q" "c \<le> length data" "length data < 2 ^ 30"
  shows "extract_loop (Suc fuel) ctx sid s ns data (int c) (int (length data - c)) =
    and_then (deliver s ns m ctx) (\<lambda>ctx2.
      if ms \<noteq> [] \<or> 8 \<le> length q
      then extract_loop fuel ctx2 sid s ns data (int (c + length (msg_bytes m)))
             (int (length data - (c + length (msg_bytes m))))
      else Inr (ctx2, int (length q)))"
proof -
  let ?L = "length (msg_bytes m)"
  let ?n = "if ms \<noteq> [] \<or> 8 \<le> length q then Some (int (c + ?L)) else None"
  let ?len = "case ?n of None \<Rightarrow> int (length data - c) | Some n \<Rightarrow> n - int c"
  have len: "length data = c + ?L + length (msgs_bytes ms @ q)"
    using arg_cong[OF d(1), of length] d(2) by simp
  have off: "c_offset data (int c) = Inr (drop c data)" using d(2) by (simp add: c_offset_in)
  have fit: "int ?L \<le> ?len" "?len \<le> int (length (drop c data))" using len by auto
  have last_len: "length (msgs_bytes ms @ q) = length q" if "\<not> (ms \<noteq> [] \<or> 8 \<le> length q)" using that by simp
  have pre: "prefix (msg_bytes m) (drop c data)" using d(1) by simp
  from parse_good[OF m pre fit, of ctx] show ?thesis
  proof (elim disjE exE conjE)
    fix e assume "message_details m = Inl e" "try_parse_fix_message ctx (drop c data) ?len = Inl e"
    then show ?thesis
      by (simp only: extract_loop.simps matcher find_next_good[OF m ms q d] and_then_Inr off Let_def
          and_then_Inl deliver_def)
  next
    fix d0 d' assume md: "message_details m = Inr d0" and alike: "details_alike d' d0"
      and parse: "try_parse_fix_message ctx (drop c data) ?len =
        Inr (\<lparr>pr_result = 0, pr_bytes_consumed = int ?L\<rparr>, d', count_valid ctx)"
    have "extract_loop (Suc fuel) ctx sid s ns data (int c) (int (length data - c)) =
      and_then (deliver s ns m ctx) (\<lambda>ctx2. case ?n of None \<Rightarrow> Inr (ctx2, int (length data - c) - int ?L)
        | Some n \<Rightarrow> extract_loop fuel ctx2 sid s ns data n (int (length data - c) - int ?L))"
      using process_alike[OF alike, of "count_valid ctx" s ns]
      by (simp only: extract_loop.simps matcher find_next_good[OF m ms q d] and_then_Inr off Let_def
          parse split_conv deliver_def md vmars_fix_parse_result.simps simp_thms if_True)
    moreover have "int (length data - c) - int ?L = int (length data - (c + ?L))" using len by simp
    moreover have "int (length data - (c + ?L)) = int (length q)" if "\<not> (ms \<noteq> [] \<or> 8 \<le> length q)"
      using len last_len[OF that] by simp
    ultimately show ?thesis by (auto intro!: arg_cong2[where f = and_then])
  qed
qed

lemma extract_loop_stream:
  assumes "\<forall>m\<in>set ms. good_message m" and q: "unfinished q"
    and "ctx_matcher ctx = fix_matcher" and "fragment_at (ctx_state ctx) sid = None"
    and "drop c data = msgs_bytes ms @ q" "c \<le> length data" "length data < 2 ^ 30"
    and "ms \<noteq> [] \<or> 8 \<le> length q" and "length ms < fuel"
  shows "extract_loop fuel ctx sid s ns data (int c) (int (length data - c)) =
    and_then (deliver_all s ns ms ctx) (\<lambda>x.
      Inr (if 8 \<le> length q then (finish sid q x, 0) else (x, int (length q))))"
  using assms(1,3-)
proof (induction ms arbitrary: ctx c fuel)
  case Nil
  then obtain f where f: "fuel = Suc f" by (cases fuel) auto
  from Nil have d: "drop c data = q" and len8: "8 \<le> length q" by auto
  then have len: "length data - c = length q" by (metis length_drop)
  have "q \<noteq> []" using len8 by auto
  with unfinished_facts[OF q] obtain m where qf: "length q < 4088" "0 \<notin> set q"
    and m: "good_message m" "strict_prefix q (msg_bytes m)" by blast
  have off: "c_offset data (int c) = Inr q" using Nil.prems(5) d by (simp add: c_offset_in)
  have put: "put_fragment ctx sid q (int (length q)) = Inr (ctx\<lparr>ctx_state := put_state (ctx_state ctx) sid q\<rparr>)"
    using Nil.prems qf by (intro put_fragment_new) auto
  show ?case
    using find_next_unfinished[OF q len8 d Nil.prems(5,6)] parse_unfinished[OF m, of q ctx] off put
      Nil.prems(2) \<open>q \<noteq> []\<close> len8
    by (simp add: f len finish_def del: of_nat_diff)
next
  case (Cons m ms)
  then obtain f where f: "fuel = Suc f" by (cases fuel) auto
  let ?c = "c + length (msg_bytes m)"
  have step: "extract_loop fuel ctx sid s ns data (int c) (int (length data - c)) =
    and_then (deliver s ns m ctx) (\<lambda>ctx2.
      if ms \<noteq> [] \<or> 8 \<le> length q
      then extract_loop f ctx2 sid s ns data (int ?c) (int (length data - ?c))
      else Inr (ctx2, int (length q)))"
    unfolding f using Cons.prems q by (intro extract_loop_step) auto
  have "drop ?c data = drop (length (msg_bytes m)) (drop c data)" by (simp add: add.commute)
  then have d: "drop ?c data = msgs_bytes ms @ q" using Cons.prems(4) by simp
  have c: "?c \<le> length data" using arg_cong[OF Cons.prems(4), of length] Cons.prems(5) by simp
  have IH: "extract_loop f ctx2 sid s ns data (int ?c) (int (length data - ?c)) =
      and_then (deliver_all s ns ms ctx2) (\<lambda>x.
        Inr (if 8 \<le> length q then (finish sid q x, 0) else (x, int (length q))))"
    if "deliver s ns m ctx = Inr ctx2" "ms \<noteq> [] \<or> 8 \<le> length q" for ctx2
    using Cons.prems deliver_frame[OF that(1)] that(2) d c f by (intro Cons.IH) auto
  show ?case
  proof (cases "deliver s ns m ctx")
    case (Inl e)
    with step show ?thesis by simp
  next
    case (Inr ctx2)
    show ?thesis
    proof (cases "ms \<noteq> [] \<or> 8 \<le> length q")
      case True
      with step Inr IH[OF Inr True] show ?thesis by simp
    next
      case False
      with step Inr show ?thesis by simp
    qed
  qed
qed

subsection \<open>One packet\<close>

definition sid_of :: "32 word \<Rightarrow> 16 word \<Rightarrow> 32 word \<Rightarrow> 16 word \<Rightarrow> ipv4_stream" where
  "sid_of sa sp da dp = \<lparr>saddr = sa, daddr = da, sport = sp, dport = dp\<rparr>"

definition finish_state ::
    "(ipv4_stream \<Rightarrow> fragment option) option \<Rightarrow> ipv4_stream \<Rightarrow> byte list \<Rightarrow> (ipv4_stream \<Rightarrow> fragment option) option" where
  "finish_state st sid q = (if q = [] then st else put_state st sid q)"

lemma finish_eq: "ctx_state x = st \<Longrightarrow> finish sid q x = x\<lparr>ctx_state := finish_state st sid q\<rparr>"
  by (cases x) (simp add: finish_def finish_state_def)

lemma finish_state_pending:
  "fragment_at st sid = None \<Longrightarrow> pending (finish_state st sid q) sid q \<and> same_others st (finish_state st sid q) sid"
  by (simp add: finish_state_def put_state_pending put_state_others pending_nil)

lemma extract_eq:
  "vmars_extract_fix_messages ctx sa sp da dp s ns data data_len =
     (let rem = size_to_int data_len; sid = sid_of sa sp da dp in
      and_then (boyermoore_search (ctx_matcher ctx) data rem) (\<lambda>current.
      and_then
        (if current = Some 0 then Inr (ctx, rem)
         else
           let fragment_len = (case current of Some c \<Rightarrow> int_to_size c | None \<Rightarrow> data_len) in
           and_then (leading_fragment ctx sid s ns data data_len fragment_len) (\<lambda>ctx'.
             Inr (ctx', size_to_int (size_sub (int_to_size rem) fragment_len)))) (\<lambda>(ctx1, rem1).
      and_then
        (case current of
           None \<Rightarrow> Inr (ctx1, rem1)
         | Some c \<Rightarrow> extract_loop (Suc (length data)) ctx1 sid s ns data c rem1)
        (\<lambda>(ctx2, rem2). if rem2 > 0
           then and_then (c_offset data (int data_len - rem2)) (\<lambda>p. put_fragment ctx2 sid p rem2)
           else Inr ctx2))))"
  by (simp only: vmars_extract_fix_messages_def sid_of_def Let_def)

text \<open>The loop and what follows it, from the offset of the first message on.\<close>

lemma extract_rest:
  assumes ms: "\<forall>m\<in>set ms. good_message m" and q: "unfinished q"
    and matcher: "ctx_matcher ctx = fix_matcher" and none: "fragment_at (ctx_state ctx) sid = None"
    and d: "drop c data = msgs_bytes ms @ q" "c \<le> length data" "length data < 2 ^ 30"
    and ne: "ms \<noteq> [] \<or> 8 \<le> length q"
  shows "and_then (extract_loop (Suc (length data)) ctx sid s ns data (int c) (int (length data - c)))
      (\<lambda>(ctx2, rem). if rem > 0
        then and_then (c_offset data (int (length data) - rem)) (\<lambda>p. put_fragment ctx2 sid p rem)
        else Inr ctx2) =
    and_then (deliver_all s ns ms ctx) (\<lambda>x. Inr (x\<lparr>ctx_state := finish_state (ctx_state ctx) sid q\<rparr>))"
proof -
  have "length ms \<le> length (msgs_bytes ms)" using ms
  proof (induction ms)
    case (Cons m ms)
    then show ?case using good_length[of m] by simp
  qed simp
  also have "\<dots> \<le> length data" using arg_cong[OF d(1), of length] by simp
  finally have fuel: "length ms < Suc (length data)" by simp
  have put: "put_fragment x sid (drop (length data - length q) data) (int (length q)) =
      Inr (x\<lparr>ctx_state := put_state (ctx_state ctx) sid q\<rparr>)"
    if "ctx_state x = ctx_state ctx" "q \<noteq> []" for x
  proof -
    have "length data - length q = c + length (msgs_bytes ms)" using arg_cong[OF d(1), of length] d(2) by simp
    then have "drop (length data - length q) data = drop (length (msgs_bytes ms)) (drop c data)"
      by (simp add: add.commute)
    then have "drop (length data - length q) data = q" using d(1) by simp
    then show ?thesis using put_fragment_new[of x sid q q] that none unfinished_facts[OF q] by simp
  qed
  have off: "c_offset data (int (length data) - int (length q)) = Inr (drop (length data - length q) data)"
  proof -
    have "length q \<le> length data" using arg_cong[OF d(1), of length] by simp
    then show ?thesis by (simp add: c_offset_def nat_diff_distrib)
  qed
  show ?thesis
  proof (cases "deliver_all s ns ms ctx")
    case (Inl e)
    then show ?thesis by (simp only: extract_loop_stream[OF ms q matcher none d ne fuel] and_then_Inl)
  next
    case (Inr x)
    with deliver_all_frame[OF Inr] have st: "ctx_state x = ctx_state ctx" by simp
    have same: "x\<lparr>ctx_state := ctx_state ctx\<rparr> = x" using st by (cases x) simp
    consider "8 \<le> length q" | "q = []" | "\<not> 8 \<le> length q" "q \<noteq> []" by blast
    then show ?thesis
    proof cases
      case 1
      then show ?thesis
        by (simp add: extract_loop_stream[OF ms q matcher none d ne fuel] Inr finish_eq[OF st] del: extract_loop.simps)
    next
      case 2
      then show ?thesis
        by (simp add: extract_loop_stream[OF ms q matcher none d ne fuel] Inr finish_state_def same del: extract_loop.simps)
    next
      case 3
      then show ?thesis
        by (simp add: extract_loop_stream[OF ms q matcher none d ne fuel] Inr finish_state_def off put[OF st] del: extract_loop.simps)
    qed
  qed
qed

text \<open>A packet of a stream without a pending fragment.\<close>

lemma extract_fresh:
  assumes ms: "\<forall>m\<in>set ms. good_message m" and q: "unfinished q"
    and matcher: "ctx_matcher ctx = fix_matcher" and none: "fragment_at (ctx_state ctx) (sid_of sa sp da dp) = None"
    and p: "p = msgs_bytes ms @ q" "p \<noteq> []" "length p < 2 ^ 30"
  shows "vmars_extract_fix_messages ctx sa sp da dp s ns p (length p) =
    and_then (deliver_all s ns ms ctx)
      (\<lambda>x. Inr (x\<lparr>ctx_state := finish_state (ctx_state ctx) (sid_of sa sp da dp) q\<rparr>))"
proof (cases "ms \<noteq> [] \<or> 8 \<le> length q")
  case True
  then have pre: "prefix FIX_PATTERN p" using tail_pattern[OF ms q] p(1) by simp
  then have "boyermoore_search fix_matcher p (int (length p)) = Inr (Some 0)"
    using prefix_length_le[OF pre] p(3) by (intro bm.find_here) auto
  moreover have "size_to_int (length p) = int (length p)" using p(3) by (simp add: size_to_int_in)
  moreover have "drop 0 p = msgs_bytes ms @ q" using p(1) by simp
  note extract_rest[OF ms q matcher none this le0 p(3) True, of s ns]
  ultimately show ?thesis by (simp add: extract_eq Let_def matcher del: extract_loop.simps)
next
  case False
  then have short: "ms = []" "length q < 8" "p = q" "q \<noteq> []" using p by auto
  have "boyermoore_search fix_matcher p (int (length p)) = Inr None"
    using short p(3) by (intro bm.find_absent) auto
  moreover have "size_to_int (length p) = int (length p)" using p(3) by (simp add: size_to_int_in)
  moreover have "size_to_int (size_sub (int_to_size (int (length p))) (length p)) = 0"
    using p(3) by (simp add: int_to_size_in size_sub_in size_to_int_in)
  moreover have "put_fragment ctx (sid_of sa sp da dp) p (int (length p)) =
      Inr (ctx\<lparr>ctx_state := put_state (ctx_state ctx) (sid_of sa sp da dp) q\<rparr>)"
    using put_fragment_new[OF none, of q p] unfinished_facts[OF q] short by simp
  ultimately show ?thesis using short none
    by (simp add: extract_eq Let_def matcher leading_fragment_def get_fragment_at finish_state_def)
qed

text \<open>The fragment grows by the first \<open>n\<close> bytes of the packet.\<close>

definition grown_state :: "(ipv4_stream \<Rightarrow> fragment option) option \<Rightarrow> ipv4_stream \<Rightarrow> byte list \<Rightarrow> fragment \<Rightarrow>
    (ipv4_stream \<Rightarrow> fragment option) option" where
  "grown_state st sid r f = Some ((case st of None \<Rightarrow> Map.empty | Some m \<Rightarrow> m)
     (sid \<mapsto> f\<lparr>frag_s := take (nat (frag_len f)) (frag_s f) @ r @ drop (nat (frag_len f) + length r) (frag_s f),
        frag_len := frag_len f + int (length r)\<rparr>))"

lemma leading_fragment_grows:
  assumes pend: "pending (ctx_state ctx) sid q0" and q0: "q0 \<noteq> []"
    and r: "prefix r p" "0 \<notin> set r" "length q0 + length r < 4088"
  shows "\<exists>f s'. prefix (q0 @ r) s' \<and> pending (grown_state (ctx_state ctx) sid r f) sid (q0 @ r) \<and>
    same_others (ctx_state ctx) (grown_state (ctx_state ctx) sid r f) sid \<and>
    leading_fragment ctx sid s ns p n (length r) =
      and_then (try_parse_fix_message (ctx\<lparr>ctx_state := grown_state (ctx_state ctx) sid r f\<rparr>) s'
          (int (length (q0 @ r)))) (\<lambda>(result, d, ctx2).
        and_then (if pr_result result = 0 then process_for_latency_measurement ctx2 s ns d else Inr ctx2) (\<lambda>ctx3.
        Inr (if pr_result result \<noteq> FIX_EMESSAGETOOSHORT then remove_fragment ctx3 sid else ctx3)))"
proof -
  from pend q0 obtain f where f: "fragment_at (ctx_state ctx) sid = Some f" "frag_len f = int (length q0)"
      "frag_capacity f = FRAGMENT_CAPACITY" and pre: "prefix q0 (frag_s f)"
    by (auto simp: pending_def split: option.splits)
  let ?s = "q0 @ r @ drop (length q0 + length r) (frag_s f)"
  have take: "take (length q0) (frag_s f) = q0" using pre by (simp add: take_eq_prefix)
  have "c_strncpy p (length r) = Inr r"
    using r(1,2) prefix_length_le[OF r(1)] by (subst c_strncpy_take) (auto simp: prefix_def)
  then have store: "fragment_store f (frag_len f) p (length r) = Inr (f\<lparr>frag_s := ?s\<rparr>)"
    using r(3) f(2) take prefix_length_le[OF pre] by (simp add: fragment_store_def capacity_value)
  have small: "size_add (int_to_size (frag_len f)) (length r) = length q0 + length r"
    using r(3) by (simp add: f(2) int_to_size_in size_add_in)
  have room: "length q0 + length r < int_to_size (frag_capacity f)"
    using r(3) by (simp add: f(3) capacity_value int_to_size_in)
  have len: "size_to_int (length q0 + length r) = int (length (q0 @ r))"
    using r(3) by (simp add: size_to_int_in)
  have state: "Some ((case ctx_state ctx of None \<Rightarrow> Map.empty | Some m \<Rightarrow> m)
       (sid \<mapsto> f\<lparr>frag_s := ?s, frag_len := int (length (q0 @ r))\<rparr>)) = grown_state (ctx_state ctx) sid r f"
    by (simp add: grown_state_def f(2) take)
  have "leading_fragment ctx sid s ns p n (length r) =
      and_then (try_parse_fix_message (ctx\<lparr>ctx_state := grown_state (ctx_state ctx) sid r f\<rparr>) ?s
          (int (length (q0 @ r)))) (\<lambda>(result, d, ctx2).
        and_then (if pr_result result = 0 then process_for_latency_measurement ctx2 s ns d else Inr ctx2) (\<lambda>ctx3.
        Inr (if pr_result result \<noteq> FIX_EMESSAGETOOSHORT then remove_fragment ctx3 sid else ctx3)))"
    unfolding leading_fragment_def get_fragment_at f(1) option.case small store and_then_Inr Let_def len
    using room state by simp
  moreover have "prefix (q0 @ r) ?s" by simp
  moreover have "pending (grown_state (ctx_state ctx) sid r f) sid (q0 @ r)"
    using q0 take by (simp add: pending_def fragment_at_def grown_state_def f)
  moreover have "same_others (ctx_state ctx) (grown_state (ctx_state ctx) sid r f) sid"
    by (simp add: same_others_def fragment_at_def grown_state_def split: option.splits)
  ultimately show ?thesis by blast
qed

lemma remove_fragment_eq:
  "remove_fragment ctx sid = ctx\<lparr>ctx_state := (case ctx_state ctx of None \<Rightarrow> None | Some m \<Rightarrow> Some (m(sid := None)))\<rparr>"
  by (cases ctx) (auto simp: remove_fragment_def fun_upd_idem split: option.splits)

text \<open>A packet that lies inside a message.\<close>

lemma extract_inside:
  assumes m: "good_message m" and q: "strict_prefix (q0 @ p) (msg_bytes m)" "q0 \<noteq> []" "p \<noteq> []"
    and matcher: "ctx_matcher ctx = fix_matcher" and pend: "pending (ctx_state ctx) (sid_of sa sp da dp) q0"
  shows "\<exists>st. vmars_extract_fix_messages ctx sa sp da dp s ns p (length p) = Inr (ctx\<lparr>ctx_state := st\<rparr>) \<and>
    pending st (sid_of sa sp da dp) (q0 @ p) \<and> same_others (ctx_state ctx) st (sid_of sa sp da dp)"
proof -
  have u: "unfinished (q0 @ p)" using m q(1) unfolding unfinished_def by blast
  have small: "length q0 + length p < 4088" and nul: "0 \<notin> set p" using unfinished_facts[OF u] by auto
  have none: "boyermoore_search fix_matcher p (int (length p)) = Inr None"
    using q(1,2) small by (intro search_inside[OF m]) (auto simp: strict_prefix_def)
  from leading_fragment_grows[OF pend q(2) prefix_order.refl nul small, of s ns "length p"]
  obtain f s' where s': "prefix (q0 @ p) s'"
    and pend': "pending (grown_state (ctx_state ctx) (sid_of sa sp da dp) p f) (sid_of sa sp da dp) (q0 @ p)"
    and others: "same_others (ctx_state ctx) (grown_state (ctx_state ctx) (sid_of sa sp da dp) p f) (sid_of sa sp da dp)"
    and lead: "leading_fragment ctx (sid_of sa sp da dp) s ns p (length p) (length p) =
      and_then (try_parse_fix_message (ctx\<lparr>ctx_state := grown_state (ctx_state ctx) (sid_of sa sp da dp) p f\<rparr>) s'
          (int (length (q0 @ p)))) (\<lambda>(result, d, ctx2).
        and_then (if pr_result result = 0 then process_for_latency_measurement ctx2 s ns d else Inr ctx2) (\<lambda>ctx3.
        Inr (if pr_result result \<noteq> FIX_EMESSAGETOOSHORT then remove_fragment ctx3 (sid_of sa sp da dp) else ctx3)))"
    by blast
  have "size_to_int (length p) = int (length p)"
    "size_to_int (size_sub (int_to_size (int (length p))) (length p)) = 0"
    using small by (simp_all add: int_to_size_in size_sub_in size_to_int_in)
  then have "vmars_extract_fix_messages ctx sa sp da dp s ns p (length p) =
      Inr (ctx\<lparr>ctx_state := grown_state (ctx_state ctx) (sid_of sa sp da dp) p f\<rparr>)"
    unfolding extract_eq Let_def matcher
    by (simp add: none lead parse_unfinished[OF m q(1) s', simplified])
  with pend' others show ?thesis by blast
qed

text \<open>
  The pending message is completed by the first bytes \<open>r\<close> of the packet (which may hold more
  than its end): it is handled and the fragment removed.
\<close>

lemma leading_fragment_completes:
  assumes m: "good_message m" "prefix (msg_bytes m) (q0 @ r)" "q0 \<noteq> []"
    and pend: "pending (ctx_state ctx) sid q0"
    and r: "prefix r p" "0 \<notin> set r" "length q0 + length r < 4088"
  shows "\<exists>st. fragment_at st sid = None \<and> same_others (ctx_state ctx) st sid \<and>
    leading_fragment ctx sid s ns p n (length r) = and_then (deliver s ns m ctx) (\<lambda>x. Inr (x\<lparr>ctx_state := st\<rparr>))"
proof -
  let ?st = "ctx_state ctx"
  from leading_fragment_grows[OF pend m(3) r, of s ns n]
  obtain f s' where s': "prefix (q0 @ r) s'"
    and others: "same_others ?st (grown_state ?st sid r f) sid"
    and lead: "leading_fragment ctx sid s ns p n (length r) =
      and_then (try_parse_fix_message (ctx\<lparr>ctx_state := grown_state ?st sid r f\<rparr>) s'
          (int (length (q0 @ r)))) (\<lambda>(result, d, ctx2).
        and_then (if pr_result result = 0 then process_for_latency_measurement ctx2 s ns d else Inr ctx2) (\<lambda>ctx3.
        Inr (if pr_result result \<noteq> FIX_EMESSAGETOOSHORT then remove_fragment ctx3 sid else ctx3)))"
    by blast
  let ?c = "ctx\<lparr>ctx_state := grown_state ?st sid r f\<rparr>"
  define st where "st = (case grown_state ?st sid r f of None \<Rightarrow> None | Some m \<Rightarrow> Some (m(sid := None)))"
  have "prefix (msg_bytes m) s'" using m(2) s' by (rule prefix_order.order_trans)
  moreover have "int (length (msg_bytes m)) \<le> int (length (q0 @ r))" "int (length (q0 @ r)) \<le> int (length s')"
    using prefix_length_le[OF m(2)] prefix_length_le[OF s'] by simp_all
  ultimately have "leading_fragment ctx sid s ns p n (length r) =
      and_then (deliver s ns m ?c) (\<lambda>x. Inr (remove_fragment x sid))"
    using parse_good[OF m(1), of s' "int (length (q0 @ r))" ?c]
    unfolding lead by (auto simp: deliver_def dest: process_alike[of _ _ "count_valid ?c" s ns])
  also have "\<dots> = and_then (deliver s ns m ?c) (\<lambda>x. Inr (x\<lparr>ctx_state := st\<rparr>))"
    using deliver_frame[of s ns m ?c]
    by (cases "deliver s ns m ?c") (auto simp: remove_fragment_eq st_def)
  also have "\<dots> = and_then (deliver s ns m ctx) (\<lambda>x. Inr (x\<lparr>ctx_state := st\<rparr>))"
    by (simp add: deliver_state and_then_assoc)
  finally show ?thesis using others
    by (intro exI[of _ st]) (auto simp: st_def fragment_at_def grown_state_def same_others_def)
qed

text \<open>A packet that completes the pending message.\<close>

lemma extract_completes:
  assumes m: "good_message m" "msg_bytes m = q0 @ r" "q0 \<noteq> []" "r \<noteq> []"
    and ms: "\<forall>m\<in>set ms. good_message m" and q: "unfinished q" "ms \<noteq> [] \<or> 8 \<le> length q \<or> q = []"
    and matcher: "ctx_matcher ctx = fix_matcher" and pend: "pending (ctx_state ctx) (sid_of sa sp da dp) q0"
    and p: "p = r @ msgs_bytes ms @ q" "length p < 2 ^ 30"
  shows "\<exists>st. vmars_extract_fix_messages ctx sa sp da dp s ns p (length p) =
      and_then (deliver_all s ns (m # ms) ctx) (\<lambda>x. Inr (x\<lparr>ctx_state := st\<rparr>)) \<and>
    pending st (sid_of sa sp da dp) q \<and> same_others (ctx_state ctx) st (sid_of sa sp da dp)"
proof -
  let ?sid = "sid_of sa sp da dp" and ?st = "ctx_state ctx"
  let ?cur = "if ms \<noteq> [] \<or> 8 \<le> length q then Some (int (length r)) else None"
  let ?rem = "int (length p - length r)"
  have small: "length q0 + length r < 4088" using good_length[OF m(1)] m(2) by simp
  have nul: "0 \<notin> set r" using m(1,2) by (cases m) auto
  have "boyermoore_search fix_matcher p (int (length p)) = Inr ?cur"
    using search_next[OF m(1) _ _ ms q(1), of "length q0" p] m(2,3) p by simp
  then have search: "boyermoore_search fix_matcher p (size_to_int (length p)) = Inr ?cur"
    using p(2) by (simp add: size_to_int_in)
  have frag_len: "(case ?cur of Some c \<Rightarrow> int_to_size c | None \<Rightarrow> length p) = length r"
    using q(2) p small by (auto simp: int_to_size_in)
  have rem: "size_to_int (size_sub (int_to_size (size_to_int (length p))) (length r)) = ?rem"
    using p by (simp add: int_to_size_in size_sub_in size_to_int_in)
  have cur0: "?cur \<noteq> Some 0" using m(4) by simp
  have pre: "prefix r p" using p(1) by simp
  have whole: "prefix (msg_bytes m) (q0 @ r)" using m(2) by simp
  from leading_fragment_completes[OF m(1) whole m(3) pend pre nul small, of s ns "length p"]
  obtain st1 where st1: "fragment_at st1 ?sid = None" "same_others ?st st1 ?sid"
    and lead: "leading_fragment ctx ?sid s ns p (length p) (length r) =
      and_then (deliver s ns m ctx) (\<lambda>x. Inr (x\<lparr>ctx_state := st1\<rparr>))" by blast
  define st where "st = (if ms \<noteq> [] \<or> 8 \<le> length q then finish_state st1 ?sid q else st1)"
  have "vmars_extract_fix_messages ctx sa sp da dp s ns p (length p) =
      and_then (deliver_all s ns (m # ms) ctx) (\<lambda>x. Inr (x\<lparr>ctx_state := st\<rparr>))"
  proof (cases "deliver s ns m ctx")
    case (Inl e)
    then show ?thesis unfolding extract_eq Let_def matcher search and_then_Inr frag_len rem lead
      using cur0 by simp
  next
    case (Inr x)
    let ?x = "x\<lparr>ctx_state := st1\<rparr>"
    have start: "vmars_extract_fix_messages ctx sa sp da dp s ns p (length p) =
      and_then (case ?cur of None \<Rightarrow> Inr (?x, ?rem)
         | Some c \<Rightarrow> extract_loop (Suc (length p)) ?x ?sid s ns p c ?rem)
        (\<lambda>(ctx2, rem2). if rem2 > 0
           then and_then (c_offset p (int (length p) - rem2)) (\<lambda>p. put_fragment ctx2 ?sid p rem2)
           else Inr ctx2)"
      unfolding extract_eq Let_def matcher search and_then_Inr frag_len rem lead Inr
      using cur0 by simp
    show ?thesis
    proof (cases "ms \<noteq> [] \<or> 8 \<le> length q")
      case True
      have "ctx_matcher ?x = fix_matcher" using deliver_frame[OF Inr] matcher by simp
      note rest = extract_rest[OF ms q(1) this _ _ _ p(2) True, of ?sid "length r" s ns]
      have "and_then (extract_loop (Suc (length p)) ?x ?sid s ns p (int (length r)) ?rem)
        (\<lambda>(ctx2, rem2). if rem2 > 0
           then and_then (c_offset p (int (length p) - rem2)) (\<lambda>p. put_fragment ctx2 ?sid p rem2)
           else Inr ctx2) = and_then (deliver_all s ns ms ?x) (\<lambda>y. Inr (y\<lparr>ctx_state := st\<rparr>))"
        by (subst rest) (use st1 p(1) True in \<open>auto simp: st_def\<close>)
      with start True Inr show ?thesis
        by (simp add: deliver_all_state and_then_assoc del: extract_loop.simps of_nat_diff)
    next
      case False
      then have "?rem = 0" "ms = []" using q(2) p(1) by auto
      with start False Inr show ?thesis by (simp add: st_def)
    qed
  qed
  moreover have "pending st ?sid q \<and> same_others ?st st ?sid"
    using st1 q(2) finish_state_pending[OF st1(1), of q] same_others_trans
    by (auto simp: st_def pending_nil)
  ultimately show ?thesis by blast
qed

subsection \<open>A stream cut into packets\<close>

type_synonym 'a stamped = "32 word \<times> 32 word \<times> 'a"

text \<open>
  \<open>segmented q ps out\<close>: behind the bytes \<open>q\<close> already received, the packets \<open>ps\<close> carry
  a stream of good messages; \<open>out\<close> lists, packet by packet, the messages that end in it. A
  packet that completes the pending message and no other does not end within the first seven
  bytes of the next message.
\<close>

inductive segmented :: "byte list \<Rightarrow> byte list stamped list \<Rightarrow> fix_message list stamped list \<Rightarrow> bool" where
  segmented_end: "segmented [] [] []"
| segmented_packet: "\<forall>m\<in>set ms. good_message m \<Longrightarrow> unfinished q' \<Longrightarrow> q @ p = msgs_bytes ms @ q' \<Longrightarrow>
     p \<noteq> [] \<Longrightarrow> length p < 65536 \<Longrightarrow>
     q = [] \<or> q' = [] \<or> 8 \<le> length q' \<or> length ms \<noteq> 1 \<Longrightarrow>
     segmented q' ps out \<Longrightarrow> segmented q ((s, ns, p) # ps) ((s, ns, ms) # out)"

fun run_packets :: "32 word \<Rightarrow> 16 word \<Rightarrow> 32 word \<Rightarrow> 16 word \<Rightarrow> byte list stamped list \<Rightarrow>
    vmars_capture_context \<Rightarrow> vmars_capture_context res" where
  "run_packets sa sp da dp [] ctx = Inr ctx"
| "run_packets sa sp da dp ((s, ns, p) # ps) ctx =
     and_then (vmars_extract_fix_messages ctx sa sp da dp s ns p (length p)) (run_packets sa sp da dp ps)"

fun deliver_stream :: "fix_message list stamped list \<Rightarrow> vmars_capture_context \<Rightarrow> vmars_capture_context res" where
  "deliver_stream [] ctx = Inr ctx"
| "deliver_stream ((s, ns, ms) # out) ctx = and_then (deliver_all s ns ms ctx) (deliver_stream out)"

lemma deliver_stream_state:
  "deliver_stream out (ctx\<lparr>ctx_state := st\<rparr>) = and_then (deliver_stream out ctx) (\<lambda>c. Inr (c\<lparr>ctx_state := st\<rparr>))"
proof (induction out arbitrary: ctx)
  case (Cons x out)
  obtain s ns ms where "x = (s, ns, ms)" by (cases x)
  with Cons.IH show ?case by (simp add: deliver_all_state and_then_assoc)
qed simp

text \<open>The start of a message contains no whole message.\<close>

lemma unfinished_no_message:
  assumes m: "good_message m" and m': "good_message m'" and q: "strict_prefix q (msg_bytes m')"
  shows "\<not> prefix (msg_bytes m) q"
proof
  assume pre: "prefix (msg_bytes m) q"
  let ?ctx = "\<lparr>ctx_port = 9880, ctx_matcher = fix_matcher, ctx_rb = undefined, ctx_counters = counters_zero, ctx_state = None\<rparr>"
  from parse_good[OF m pre, of "int (length q)" ?ctx] prefix_length_le[OF pre]
    parse_unfinished[OF m' q prefix_order.refl, of ?ctx]
  show False by auto
qed

lemma extract_packet:
  assumes ms: "\<forall>m\<in>set ms. good_message m" and q: "unfinished q" and q': "unfinished q'"
    and eq: "q @ p = msgs_bytes ms @ q'" and p: "p \<noteq> []" "length p < 65536"
    and cut: "q = [] \<or> q' = [] \<or> 8 \<le> length q' \<or> length ms \<noteq> 1"
    and matcher: "ctx_matcher ctx = fix_matcher" and pend: "pending (ctx_state ctx) (sid_of sa sp da dp) q"
  shows "\<exists>st. vmars_extract_fix_messages ctx sa sp da dp s ns p (length p) =
      and_then (deliver_all s ns ms ctx) (\<lambda>x. Inr (x\<lparr>ctx_state := st\<rparr>)) \<and>
    pending st (sid_of sa sp da dp) q' \<and> same_others (ctx_state ctx) st (sid_of sa sp da dp)"
proof (cases "q = []")
  case True
  then have none: "fragment_at (ctx_state ctx) (sid_of sa sp da dp) = None" using pend by (simp add: pending_nil)
  from extract_fresh[OF ms q' matcher none _ p(1)] eq True p(2)
  show ?thesis using finish_state_pending[OF none, of q'] by (intro exI conjI) auto
next
  case False
  show ?thesis
  proof (cases ms)
    case Nil
    with eq have qp: "q' = q @ p" by simp
    with q' False obtain m where m: "good_message m" "strict_prefix (q @ p) (msg_bytes m)"
      by (auto simp: unfinished_def)
    from extract_inside[OF m False p(1) matcher pend] Nil qp show ?thesis by simp
  next
    case (Cons m ms')
    from q False obtain m' where m': "good_message m'" "strict_prefix q (msg_bytes m')"
      by (auto simp: unfinished_def)
    have m: "good_message m" using ms Cons by simp
    have "q @ p = msg_bytes m @ msgs_bytes ms' @ q'" using eq Cons by simp
    moreover from this have "prefix (msg_bytes m) q \<or> strict_prefix q (msg_bytes m)"
      by (metis prefix_def prefix_same_cases prefix_order.le_less)
    ultimately obtain r where r: "msg_bytes m = q @ r" "r \<noteq> []" "p = r @ msgs_bytes ms' @ q'"
      using unfinished_no_message[OF m m'] by (auto elim: strict_prefixE')
    have "ms' \<noteq> [] \<or> 8 \<le> length q' \<or> q' = []" using cut False Cons by auto
    with extract_completes[OF m r(1) False r(2) _ q' _ matcher pend r(3)] ms Cons p(2)
    show ?thesis by auto
  qed
qed

lemma stream_delivered:
  assumes "segmented q ps out" and "ctx_matcher ctx = fix_matcher"
    and "unfinished q" and "pending (ctx_state ctx) (sid_of sa sp da dp) q"
  shows "\<exists>st. run_packets sa sp da dp ps ctx = and_then (deliver_stream out ctx) (\<lambda>x. Inr (x\<lparr>ctx_state := st\<rparr>)) \<and>
    pending st (sid_of sa sp da dp) [] \<and> same_others (ctx_state ctx) st (sid_of sa sp da dp)"
  using assms
proof (induction arbitrary: ctx rule: segmented.induct)
  case segmented_end
  then show ?case by (intro exI[of _ "ctx_state ctx"]) simp
next
  case (segmented_packet ms q' q p ps out s ns)
  from extract_packet[OF segmented_packet.hyps(1) segmented_packet.prems(2) segmented_packet.hyps(2-6)
      segmented_packet.prems(1,3), of s ns] obtain st1
    where e: "vmars_extract_fix_messages ctx sa sp da dp s ns p (length p) =
      and_then (deliver_all s ns ms ctx) (\<lambda>x. Inr (x\<lparr>ctx_state := st1\<rparr>))"
      and st1: "pending st1 (sid_of sa sp da dp) q'" "same_others (ctx_state ctx) st1 (sid_of sa sp da dp)" by blast
  show ?case
  proof (cases "deliver_all s ns ms ctx")
    case (Inl f)
    from segmented_packet.IH[of "ctx\<lparr>ctx_state := st1\<rparr>"] segmented_packet.prems(1) segmented_packet.hyps(2) st1
    obtain st where "pending st (sid_of sa sp da dp) [] \<and> same_others st1 st (sid_of sa sp da dp)" by auto
    with e Inl st1 show ?thesis by (auto intro: same_others_trans)
  next
    case (Inr x)
    have "ctx_matcher (x\<lparr>ctx_state := st1\<rparr>) = fix_matcher"
      using deliver_all_frame[OF Inr] segmented_packet.prems(1) by simp
    from segmented_packet.IH[OF this segmented_packet.hyps(2)] st1 obtain st
      where "run_packets sa sp da dp ps (x\<lparr>ctx_state := st1\<rparr>) =
          and_then (deliver_stream out (x\<lparr>ctx_state := st1\<rparr>)) (\<lambda>x. Inr (x\<lparr>ctx_state := st\<rparr>))"
        "pending st (sid_of sa sp da dp) []" "same_others st1 st (sid_of sa sp da dp)" by auto
    with e Inr st1 show ?thesis
      by (intro exI[of _ st]) (auto simp: deliver_stream_state and_then_assoc intro: same_others_trans)
  qed
qed

subsection \<open>The fields behind a summary\<close>

text \<open>The value of the last field whose tag is in \<open>T\<close>, or \<open>b\<close>.\<close>

definition last_value :: "int set \<Rightarrow> field list \<Rightarrow> byte list \<Rightarrow> byte list" where
  "last_value T fs b = foldl (\<lambda>b f. if num_value 0 (fst f) \<in> T then snd f else b) b fs"

definition type_of_fields :: "field list \<Rightarrow> int" where
  "type_of_fields fs = foldl (\<lambda>t f. if num_value 0 (fst f) = FIX_MSG_TYPE
     then (case snd f of [c] \<Rightarrow> sint c | [c, e] \<Rightarrow> INT_OF c e | _ \<Rightarrow> t) else t) 0 fs"

lemma last_value_simps [simp]:
  "last_value T [] b = b"
  "last_value T (f # fs) b = last_value T fs (if num_value 0 (fst f) \<in> T then snd f else b)"
  by (simp_all add: last_value_def)

text \<open>A string of the details is the last field of its tags, copied without loss.\<close>

lemma run_fields_str:
  assumes eff: "\<And>d t v n d'. handle_tag d t v n = Inr d' \<Longrightarrow> sel d' = (if t \<in> T then fix_str_of v n else sel d)"
  shows "run_fields handle_tag mem fs d = Inr d' \<Longrightarrow> prefix (fields_bytes fs) mem \<Longrightarrow>
    0 \<notin> set (fields_bytes fs) \<Longrightarrow> length (fields_bytes fs) < 2 ^ 31 \<Longrightarrow> str_ok (sel d) b \<Longrightarrow>
    str_ok (sel d') (last_value T fs b)"
proof (induction fs arbitrary: mem d b)
  case (Cons f fs)
  obtain t v where f: "f = (t, v)" by (cases f)
  let ?v = "drop (length t + 1) mem"
  from Cons.prems(1) f obtain e where e: "handle_tag d (num_value 0 t) ?v (int (length v)) = Inr e"
    and run: "run_fields handle_tag (drop (length (field_bytes f)) mem) fs e = Inr d'"
    by (auto simp: and_then_eq_Inr)
  have pre: "prefix v ?v" "prefix (fields_bytes fs) (drop (length (field_bytes f)) mem)"
    using Cons.prems(2) f by (auto simp: prefix_def field_bytes_def)
  have vlen: "length v < 2 ^ 31" "0 \<notin> set v" using Cons.prems(3,4) f by (auto simp: field_bytes_def)
  have "take (length v) ?v = v" using pre(1) by (simp add: take_eq_prefix)
  then have "str_ok (fix_str_of ?v (int (length v))) v"
    using str_ok_of[of "int (length v)" ?v] vlen prefix_length_le[OF pre(1)] by simp
  then have okE: "str_ok (sel e) (if num_value 0 t \<in> T then v else b)"
    using eff[OF e] Cons.prems(5) by simp
  have "str_ok (sel d') (last_value T fs (if num_value 0 t \<in> T then v else b))"
    using Cons.prems(3,4) f by (intro Cons.IH[OF run pre(2) _ _ okE]) auto
  then show ?case unfolding f last_value_simps fst_conv snd_conv .
qed simp

lemma run_fields_type:
  "run_fields handle_tag mem fs d = Inr d' \<Longrightarrow> prefix (fields_bytes fs) mem \<Longrightarrow>
     message_type d' = foldl (\<lambda>t f. if num_value 0 (fst f) = FIX_MSG_TYPE
       then (case snd f of [c] \<Rightarrow> sint c | [c, e] \<Rightarrow> INT_OF c e | _ \<Rightarrow> t) else t) (message_type d) fs"
proof (induction fs arbitrary: mem d)
  case (Cons f fs)
  obtain t v where f: "f = (t, v)" by (cases f)
  let ?v = "drop (length t + 1) mem"
  from Cons.prems(1) f obtain e where e: "handle_tag d (num_value 0 t) ?v (int (length v)) = Inr e"
    and run: "run_fields handle_tag (drop (length (field_bytes f)) mem) fs e = Inr d'"
    by (auto simp: and_then_eq_Inr)
  have pre: "prefix (v @ [SOH]) ?v" "prefix (fields_bytes fs) (drop (length (field_bytes f)) mem)"
    using Cons.prems(2) f by (auto simp: prefix_def field_bytes_def)
  have "message_type e = (if num_value 0 t = FIX_MSG_TYPE
       then (case v of [c] \<Rightarrow> sint c | [c, e] \<Rightarrow> INT_OF c e | _ \<Rightarrow> message_type d) else message_type d)"
    using e pre(1) by (auto simp: handle_tag_def c_read_def prefix_def and_then_eq_Inr nth_append
        split: if_splits list.splits)
  then show ?case using Cons.IH[OF run pre(2)] f by simp
qed simp

lemma handle_tag_effects:
  assumes "handle_tag d t v n = Inr d'"
  shows "sender_comp_id d' = (if t \<in> {FIX_SENDER_COMP_ID} then fix_str_of v n else sender_comp_id d)"
    and "target_comp_id d' = (if t \<in> {FIX_TARGET_COMP_ID} then fix_str_of v n else target_comp_id d)"
    and "cl_ord_id d' = (if t \<in> {FIX_CL_ORD_ID, FIX_QUOTE_ID} then fix_str_of v n else cl_ord_id d)"
    and "symbol d' = (if t \<in> {FIX_SYMBOL, FIX_UNDERLYING_SYMBOL} then fix_str_of v n else symbol d)"
    and "security_id d' = (if t \<in> {FIX_SECURITY_ID, FIX_UNDERLYING_SECURITY_ID} then fix_str_of v n else security_id d)"
  using assms by (auto simp: handle_tag_def fix_tags and_then_eq_Inr split: if_splits)

definition sender_of :: "field list \<Rightarrow> byte list" where
  "sender_of fs = last_value {FIX_SENDER_COMP_ID} fs []"

definition target_of :: "field list \<Rightarrow> byte list" where
  "target_of fs = last_value {FIX_TARGET_COMP_ID} fs []"

definition instruction_of :: "field list \<Rightarrow> byte list" where
  "instruction_of fs = last_value {FIX_CL_ORD_ID, FIX_QUOTE_ID} fs []"

definition instrument_of :: "field list \<Rightarrow> byte list" where
  "instrument_of fs =
     (let sym = last_value {FIX_SYMBOL, FIX_UNDERLYING_SYMBOL} fs [] in
      if sym \<noteq> [] then sym else last_value {FIX_SECURITY_ID, FIX_UNDERLYING_SECURITY_ID} fs [])"

text \<open>A request names its sender first, a response its target: both name the remote side first.\<close>

definition is_request :: "int \<Rightarrow> bool" where
  "is_request t \<longleftrightarrow> t \<in> {MSG_TYPE_NEW_ORDER_SINGLE, MSG_TYPE_MASS_QUOTE, MSG_TYPE_TRACE_REQ}"

definition key_of_fields :: "field list \<Rightarrow> byte list" where
  "key_of_fields fs =
     (if is_request (type_of_fields fs)
      then latency_key (sender_of fs) (target_of fs) (instruction_of fs) (instrument_of fs)
      else latency_key (target_of fs) (sender_of fs) (instruction_of fs) (instrument_of fs))"

lemma details_of_message:
  assumes m: "good_message (h, ld, fs)" and d: "message_details (h, ld, fs) = Inr d"
  shows "message_type d = type_of_fields fs" "str_ok (sender_comp_id d) (sender_of fs)"
    "str_ok (target_comp_id d) (target_of fs)" "str_ok (cl_ord_id d) (instruction_of fs)"
    "str_ok (instrument_id d) (instrument_of fs)"
proof -
  have run: "run_fields handle_tag (fields_bytes fs) fs details_zero = Inr d" using d by simp
  have nul: "0 \<notin> set (fields_bytes fs)" and len: "length (fields_bytes fs) < 2 ^ 31"
    using m by (auto simp: message_bytes_def)
  note str = run_fields_str[OF _ run prefix_order.refl nul len, of _ _ "[]"]
  show "message_type d = type_of_fields fs"
    using run_fields_type[OF run prefix_order.refl] by (simp add: type_of_fields_def details_zero_def)
  show "str_ok (sender_comp_id d) (sender_of fs)" "str_ok (target_comp_id d) (target_of fs)"
    "str_ok (cl_ord_id d) (instruction_of fs)"
    unfolding sender_of_def target_of_def instruction_of_def
    by (intro str handle_tag_effects; simp add: details_zero_def)+
  have "str_ok (symbol d) (last_value {FIX_SYMBOL, FIX_UNDERLYING_SYMBOL} fs [])"
    "str_ok (security_id d) (last_value {FIX_SECURITY_ID, FIX_UNDERLYING_SECURITY_ID} fs [])"
    by (intro str handle_tag_effects; simp add: details_zero_def)+
  then show "str_ok (instrument_id d) (instrument_of fs)"
    by (auto simp: instrument_id_def instrument_of_def Let_def str_ok_def)
qed

end
