(* ===== verification/Fix_Properties.thy ===== *)
theory Fix_Properties
  imports Fix_Stream
begin

text \<open>
  The properties of the FIX extractor of \<^verbatim>\<open>src/fix.c\<close>: what is published for a message,
  that the cutting of a stream into packets does not matter, the memory safety of the tag
  callback, and the inputs on which the extractor loses a message or leaves its buffers.
\<close>

subsection \<open>What a message publishes\<close>

lemma length_last_value: "length (last_value T fs b) \<le> length b + length (fields_bytes fs)"
proof (induction fs arbitrary: b)
  case (Cons f fs)
  have "length (last_value T (f # fs) b) \<le> length (if num_value 0 (fst f) \<in> T then snd f else b) + length (fields_bytes fs)"
    unfolding last_value_simps by (rule Cons.IH)
  then show ?case by (simp split: if_splits)
qed simp

lemma key_length:
  assumes "good_message (h, ld, fs)"
  shows "length (key_of_fields fs) < 20000"
proof -
  have fb: "length (fields_bytes fs) < 4088" using assms by (simp add: message_bytes_def)
  have "length (last_value T fs []) < 4088" for T
    using length_last_value[of T fs "[]"] fb by simp
  then have "length (sender_of fs) < 4088" "length (target_of fs) < 4088" "length (instruction_of fs) < 4088"
    "length (instrument_of fs) < 4088"
    by (simp_all add: sender_of_def target_of_def instruction_of_def instrument_of_def Let_def)
  then show ?thesis by (simp add: key_of_fields_def latency_key_def)
qed

lemma latency_ids_fields:
  assumes m: "good_message (h, ld, fs)" "message_details (h, ld, fs) = Inr d" and measured: "fst (latency_ids d)"
  shows "\<exists>r l i b1 b2 b3. latency_ids d = (True, r, l, i) \<and> str_ok r b1 \<and> str_ok l b2 \<and> str_ok i b3 \<and>
    latency_key b1 b2 b3 (instrument_of fs) = key_of_fields fs"
proof -
  note D = details_of_message[OF m]
  show ?thesis
  proof (cases "is_request (type_of_fields fs)")
    case True
    then have "latency_ids d = (True, sender_comp_id d, target_comp_id d, cl_ord_id d)"
      using D(1) by (auto simp: latency_ids_def is_request_def)
    with D True show ?thesis unfolding key_of_fields_def by auto
  next
    case False
    then have "latency_ids d = (True, target_comp_id d, sender_comp_id d, cl_ord_id d)"
      using D(1) measured by (auto simp: latency_ids_def is_request_def split: if_splits)
    with D False show ?thesis unfolding key_of_fields_def by auto
  qed
qed

lemma deliver_publishes:
  assumes h: "rb_holds n (ctx_rb ctx) rs 0"
    and m: "good_message (h, ld, fs)" "message_details (h, ld, fs) = Inr d" and measured: "fst (latency_ids d)"
    and payload: "payload = summary_bytes s ns (type_of_fields fs) (key_of_fields fs)"
  shows "\<exists>rb'. deliver s ns (h, ld, fs) ctx = Inr ((count_valid ctx)
      \<lparr>ctx_counters := record_message_type_counter (ctx_counters (count_valid ctx)) (type_of_fields fs), ctx_rb := rb'\<rparr>) \<and>
    rb_holds n rb' (if rb_room n rs payload then rs @ [payload] else rs) 0"
proof -
  from latency_ids_fields[OF m measured] obtain r l i b1 b2 b3
    where ids: "latency_ids d = (True, r, l, i)" and ok: "str_ok r b1" "str_ok l b2" "str_ok i b3"
      and key: "latency_key b1 b2 b3 (instrument_of fs) = key_of_fields fs" by blast
  note D = details_of_message[OF m]
  have h': "rb_holds n (ctx_rb (count_valid ctx)) rs 0" using h by (simp add: count_valid_def)
  have small: "length payload < 2 ^ 31"
    using key_length[OF m(1)] by (simp add: payload summary_bytes_def)
  have payload': "payload = summary_bytes s ns (message_type d) (latency_key b1 b2 b3 (instrument_of fs))"
    by (simp only: payload key D(1))
  from process_ok[OF h' ids ok D(5) payload' small] show ?thesis
    unfolding deliver_def m(2) and_then_Inr D(1) by simp
qed

lemma extract_single:
  assumes m: "good_message m" and matcher: "ctx_matcher ctx = fix_matcher"
    and none: "get_fragment ctx (sid_of sa sp da dp) = None"
  shows "vmars_extract_fix_messages ctx sa sp da dp s ns (msg_bytes m) (length (msg_bytes m)) = deliver s ns m ctx"
proof -
  let ?sid = "sid_of sa sp da dp"
  have "msg_bytes m \<noteq> []" "length (msg_bytes m) < 2 ^ 30" using good_length[OF m] by auto
  moreover have "fragment_at (ctx_state ctx) ?sid = None" using none by (simp add: get_fragment_at)
  ultimately have "vmars_extract_fix_messages ctx sa sp da dp s ns (msg_bytes m) (length (msg_bytes m)) =
      and_then (deliver_all s ns [m] ctx) (\<lambda>x. Inr (x\<lparr>ctx_state := finish_state (ctx_state ctx) ?sid []\<rparr>))"
    using m matcher by (intro extract_fresh) (auto simp: unfinished_def)
  also have "\<dots> = deliver s ns m ctx"
  proof (cases "deliver s ns m ctx")
    case (Inr x)
    with deliver_frame[OF Inr] show ?thesis by (cases x) (simp add: finish_state_def)
  qed simp
  finally show ?thesis .
qed

subsection \<open>A sample message\<close>

definition sample_order :: "field list" where
  "sample_order = [([51, 53], [68]), ([52, 57], [65]), ([53, 54], [66, 66]), ([49, 49], [88, 49]), ([53, 53], [89])]"

definition sample_message :: "field list \<Rightarrow> fix_message" where
  "sample_message fs = (INITIAL_HEADER_42, decimal (length (fields_bytes fs)),
     fs @ [checksum_field (encode_body INITIAL_HEADER_42 fs)])"

definition order_message :: fix_message where
  "order_message = sample_message sample_order"

lemma sample_order_wf: "sample_order \<noteq> []" "\<forall>f\<in>set sample_order. wf_field f"
  "length (fields_bytes sample_order) < 2 ^ 31"
  by (auto simp: sample_order_def wf_field_def is_digit_def SOH_def)

lemma no_later_pattern: "first_occ p (tl b) = None \<Longrightarrow> \<forall>k>0. \<not> occurs_at p b k"
proof (intro allI impI)
  fix k :: nat assume "first_occ p (tl b) = None" "0 < k"
  then show "\<not> occurs_at p b k" by (cases b; cases k) (auto simp: first_occ_None occurs_at_def)
qed

lemma sample_message_good:
  assumes "fs \<noteq> []" "\<forall>f\<in>set fs. wf_field f" "length (fields_bytes fs) < 2 ^ 31"
    and "length (msg_bytes (sample_message fs)) < 4088" "0 \<notin> set (msg_bytes (sample_message fs))"
    and "first_occ FIX_PATTERN (tl (msg_bytes (sample_message fs))) = None"
  shows "good_message (sample_message fs)"
  using encode_message_wf(1,3)[OF sample_header assms(1-3)] no_later_pattern[OF assms(6)] assms(4,5)
  unfolding sample_message_def good_message.simps msg_bytes.simps by blast

lemma order_message_good: "good_message order_message"
  unfolding order_message_def by (rule sample_message_good[OF sample_order_wf]) code_simp+

definition sample_ctx :: vmars_capture_context where
  "sample_ctx = \<lparr>ctx_port = 9880, ctx_matcher = fix_matcher,
     ctx_rb = snd (vmars_spsc_rb_init 4096 True True sample_ring (2 ^ 12)),
     ctx_counters = counters_zero, ctx_state = None\<rparr>"

lemma sample_ctx_simps [simp]:
  "ctx_matcher sample_ctx = fix_matcher" "get_fragment sample_ctx sid = None"
  by (simp_all add: sample_ctx_def get_fragment_def)

lemma sample_ctx_ring: "rb_holds 12 (ctx_rb sample_ctx) [] 0"
proof -
  from init_ok[of 12 4096 sample_ring] obtain rb
    where "vmars_spsc_rb_init 4096 True True sample_ring (2 ^ 12) = (0, rb)" "rb_holds 12 rb [] 0" by auto
  then show ?thesis by (simp add: sample_ctx_def)
qed

lemma order_details: "\<exists>d. message_details order_message = Inr d \<and> fst (latency_ids d)"
proof -
  have "map_sum id (\<lambda>d. fst (latency_ids d)) (message_details order_message) = Inr True" by code_simp
  then show ?thesis by (cases "message_details order_message") auto
qed

lemma order_unfinished: "k < length (msg_bytes order_message) \<Longrightarrow> unfinished (take k (msg_bytes order_message))"
proof -
  let ?b = "msg_bytes order_message"
  assume "k < length ?b"
  then have "length (take k ?b) \<noteq> length ?b" by simp
  then have "take k ?b \<noteq> ?b" by metis
  then have "strict_prefix (take k ?b) ?b" by (simp add: strict_prefix_def take_is_prefix)
  then show ?thesis using order_message_good unfolding unfinished_def by blast
qed

subsection \<open>Properties\<close>

text \<open>C14: a stream of good messages (of fewer than 4088 bytes) is handled the same way however TCP cuts it into
  packets, but for one kind of cut: the extractor handles every message whole, once, in order and with the time of
  the packet in which it ends, and keeps no fragment behind. The excluded cut is that of C16, on which a message is
  lost: a packet that completes a pending message, holds the end of no other one, and ends within the first seven
  bytes of the next.\<close>

theorem stream_segmentation:
  assumes "segmented [] ps out" and "ctx_matcher ctx = fix_matcher"
    and "get_fragment ctx (sid_of sa sp da dp) = None"
  shows "\<exists>st. run_packets sa sp da dp ps ctx = and_then (deliver_stream out ctx) (\<lambda>x. Inr (x\<lparr>ctx_state := st\<rparr>)) \<and>
    get_fragment (ctx\<lparr>ctx_state := st\<rparr>) (sid_of sa sp da dp) = None"
proof -
  have "unfinished []" by (simp add: unfinished_def)
  moreover have "pending (ctx_state ctx) (sid_of sa sp da dp) []"
    using assms(3) by (simp add: pending_nil get_fragment_at)
  ultimately show ?thesis
    using stream_delivered[OF assms(1,2), of sa sp da dp] unfolding pending_nil get_fragment_at by auto
qed

theorem stream_segmentation_witness:
  "\<exists>st. run_packets 1 2 3 4 [(10, 0, take 5 (msg_bytes order_message)),
      (11, 0, take 20 (drop 5 (msg_bytes order_message))),
      (12, 0, drop 25 (msg_bytes order_message) @ msg_bytes order_message)] sample_ctx =
    and_then (deliver_stream [(10, 0, []), (11, 0, []), (12, 0, [order_message, order_message])] sample_ctx)
      (\<lambda>x. Inr (x\<lparr>ctx_state := st\<rparr>)) \<and>
    get_fragment (sample_ctx\<lparr>ctx_state := st\<rparr>) (sid_of 1 2 3 4) = None"
proof (rule stream_segmentation)
  let ?b = "msg_bytes order_message"
  have len: "length ?b = 49" by code_simp
  have nil: "unfinished []" by (simp add: unfinished_def)
  have t25: "take 25 ?b = take 5 ?b @ take 20 (drop 5 ?b)"
    using take_add[of 5 20 ?b] by simp
  have "segmented (take 25 ?b) [(12, 0, drop 25 ?b @ ?b)] [(12, 0, [order_message, order_message])]"
    by (rule segmented_packet[OF _ nil _ _ _ _ segmented_end]) (use order_message_good len in auto)
  then have "segmented (take 5 ?b) [(11, 0, take 20 (drop 5 ?b)), (12, 0, drop 25 ?b @ ?b)]
      [(11, 0, []), (12, 0, [order_message, order_message])]"
    by (rule segmented_packet[rotated 6]) (use len order_unfinished[of 25] t25 in auto)
  then show "segmented [] [(10, 0, take 5 ?b), (11, 0, take 20 (drop 5 ?b)), (12, 0, drop 25 ?b @ ?b)]
      [(10, 0, []), (11, 0, []), (12, 0, [order_message, order_message])]"
    by (rule segmented_packet[rotated 6]) (use len order_unfinished[of 5] in auto)
qed simp_all

text \<open>C15: a measured message that fills a packet is published as exactly one record, when the
  ring has room for it, and else dropped whole. The record is the packet's time, the message's
  type and the key made of the remote side's and the local side's CompID, the ClOrdID or QuoteID
  and the instrument, each copied in full; the valid-message counter goes up by one.\<close>

theorem message_published:
  assumes "rb_holds n (ctx_rb ctx) rs 0" and "ctx_matcher ctx = fix_matcher"
    and "get_fragment ctx (sid_of sa sp da dp) = None"
    and "good_message (h, ld, fs)" and "message_details (h, ld, fs) = Inr d" and "fst (latency_ids d)"
    and "payload = summary_bytes s ns (type_of_fields fs) (key_of_fields fs)"
  shows "\<exists>ctx'. vmars_extract_fix_messages ctx sa sp da dp s ns (message_bytes h ld fs)
        (length (message_bytes h ld fs)) = Inr ctx' \<and>
      rb_holds n (ctx_rb ctx') (if rb_room n rs payload then rs @ [payload] else rs) 0 \<and>
      valid_messages (ctx_counters ctx') = valid_messages (ctx_counters ctx) + 1 \<and>
      ctx_state ctx' = ctx_state ctx"
proof -
  from deliver_publishes[OF assms(1,4,5,6,7)] obtain rb'
    where "deliver s ns (h, ld, fs) ctx = Inr ((count_valid ctx)
      \<lparr>ctx_counters := record_message_type_counter (ctx_counters (count_valid ctx)) (type_of_fields fs), ctx_rb := rb'\<rparr>)"
      "rb_holds n rb' (if rb_room n rs payload then rs @ [payload] else rs) 0" by blast
  with extract_single[OF assms(4,2,3), of s ns] show ?thesis
    by (auto simp: count_valid_def record_message_type_counter_def atomic_release_increment_def)
qed

theorem message_published_witness:
  "\<exists>ctx'. vmars_extract_fix_messages sample_ctx 1 2 3 4 100 7 (msg_bytes order_message)
        (length (msg_bytes order_message)) = Inr ctx' \<and>
      rb_holds 12 (ctx_rb ctx') [summary_bytes 100 7 68 (bytes_of ''A|BB|X1|Y'')] 0 \<and>
      valid_messages (ctx_counters ctx') = 1"
proof -
  obtain h ld fs where m: "order_message = (h, ld, fs)" by (cases order_message)
  from order_details obtain d where d: "message_details order_message = Inr d" "fst (latency_ids d)" by blast
  have "type_of_fields (snd (snd order_message)) = 68"
    "key_of_fields (snd (snd order_message)) = bytes_of ''A|BB|X1|Y''" by code_simp+
  then have tk: "type_of_fields fs = 68" "key_of_fields fs = bytes_of ''A|BB|X1|Y''" by (simp_all add: m)
  have "rb_room 12 [] (summary_bytes 100 7 68 (bytes_of ''A|BB|X1|Y''))"
    by (simp add: rb_room_def rec_size_def SIZEOF_RECORD_def summary_bytes_def)
  then show ?thesis
    using message_published[OF sample_ctx_ring _ _ order_message_good[unfolded m] d[unfolded m] refl, of 1 2 3 4 100 7]
    by (auto simp: m tk sample_ctx_def counters_zero_def get_fragment_def)
qed

text \<open>The rest of a message whose start was not kept is counted as corrupt.\<close>

definition count_corrupt :: "vmars_capture_context \<Rightarrow> vmars_capture_context" where
  "count_corrupt ctx = ctx\<lparr>ctx_counters := (ctx_counters ctx)
     \<lparr>corrupt_messages := corrupt_messages (ctx_counters ctx) + 1\<rparr>\<rparr>"

lemma extract_orphan:
  assumes m: "good_message m" and p: "prefix (q @ p) (msg_bytes m)" "q \<noteq> []" "8 \<le> length p"
    and ctx: "ctx_matcher ctx = fix_matcher" "fragment_at (ctx_state ctx) (sid_of sa sp da dp) = None"
  shows "vmars_extract_fix_messages ctx sa sp da dp s ns p (length p) = Inr (count_corrupt ctx)"
proof -
  have small: "length p < 4088" using prefix_length_le[OF p(1)] good_length[OF m] by simp
  then have size: "size_to_int (length p) = int (length p)"
    "size_to_int (size_sub (int_to_size (int (length p))) (length p)) = 0"
    by (simp_all add: int_to_size_in size_sub_in size_to_int_in)
  have "boyermoore_search fix_matcher p (int (length p)) = Inr None"
    using small by (intro search_inside[OF m p(1,2)]) simp
  then show ?thesis
    unfolding extract_eq Let_def ctx(1) size leading_fragment_def get_fragment_at ctx(2)
    using p(3) by (simp add: ctx(1) atomic_release_increment_def size count_corrupt_def)
qed

text \<open>C16: the extractor loses a message. When the packet that completes a fragmented message ends
  within the first seven bytes of the next one, these bytes are taken for part of the fragment
  and discarded with it; the rest of the message in the next packet is then counted as corrupt
  and never delivered.\<close>

theorem message_start_lost:
  assumes "good_message m" and "msg_bytes m = q @ r" and "q \<noteq> []" and "r \<noteq> []"
    and "good_message m2" and "0 < k" and "k < 8" and "length (msg_bytes m) + k < 4088"
    and "ctx_matcher ctx = fix_matcher" and "pending (ctx_state ctx) (sid_of sa sp da dp) q"
  shows "\<exists>st. run_packets sa sp da dp [(s, ns, r @ take k (msg_bytes m2)), (s', ns', drop k (msg_bytes m2))] ctx =
      and_then (deliver s ns m ctx) (\<lambda>x. Inr (x\<lparr>ctx_state := st, ctx_counters := (ctx_counters x)
        \<lparr>corrupt_messages := corrupt_messages (ctx_counters x) + 1\<rparr>\<rparr>))"
proof -
  let ?sid = "sid_of sa sp da dp" and ?q2 = "take k (msg_bytes m2)" and ?p2 = "drop k (msg_bytes m2)"
  let ?p = "r @ ?q2"
  have L2: "20 \<le> length (msg_bytes m2)" "length (msg_bytes m2) < 4088" using good_length[OF assms(5)] by auto
  have "length ?q2 \<noteq> length (msg_bytes m2)" using L2 assms(7) by simp
  then have "?q2 \<noteq> msg_bytes m2" by metis
  then have sp: "strict_prefix ?q2 (msg_bytes m2)" by (simp add: strict_prefix_def take_is_prefix)
  then have u: "unfinished ?q2" using assms(5) unfolding unfinished_def by blast
  have nul: "0 \<notin> set ?p" using assms(1,2) unfinished_facts[OF u] by (cases m) auto
  have small: "length q + length ?p < 4088" using assms(2,8) by simp
  have whole: "prefix (msg_bytes m) (q @ ?p)" using assms(2) by simp
  from leading_fragment_completes[OF assms(1) whole assms(3,10) prefix_order.refl nul small, of s ns "length ?p"]
  obtain st where st: "fragment_at st ?sid = None" and lead: "leading_fragment ctx ?sid s ns ?p (length ?p) (length ?p) =
      and_then (deliver s ns m ctx) (\<lambda>x. Inr (x\<lparr>ctx_state := st\<rparr>))" by blast
  have "boyermoore_search fix_matcher ?p (int (length ?p)) = Inr None"
    using search_next[OF assms(1), of "length q" "[]" ?q2 ?p] u assms(2,3,7) small by simp
  moreover have "size_to_int (length ?p) = int (length ?p)" using small by (intro size_to_int_in) simp
  ultimately have "boyermoore_search fix_matcher ?p (size_to_int (length ?p)) = Inr None" by simp
  moreover have "size_to_int (size_sub (int_to_size (size_to_int (length ?p))) (length ?p)) = 0"
    using small by (simp add: int_to_size_in size_sub_in size_to_int_in)
  ultimately have first: "vmars_extract_fix_messages ctx sa sp da dp s ns ?p (length ?p) =
      and_then (deliver s ns m ctx) (\<lambda>x. Inr (x\<lparr>ctx_state := st\<rparr>))"
    using lead unfolding extract_eq Let_def assms(9) by (simp add: and_then_assoc del: append_take_drop_id)
  have second: "vmars_extract_fix_messages x sa sp da dp s' ns' ?p2 (length ?p2) = Inr (count_corrupt x)"
    if "ctx_matcher x = fix_matcher" "fragment_at (ctx_state x) ?sid = None" for x
    by (rule extract_orphan[OF assms(5) _ _ _ that, where q = ?q2]) (use L2 assms(6,7) in auto)
  show ?thesis
  proof (cases "deliver s ns m ctx")
    case (Inr x)
    with deliver_frame[OF Inr] assms(9) st first second[of "x\<lparr>ctx_state := st\<rparr>"]
    show ?thesis by (intro exI[of _ st]) (simp add: count_corrupt_def)
  qed (use first in simp)
qed

theorem message_start_lost_witness:
  "\<exists>st. run_packets 1 2 3 4 [(5, 6, drop 30 (msg_bytes order_message) @ take 4 (msg_bytes order_message)),
        (7, 8, drop 4 (msg_bytes order_message))]
      (sample_ctx\<lparr>ctx_state := put_state None (sid_of 1 2 3 4) (take 30 (msg_bytes order_message))\<rparr>) =
    and_then (deliver 5 6 order_message
      (sample_ctx\<lparr>ctx_state := put_state None (sid_of 1 2 3 4) (take 30 (msg_bytes order_message))\<rparr>))
      (\<lambda>x. Inr (x\<lparr>ctx_state := st, ctx_counters := (ctx_counters x)
        \<lparr>corrupt_messages := corrupt_messages (ctx_counters x) + 1\<rparr>\<rparr>))"
proof (rule message_start_lost[OF order_message_good _ _ _ order_message_good])
  have len: "length (msg_bytes order_message) = 49" by code_simp
  show "take 30 (msg_bytes order_message) \<noteq> []" "drop 30 (msg_bytes order_message) \<noteq> []"
    "length (msg_bytes order_message) + 4 < 4088" using len by auto
  then show "pending (ctx_state (sample_ctx\<lparr>ctx_state := put_state None (sid_of 1 2 3 4)
      (take 30 (msg_bytes order_message))\<rparr>)) (sid_of 1 2 3 4) (take 30 (msg_bytes order_message))"
    by (simp add: put_state_pending)
qed simp_all

subsection \<open>Memory safety of the tag callback\<close>

lemma in_bounds_read_digits: "in_bounds (read_digits acc (s @ [0]))"
  by (induction s arbitrary: acc) (auto simp: is_digit_def)

lemma skip_space_nul: "\<exists>t. skip_space (s @ [0]) = t @ [0]"
proof (induction s)
  case Nil
  then show ?case by (simp add: is_space_def)
next
  case (Cons c s)
  then show ?case by auto
qed

lemma in_bounds_atoi: "in_bounds (c_atoi (s @ [0]))"
proof -
  obtain t where t: "skip_space (s @ [0]) = t @ [0]" using skip_space_nul by blast
  show ?thesis
  proof (cases t)
    case Nil
    then show ?thesis by (simp add: c_atoi_def t is_digit_def)
  next
    case (Cons c u)
    then show ?thesis using in_bounds_read_digits[of _ u] in_bounds_read_digits[of 0 "c # u"]
      by (auto simp: c_atoi_def t intro!: in_bounds_and_then)
  qed
qed

lemma handle_tag_in_bounds:
  assumes "0 \<le> n" "n \<le> int (length v)" "v \<noteq> []"
  shows "in_bounds (handle_tag d t v n)"
proof -
  have "in_bounds (str2int v (int_to_size n))"
  proof (cases "int_to_size n > 31")
    case False
    have "int_to_size n \<le> length v"
    proof (cases "n < 2 ^ 31")
      case True
      then show ?thesis using assms by (simp add: int_to_size_in)
    next
      case big: False
      then have "2147483648 \<le> n" by simp
      then have "31 < int (length v)" using assms(2) by linarith
      then show ?thesis using False by simp
    qed
    then obtain b where "c_strncpy v (int_to_size n) = Inr b" using c_strncpy_total by blast
    then show ?thesis by (simp add: str2int_def in_bounds_atoi)
  qed (simp add: str2int_def)
  then have q: "in_bounds (and_then (str2int v (int_to_size n)) (\<lambda>q. Inr (d\<lparr>quote_status := q\<rparr>)))"
    by (rule in_bounds_and_then) simp
  have r: "c_read v 0 = Inr (v ! 0)" "n = 2 \<Longrightarrow> c_read v 1 = Inr (v ! 1)"
    using assms by (auto simp: c_read_def)
  show ?thesis unfolding handle_tag_def
    by (intro in_bounds_if q in_bounds_Inr) (simp_all add: r)
qed

text \<open>C17: on any bytes whatever, parsing a message with the callback of the extractor reads only
  the given bytes. The one fault left is the overflow of an \<open>int\<close> by the digits of the input.\<close>

theorem try_parse_memory_safe:
  assumes "len \<le> int (length buf)"
  shows "case try_parse_fix_message ctx buf len of Inl e \<Rightarrow> e = SignedOverflow | Inr _ \<Rightarrow> True"
proof -
  have "callback_in_bounds handle_tag"
    unfolding callback_in_bounds_def using handle_tag_in_bounds by blast
  from parse_in_bounds[OF this assms, of details_zero None None 0]
  have "in_bounds (try_parse_fix_message ctx buf len)"
    unfolding try_parse_fix_message_def Let_def by (intro in_bounds_and_then) (auto split: prod.splits)
  then show ?thesis by (cases "try_parse_fix_message ctx buf len")
      (auto simp: in_bounds_def intro: fault.exhaust)
qed

theorem try_parse_memory_safe_witness:
  "case try_parse_fix_message sample_ctx [56, 61, 70, 73, 88, 46, 52, 46, 50, 1, 57, 61, 53, 1, 255] 15 of
     Inl e \<Rightarrow> e = SignedOverflow | Inr _ \<Rightarrow> True"
  by (rule try_parse_memory_safe) simp

subsection \<open>Inputs that leave the buffers\<close>

text \<open>C18: \<open>put_fragment\<close> does not check the capacity of the fragment: a packet whose only
  message goes on in the next packet, and that is longer than 4088 bytes, is copied past the end
  of the 4096 bytes that were allocated.\<close>

theorem long_fragment_overflows:
  assumes "wf_message h ld fs" and "p = take k (message_bytes h ld fs)"
    and "4088 < k" and "k < length (message_bytes h ld fs)" and "k < 65536" and "0 \<notin> set p"
    and "\<forall>i>0. \<not> occurs_at FIX_PATTERN p i" and "ctx_matcher ctx = fix_matcher"
  shows "vmars_extract_fix_messages ctx sa sp da dp s ns p (length p) = Inl OutOfBounds"
proof -
  have len: "length p = k" using assms(2,4) by simp
  have pre: "prefix FIX_PATTERN p"
    by (rule prefix_length_prefix[OF message_pattern[OF assms(1)]])
       (use assms(2,3) len in \<open>auto simp: take_is_prefix\<close>)
  have search: "boyermoore_search fix_matcher p (int k) = Inr (Some 0)"
    using pre assms(3,5) len by (intro bm.find_here) auto
  have "boyermoore_search fix_matcher (drop (0 + 8) p) (int (length (drop (0 + 8) p))) = Inr None"
  proof (rule bm.find_absent)
    fix i
    have "\<not> occurs_at FIX_PATTERN p (8 + i)" using assms(7) by simp
    then show "\<not> occurs_at FIX_PATTERN (drop (0 + 8) p) i"
      using occurs_at_drop[of 8 p FIX_PATTERN i] len assms(3) by simp
  qed (use len assms(5) in auto)
  then have find: "find_next fix_matcher p 0 (int k) = Inr None"
    using find_next_searches[of 0 p None] len assms(3,5) by simp
  have parse: "try_parse_fix_message x p (int k) =
      Inr (\<lparr>pr_result = FIX_EMESSAGETOOSHORT, pr_bytes_consumed = int k\<rparr>, details_zero, x)" for x
    using parse_prefix[OF assms(1,4), of p details_zero None handle_tag None 0] assms(2) len
    by (simp add: try_parse_fix_message_def parse_result_def Let_def FIX_EMESSAGETOOSHORT_def)
  have "c_strncpy p k = Inr p" using assms(6) len c_strncpy_take[of k p] by simp
  then have put: "put_fragment x sid p (int k) = Inl OutOfBounds" for x sid
    using assms(3,5) by (simp add: put_fragment_def Let_def fragment_store_def int_to_size_in capacity_value)
  have size: "size_to_int k = int k" using assms(5) by (simp add: size_to_int_in)
  have loop: "extract_loop (Suc (length p)) ctx (sid_of sa sp da dp) s ns p 0 (int k) = Inl OutOfBounds"
    using assms(8) find parse put by (simp add: c_offset_def)
  show ?thesis unfolding extract_eq Let_def len size assms(8) search using loop
    by (simp add: len del: extract_loop.simps)
qed

definition long_fields :: "field list" where
  "long_fields = [([53, 56], replicate 5000 65)]"

lemma long_fields_wf: "long_fields \<noteq> []" "\<forall>f\<in>set long_fields. wf_field f"
  "length (fields_bytes long_fields) = 5004"
  by (auto simp: long_fields_def wf_field_def is_digit_def SOH_def)

lemma long_start:
  "take 4089 (encode_message INITIAL_HEADER_42 long_fields) =
     INITIAL_HEADER_42 @ [53, 48, 48, 52, 1, 53, 56, 61] @ replicate 4069 65"
proof -
  have "decimal 5004 = [53, 48, 48, 52]" by (simp add: decimal.simps)
  then show ?thesis
    using long_fields_wf(3) by (simp add: encode_message_def encode_body_def long_fields_def field_bytes_def SOH_def EQ_def)
qed

lemma long_no_pattern: "0 < i \<Longrightarrow> \<not> occurs_at FIX_PATTERN
    (INITIAL_HEADER_42 @ [53, 48, 48, 52, 1, 53, 56, 61] @ replicate n 65) i"
proof
  let ?h = "INITIAL_HEADER_42 @ [53, 48, 48, 52, 1, 53, 56, 61]"
  assume i: "0 < i" and occ: "occurs_at FIX_PATTERN (INITIAL_HEADER_42 @ [53, 48, 48, 52, 1, 53, 56, 61] @ replicate n 65) i"
  have pat: "(?h @ replicate n 65) ! (i + 5) = 46" "i + 8 \<le> length (?h @ replicate n 65)"
  proof -
    obtain zs where zs: "drop i (?h @ replicate n 65) = FIX_PATTERN @ zs" using occ by (auto simp: occurs_at_def prefix_def)
    then show len: "i + 8 \<le> length (?h @ replicate n 65)"
      using arg_cong[OF zs, of length]
      unfolding length_drop length_append[of FIX_PATTERN] length_FIX_PATTERN by linarith
    have "drop i (?h @ replicate n 65) ! 5 = 46" unfolding zs by (simp add: FIX_PATTERN_bytes nth_append)
    moreover have "i \<le> length (?h @ replicate n 65)" using len by linarith
    ultimately show "(?h @ replicate n 65) ! (i + 5) = 46" by (simp only: nth_drop)
  qed
  show False
  proof (cases "i + 5 < 20")
    case True
    then have "i \<in> set [1..<15]" using i by simp
    moreover have "\<forall>i\<in>set [1..<15]. ?h ! (i + 5) = 46 \<longrightarrow> i = 2"
      by (simp add: upt_rec INITIAL_HEADER_42_def bytes_of_def of_char_def SOH_def)
    moreover have "?h ! (i + 5) = 46"
    proof -
      have "i + 5 < length ?h" using True by simp
      then have "(?h @ replicate n 65) ! (i + 5) = ?h ! (i + 5)" by (simp only: nth_append if_True)
      with pat(1) show ?thesis by simp
    qed
    ultimately have "i = 2" by blast
    with occ show False by (simp add: occurs_at_def INITIAL_HEADER_42_def bytes_of_def of_char_def FIX_PATTERN_bytes)
  next
    case False
    then have "(?h @ replicate n 65) ! (i + 5) = 65" using pat(2) by (simp add: nth_append)
    with pat(1) show False by simp
  qed
qed

theorem long_fragment_overflows_witness:
  "vmars_extract_fix_messages sample_ctx 1 2 3 4 5 6
     (INITIAL_HEADER_42 @ [53, 48, 48, 52, 1, 53, 56, 61] @ replicate 4069 65)
     (length (INITIAL_HEADER_42 @ [53, 48, 48, 52, 1, 53, 56, 61] @ replicate 4069 65)) = Inl OutOfBounds"
proof -
  note wf = encode_message_wf[OF sample_header long_fields_wf(1,2)]
  have len: "length (encode_message INITIAL_HEADER_42 long_fields) > 4089"
    using long_fields_wf(3) by (simp add: encode_message_def encode_body_def)
  show ?thesis
  proof (rule long_fragment_overflows)
    show "wf_message INITIAL_HEADER_42 (decimal (length (fields_bytes long_fields)))
        (long_fields @ [checksum_field (encode_body INITIAL_HEADER_42 long_fields)])"
      using wf(1) long_fields_wf(3) by simp
    show "INITIAL_HEADER_42 @ [53, 48, 48, 52, 1, 53, 56, 61] @ replicate 4069 65 =
        take 4089 (message_bytes INITIAL_HEADER_42 (decimal (length (fields_bytes long_fields)))
          (long_fields @ [checksum_field (encode_body INITIAL_HEADER_42 long_fields)]))"
      using wf(2) long_fields_wf(3) long_start by simp
    show "4089 < length (message_bytes INITIAL_HEADER_42 (decimal (length (fields_bytes long_fields)))
          (long_fields @ [checksum_field (encode_body INITIAL_HEADER_42 long_fields)]))"
      using wf(2) long_fields_wf(3) len by simp
    show "0 \<notin> set (INITIAL_HEADER_42 @ [53, 48, 48, 52, 1, 53, 56, 61] @ replicate 4069 65)"
      using header_no_nul by simp
    show "\<forall>i>0. \<not> occurs_at FIX_PATTERN (INITIAL_HEADER_42 @ [53, 48, 48, 52, 1, 53, 56, 61] @ replicate 4069 65) i"
      using long_no_pattern by blast
  qed simp_all
qed

text \<open>Bytes between two messages are not subtracted from the remaining length, so that the
  extractor takes the packet to be longer than it is: the search for a third message reads past
  the packet's end, and where memory follows the packet, the last bytes of the second message
  are kept as the start of a message.\<close>

definition heartbeat :: "byte list" where
  "heartbeat = encode_message INITIAL_HEADER_42 [([51, 53], [48]), ([53, 56], bytes_of ''ABCDEFGHIJ'')]"

theorem junk_between_messages_over_reads:
  "vmars_extract_fix_messages (sample_ctx\<lparr>ctx_rb := sample_ring\<rparr>) 1 2 3 4 5 6
      (heartbeat @ replicate 20 10 @ heartbeat) (2 * length heartbeat + 20) = Inl OutOfBounds \<and>
   (\<exists>ctx f. vmars_extract_fix_messages (sample_ctx\<lparr>ctx_rb := sample_ring\<rparr>) 1 2 3 4 5 6
      (heartbeat @ replicate 20 10 @ heartbeat @ replicate 30 11) (2 * length heartbeat + 20) = Inr ctx \<and>
    valid_messages (ctx_counters ctx) = 2 \<and> get_fragment ctx (sid_of 1 2 3 4) = Some f \<and>
    frag_s f = drop (length heartbeat - 20) heartbeat)"
proof
  let ?obs = "map_sum id (\<lambda>c. (valid_messages (ctx_counters c), map_option frag_s (get_fragment c (sid_of 1 2 3 4))))"
  let ?run = "\<lambda>m. vmars_extract_fix_messages (sample_ctx\<lparr>ctx_rb := sample_ring\<rparr>) 1 2 3 4 5 6
      (heartbeat @ replicate 20 10 @ heartbeat @ m) (2 * length heartbeat + 20)"
  have "?obs (?run []) = Inl OutOfBounds" by code_simp
  then show "vmars_extract_fix_messages (sample_ctx\<lparr>ctx_rb := sample_ring\<rparr>) 1 2 3 4 5 6
      (heartbeat @ replicate 20 10 @ heartbeat) (2 * length heartbeat + 20) = Inl OutOfBounds"
    by (cases "?run []") simp_all
  have "?obs (?run (replicate 30 11)) = Inr (2, Some (drop (length heartbeat - 20) heartbeat))" by code_simp
  then show "\<exists>ctx f. ?run (replicate 30 11) = Inr ctx \<and>
    valid_messages (ctx_counters ctx) = 2 \<and> get_fragment ctx (sid_of 1 2 3 4) = Some f \<and>
    frag_s f = drop (length heartbeat - 20) heartbeat"
    by (cases "?run (replicate 30 11)") auto
qed

end
