(* ===== verification/Packet.thy ===== *)
theory Packet
  imports Fix_Properties
begin

text \<open>
  The capture thread, \<^verbatim>\<open>src/packet.c\<close>: the blocks of the PACKET_MMAP ring, the frames in a block, the
  Ethernet, IP and TCP headers of a frame, and the loop over the blocks. A block is the list of its
  bytes and a pointer into it an offset; the layouts are those of the kernel's headers on x86-64. The set-up of the
  socket and its system calls are in \<^verbatim>\<open>Capture_Thread\<close>.
\<close>

subsection \<open>Memory of a block\<close>

text \<open>An unsigned integer of \<open>n\<close> bytes at offset \<open>a\<close>.\<close>

definition load :: "byte list \<Rightarrow> nat \<Rightarrow> nat \<Rightarrow> int res" where
  "load blk a n = (if a + n \<le> length blk then Inr (le_value (take n (drop a blk))) else Inl OutOfBounds)"

definition ntohs :: "int \<Rightarrow> int" where
  "ntohs x = (x mod 256) * 256 + x div 256"

definition ETH_HLEN :: nat where "ETH_HLEN = 14"
definition ETH_P_IP :: int where "ETH_P_IP = 0x0800"
definition TP_STATUS_KERNEL :: int where "TP_STATUS_KERNEL = 0"
definition TP_STATUS_USER :: int where "TP_STATUS_USER = 1"

text \<open>The fields of \<open>struct tpacket3_hdr\<close> and of \<open>struct block_desc\<close>.\<close>

definition tp_next_offset :: "byte list \<Rightarrow> nat \<Rightarrow> int res" where "tp_next_offset blk ppd = load blk ppd 4"
definition tp_sec :: "byte list \<Rightarrow> nat \<Rightarrow> int res" where "tp_sec blk ppd = load blk (ppd + 4) 4"
definition tp_nsec :: "byte list \<Rightarrow> nat \<Rightarrow> int res" where "tp_nsec blk ppd = load blk (ppd + 8) 4"
definition tp_snaplen :: "byte list \<Rightarrow> nat \<Rightarrow> int res" where "tp_snaplen blk ppd = load blk (ppd + 12) 4"
definition tp_mac :: "byte list \<Rightarrow> nat \<Rightarrow> int res" where "tp_mac blk ppd = load blk (ppd + 24) 2"

definition block_status :: "byte list \<Rightarrow> int res" where "block_status pbd = load pbd 8 4"
definition num_pkts :: "byte list \<Rightarrow> int res" where "num_pkts pbd = load pbd 12 4"
definition offset_to_first_pkt :: "byte list \<Rightarrow> int res" where "offset_to_first_pkt pbd = load pbd 16 4"

subsection \<open>One frame\<close>

text \<open>
  The lengths are computed in \<open>int\<close> and subtracted from a \<open>size_t\<close>. The \<open>&\<close> of the two
  comparisons evaluates both.
\<close>

definition display :: "vmars_capture_context \<Rightarrow> byte list \<Rightarrow> nat \<Rightarrow> vmars_capture_context res" where
  "display ctx blk ppd =
     and_then (tp_mac blk ppd) (\<lambda>mac.
     let eth = ppd + nat mac; ip = eth + ETH_HLEN in
     and_then (load blk (eth + 12) 2) (\<lambda>h_proto.
     if h_proto \<noteq> ntohs ETH_P_IP then Inr ctx
     else
       and_then (load blk ip 1) (\<lambda>version_ihl.
       let iphdr_len = (version_ihl mod 16) * 4; tcp = eth + ETH_HLEN + nat iphdr_len in
       and_then (load blk tcp 2) (\<lambda>tcp_source.
       and_then (load blk (tcp + 2) 2) (\<lambda>tcp_dest.
       let src_port = ntohs tcp_source; dst_port = ntohs tcp_dest in
       if src_port \<noteq> ctx_port ctx \<and> dst_port \<noteq> ctx_port ctx then Inr ctx
       else
         and_then (load blk (tcp + 12) 1) (\<lambda>res_doff.
         let doff = (res_doff div 16) * 4; data_ptr = tcp + nat doff in
         and_then (load blk (ip + 2) 2) (\<lambda>tot_len.
         let data_len = size_sub (nat (ntohs tot_len)) (nat (iphdr_len + doff)) in
         if data_len = 0 then Inr ctx
         else
           and_then (load blk (ip + 12) 4) (\<lambda>ip_saddr.
           and_then (load blk (ip + 16) 4) (\<lambda>ip_daddr.
           and_then (tp_sec blk ppd) (\<lambda>sec.
           and_then (tp_nsec blk ppd) (\<lambda>nsec.
           and_then (c_offset blk (int data_ptr)) (\<lambda>data.
             vmars_extract_fix_messages ctx (word_of_int ip_saddr) (word_of_int tcp_source)
               (word_of_int ip_daddr) (word_of_int tcp_dest) (word_of_int sec) (word_of_int nsec)
               data data_len))))))))))))"

subsection \<open>One block\<close>

fun walk_packets ::
    "nat \<Rightarrow> vmars_capture_context \<Rightarrow> byte list \<Rightarrow> nat \<Rightarrow> vmars_capture_context res" where
  "walk_packets 0 ctx blk ppd = Inr ctx"
| "walk_packets (Suc n) ctx blk ppd =
     and_then (tp_snaplen blk ppd) (\<lambda>snaplen.
     and_then (display ctx blk ppd) (\<lambda>ctx'.
     and_then (tp_next_offset blk ppd) (\<lambda>next_offset.
       walk_packets n ctx' blk (ppd + nat next_offset))))"

text \<open>
  \<open>num_pkts\<close> is read as an \<open>int\<close>. The sum of the lengths of the packets is not used; the counter of
  bytes goes up by one.
\<close>

definition walk_block :: "vmars_capture_context \<Rightarrow> byte list \<Rightarrow> vmars_capture_context res" where
  "walk_block ctx pbd =
     and_then (num_pkts pbd) (\<lambda>n.
     and_then (offset_to_first_pkt pbd) (\<lambda>first.
     and_then (walk_packets (nat (sint (word_of_int n :: 32 word))) ctx pbd (nat first)) (\<lambda>ctx'.
       Inr (ctx'\<lparr>ctx_counters := (ctx_counters ctx')
         \<lparr>bytes_total := bytes_total (ctx_counters ctx') + 1\<rparr>\<rparr>))))"

definition flush_block :: "byte list \<Rightarrow> byte list" where
  "flush_block pbd = take 8 pbd @ le_bytes 4 TP_STATUS_KERNEL @ drop 12 pbd"

subsection \<open>The loop over the ring of blocks\<close>

definition BLOCKS :: nat where "BLOCKS = 64"

record capture_thread =
  ct_ctx :: vmars_capture_context
  ct_blocks :: "byte list list"
  ct_block_num :: nat

text \<open>One turn of the loop of \<open>vmars_poll_socket\<close>; without a block it waits in \<open>poll\<close>.\<close>

definition poll_block :: "capture_thread \<Rightarrow> capture_thread res" where
  "poll_block t =
     and_then (c_read (ct_blocks t) (int (ct_block_num t))) (\<lambda>pbd.
     and_then (block_status pbd) (\<lambda>status.
     if status AND TP_STATUS_USER = 0 then Inr t
     else
       and_then (walk_block (ct_ctx t) pbd) (\<lambda>ctx'.
         Inr (t\<lparr>ct_ctx := ctx', ct_blocks := (ct_blocks t)[ct_block_num t := flush_block pbd],
                ct_block_num := (ct_block_num t + 1) mod BLOCKS\<rparr>))))"

subsection \<open>Bytes at an offset\<close>

definition bytes_at :: "byte list \<Rightarrow> nat \<Rightarrow> byte list \<Rightarrow> bool" where
  "bytes_at blk a bs \<longleftrightarrow> (\<exists>xs ys. blk = xs @ bs @ ys \<and> length xs = a)"

lemma bytes_at_append:
  "bytes_at blk a (bs @ cs) \<longleftrightarrow> bytes_at blk a bs \<and> bytes_at blk (a + length bs) cs"
proof
  assume "bytes_at blk a (bs @ cs)"
  then obtain xs ys where b: "blk = xs @ (bs @ cs) @ ys" "length xs = a" by (auto simp: bytes_at_def)
  have "blk = xs @ bs @ (cs @ ys)" "blk = (xs @ bs) @ cs @ ys" "length (xs @ bs) = a + length bs"
    using b by simp_all
  then show "bytes_at blk a bs \<and> bytes_at blk (a + length bs) cs" using b(2) unfolding bytes_at_def by blast
next
  assume h: "bytes_at blk a bs \<and> bytes_at blk (a + length bs) cs"
  then obtain xs ys where b: "blk = xs @ bs @ ys" "length xs = a" by (auto simp: bytes_at_def)
  from h obtain us vs where c: "blk = us @ cs @ vs" "length us = a + length bs" by (auto simp: bytes_at_def)
  have "us = xs @ bs" using b c by (metis append.assoc append_eq_append_conv length_append)
  then have "blk = xs @ (bs @ cs) @ vs" using c by simp
  then show "bytes_at blk a (bs @ cs)" using b(2) unfolding bytes_at_def by blast
qed

lemma bytes_at_Cons: "bytes_at blk a (b # bs) \<longleftrightarrow> bytes_at blk a [b] \<and> bytes_at blk (a + 1) bs"
  using bytes_at_append[of blk a "[b]" bs] by simp

lemma bytes_at_load: "bytes_at blk a bs \<Longrightarrow> load blk a (length bs) = Inr (le_value bs)"
  by (auto simp: bytes_at_def load_def)

lemma bytes_at_int: "bytes_at blk a (le_bytes n x) \<Longrightarrow> 0 \<le> x \<Longrightarrow> x < 256 ^ n \<Longrightarrow> load blk a n = Inr x"
  using bytes_at_load[of blk a "le_bytes n x"] by (simp add: le_value_bytes)

lemma bytes_at_byte: "bytes_at blk a [b] \<Longrightarrow> load blk a 1 = Inr (uint b)"
  using bytes_at_load[of blk a "[b]"] by simp

lemma bytes_at_drop: "bytes_at blk a bs \<Longrightarrow> take (length bs) (drop a blk) = bs \<and> a + length bs \<le> length blk"
  by (auto simp: bytes_at_def)

subsection \<open>Frames\<close>

text \<open>
  A frame as the kernel stores it: the fields that the code reads, and as lists of bytes those it does not
  read (among them the protocol of the IP header, in \<open>fr_ip_mid\<close>). Ports are in host order.
\<close>

record frame =
  fr_next :: int
  fr_sec :: "32 word"
  fr_nsec :: "32 word"
  fr_sizes :: "byte list"
  fr_net :: "byte list"
  fr_macs :: "byte list"
  fr_proto :: int
  fr_version :: nat
  fr_tos :: "byte list"
  fr_tot_len :: int
  fr_ip_mid :: "byte list"
  fr_saddr :: "32 word"
  fr_daddr :: "32 word"
  fr_ip_options :: "byte list"
  fr_sport :: int
  fr_dport :: int
  fr_seq_ack :: "byte list"
  fr_reserved :: nat
  fr_tcp_rest :: "byte list"
  fr_tcp_options :: "byte list"
  fr_payload :: "byte list"

definition headers_len :: "frame \<Rightarrow> nat" where
  "headers_len f = 40 + length (fr_ip_options f) + length (fr_tcp_options f)"

definition data_offset :: "frame \<Rightarrow> nat" where
  "data_offset f = 26 + length (fr_net f) + ETH_HLEN + headers_len f"

definition frame_bytes :: "frame \<Rightarrow> byte list" where
  "frame_bytes f =
     le_bytes 4 (fr_next f) @ le_bytes 4 (uint (fr_sec f)) @ le_bytes 4 (uint (fr_nsec f)) @ fr_sizes f @
     le_bytes 2 (26 + int (length (fr_net f))) @ fr_net f @
     fr_macs f @ le_bytes 2 (ntohs (fr_proto f)) @
     [of_nat (fr_version f * 16 + (5 + length (fr_ip_options f) div 4))] @ fr_tos f @
     le_bytes 2 (ntohs (fr_tot_len f)) @ fr_ip_mid f @
     le_bytes 4 (uint (fr_saddr f)) @ le_bytes 4 (uint (fr_daddr f)) @ fr_ip_options f @
     le_bytes 2 (ntohs (fr_sport f)) @ le_bytes 2 (ntohs (fr_dport f)) @ fr_seq_ack f @
     [of_nat ((5 + length (fr_tcp_options f) div 4) * 16 + fr_reserved f)] @ fr_tcp_rest f @
     fr_tcp_options f @ fr_payload f"

definition frame_ok :: "frame \<Rightarrow> bool" where
  "frame_ok f \<longleftrightarrow> 0 \<le> fr_next f \<and> fr_next f < 2 ^ 32 \<and> length (fr_sizes f) = 12 \<and>
     length (fr_net f) < 65000 \<and> length (fr_macs f) = 12 \<and> 0 \<le> fr_proto f \<and> fr_proto f < 2 ^ 16 \<and>
     fr_version f < 16 \<and> length (fr_tos f) = 1 \<and> 0 \<le> fr_tot_len f \<and> fr_tot_len f < 2 ^ 16 \<and>
     length (fr_ip_mid f) = 8 \<and> 4 dvd length (fr_ip_options f) \<and> length (fr_ip_options f) \<le> 40 \<and>
     0 \<le> fr_sport f \<and> fr_sport f < 2 ^ 16 \<and> 0 \<le> fr_dport f \<and> fr_dport f < 2 ^ 16 \<and>
     length (fr_seq_ack f) = 8 \<and> fr_reserved f < 16 \<and> length (fr_tcp_rest f) = 7 \<and>
     4 dvd length (fr_tcp_options f) \<and> length (fr_tcp_options f) \<le> 40"

lemma ntohs_swap: "0 \<le> x \<Longrightarrow> x < 2 ^ 16 \<Longrightarrow> ntohs (ntohs x) = x \<and> 0 \<le> ntohs x \<and> ntohs x < 2 ^ 16"
proof -
  assume "0 \<le> x" "x < 2 ^ 16"
  then have d: "0 \<le> x div 256" "x div 256 < 256" "0 \<le> x mod 256" "x mod 256 < 256" by auto
  then have "(x mod 256 * 256 + x div 256) mod 256 = x div 256" "(x mod 256 * 256 + x div 256) div 256 = x mod 256"
    by simp_all
  moreover have "x div 256 * 256 + x mod 256 = x" by simp
  ultimately show ?thesis using d unfolding ntohs_def by simp
qed

lemma nibbles:
  assumes "a < 16" and "b < 16"
  shows "uint (of_nat (a * 16 + b) :: byte) mod 16 = int b" and "uint (of_nat (a * 16 + b) :: byte) div 16 = int a"
proof -
  define n where "n = a * 16 + b"
  have "n < 256" using assms by (simp add: n_def)
  then have "uint (of_nat n :: byte) = int n"
    by (simp add: unsigned_of_nat take_bit_nat_eq_self)
  then have u: "uint (of_nat (a * 16 + b) :: byte) = int a * 16 + int b" by (simp add: n_def)
  have "int b div 16 = 0" "int b mod 16 = int b" using assms(2) by simp_all
  then show "uint (of_nat (a * 16 + b) :: byte) mod 16 = int b" "uint (of_nat (a * 16 + b) :: byte) div 16 = int a"
    unfolding u by (simp_all only: mod_mult_self3 div_mult_self3 mod_mult_self4 add.commute) simp_all
qed

lemma frame_loads:
  assumes at: "bytes_at blk ppd (frame_bytes f)" and ok: "frame_ok f" and mac: "mac = 26 + length (fr_net f)"
    and tcp: "tcp = ppd + mac + ETH_HLEN + 20 + length (fr_ip_options f)"
  shows "tp_next_offset blk ppd = Inr (fr_next f)" "tp_sec blk ppd = Inr (uint (fr_sec f))"
    "tp_nsec blk ppd = Inr (uint (fr_nsec f))" "tp_mac blk ppd = Inr (int mac)"
    "tp_snaplen blk ppd = Inr (le_value (take 4 (fr_sizes f)))"
    "load blk (ppd + mac + 12) 2 = Inr (ntohs (fr_proto f))"
    "load blk (ppd + mac + ETH_HLEN) 1 =
       Inr (uint (of_nat (fr_version f * 16 + (5 + length (fr_ip_options f) div 4)) :: byte))"
    "load blk (ppd + mac + ETH_HLEN + 2) 2 = Inr (ntohs (fr_tot_len f))"
    "load blk (ppd + mac + ETH_HLEN + 12) 4 = Inr (uint (fr_saddr f))"
    "load blk (ppd + mac + ETH_HLEN + 16) 4 = Inr (uint (fr_daddr f))"
    "load blk tcp 2 = Inr (ntohs (fr_sport f))" "load blk (tcp + 2) 2 = Inr (ntohs (fr_dport f))"
    "load blk (tcp + 12) 1 = Inr (uint (of_nat ((5 + length (fr_tcp_options f) div 4) * 16 + fr_reserved f) :: byte))"
    "bytes_at blk (ppd + data_offset f) (fr_payload f)"
proof -
  note k = ok[unfolded frame_ok_def]
  have u: "0 \<le> uint w \<and> uint w < 256 ^ 4" for w :: "32 word" using uint_lt2p[of w] by simp
  have sz: "fr_sizes f = take 4 (fr_sizes f) @ drop 4 (fr_sizes f)" by simp
  have "bytes_at blk ppd (le_bytes 4 (fr_next f))" "bytes_at blk (ppd + 4) (le_bytes 4 (uint (fr_sec f)))"
    "bytes_at blk (ppd + 8) (le_bytes 4 (uint (fr_nsec f)))" "bytes_at blk (ppd + 12) (fr_sizes f)"
    "bytes_at blk (ppd + 24) (le_bytes 2 (26 + int (length (fr_net f))))"
    "bytes_at blk (ppd + mac + 12) (le_bytes 2 (ntohs (fr_proto f)))"
    "bytes_at blk (ppd + mac + ETH_HLEN) [of_nat (fr_version f * 16 + (5 + length (fr_ip_options f) div 4))]"
    "bytes_at blk (ppd + mac + ETH_HLEN + 2) (le_bytes 2 (ntohs (fr_tot_len f)))"
    "bytes_at blk (ppd + mac + ETH_HLEN + 12) (le_bytes 4 (uint (fr_saddr f)))"
    "bytes_at blk (ppd + mac + ETH_HLEN + 16) (le_bytes 4 (uint (fr_daddr f)))"
    "bytes_at blk tcp (le_bytes 2 (ntohs (fr_sport f)))" "bytes_at blk (tcp + 2) (le_bytes 2 (ntohs (fr_dport f)))"
    "bytes_at blk (tcp + 12) [of_nat ((5 + length (fr_tcp_options f) div 4) * 16 + fr_reserved f)]"
    and p: "bytes_at blk (ppd + data_offset f) (fr_payload f)"
    using at k unfolding frame_bytes_def bytes_at_append
    by (simp_all add: mac tcp ETH_HLEN_def data_offset_def headers_len_def ac_simps)
  note B = this
  show "bytes_at blk (ppd + data_offset f) (fr_payload f)" by (rule p)
  have "bytes_at blk (ppd + 12) (take 4 (fr_sizes f) @ drop 4 (fr_sizes f))" using B(4) by simp
  then have "bytes_at blk (ppd + 12) (take 4 (fr_sizes f))" unfolding bytes_at_append by blast
  from bytes_at_load[OF this] show "tp_snaplen blk ppd = Inr (le_value (take 4 (fr_sizes f)))"
    using k by (simp add: tp_snaplen_def)
  show "tp_next_offset blk ppd = Inr (fr_next f)" "tp_sec blk ppd = Inr (uint (fr_sec f))"
    "tp_nsec blk ppd = Inr (uint (fr_nsec f))" "tp_mac blk ppd = Inr (int mac)"
    using B(1,2,3,5) k u by (simp_all add: tp_next_offset_def tp_sec_def tp_nsec_def tp_mac_def mac bytes_at_int)
  show "load blk (ppd + mac + 12) 2 = Inr (ntohs (fr_proto f))"
    "load blk (ppd + mac + ETH_HLEN + 2) 2 = Inr (ntohs (fr_tot_len f))"
    "load blk tcp 2 = Inr (ntohs (fr_sport f))" "load blk (tcp + 2) 2 = Inr (ntohs (fr_dport f))"
    using B(6,8,11,12) k ntohs_swap by (simp_all add: bytes_at_int)
  show "load blk (ppd + mac + ETH_HLEN + 12) 4 = Inr (uint (fr_saddr f))"
    "load blk (ppd + mac + ETH_HLEN + 16) 4 = Inr (uint (fr_daddr f))"
    using B(9,10) u by (simp_all add: bytes_at_int)
  show "load blk (ppd + mac + ETH_HLEN) 1 =
       Inr (uint (of_nat (fr_version f * 16 + (5 + length (fr_ip_options f) div 4)) :: byte))"
    "load blk (tcp + 12) 1 = Inr (uint (of_nat ((5 + length (fr_tcp_options f) div 4) * 16 + fr_reserved f) :: byte))"
    using B(7,13) by (blast intro: bytes_at_byte)+
qed

subsection \<open>What a frame does\<close>

text \<open>The specification: a frame for the capture port is handed to the extractor with its payload.\<close>

definition for_port :: "int \<Rightarrow> frame \<Rightarrow> bool" where
  "for_port port f \<longleftrightarrow> fr_proto f = ETH_P_IP \<and> (fr_sport f = port \<or> fr_dport f = port)"

definition frame_data_len :: "frame \<Rightarrow> nat" where
  "frame_data_len f = size_sub (nat (fr_tot_len f)) (headers_len f)"

definition extract_frame :: "vmars_capture_context \<Rightarrow> frame \<Rightarrow> byte list \<Rightarrow> vmars_capture_context res" where
  "extract_frame ctx f data =
     vmars_extract_fix_messages ctx (fr_saddr f) (word_of_int (ntohs (fr_sport f)))
       (fr_daddr f) (word_of_int (ntohs (fr_dport f))) (fr_sec f) (fr_nsec f) data (frame_data_len f)"

lemma ntohs_eq: "0 \<le> x \<Longrightarrow> x < 2 ^ 16 \<Longrightarrow> 0 \<le> y \<Longrightarrow> y < 2 ^ 16 \<Longrightarrow> ntohs x = ntohs y \<longleftrightarrow> x = y"
  by (metis ntohs_swap)

lemma display_frame:
  assumes at: "bytes_at blk ppd (frame_bytes f)" and ok: "frame_ok f"
  shows "display ctx blk ppd =
    (if for_port (ctx_port ctx) f \<and> frame_data_len f \<noteq> 0
     then extract_frame ctx f (drop (ppd + data_offset f) blk) else Inr ctx)"
proof -
  define mac where "mac = 26 + length (fr_net f)"
  define tcp where "tcp = ppd + mac + ETH_HLEN + 20 + length (fr_ip_options f)"
  note k = ok[unfolded frame_ok_def]
  note L = frame_loads[OF at ok mac_def tcp_def]
  have swap: "ntohs (ntohs (fr_sport f)) = fr_sport f" "ntohs (ntohs (fr_dport f)) = fr_dport f"
    "ntohs (ntohs (fr_tot_len f)) = fr_tot_len f" "ntohs (fr_proto f) = ntohs ETH_P_IP \<longleftrightarrow> fr_proto f = ETH_P_IP"
    using k ntohs_swap by (auto simp: ntohs_eq ETH_P_IP_def)
  have opts: "length (fr_ip_options f) div 4 \<le> 10" "length (fr_tcp_options f) div 4 \<le> 10" using k by auto
  have ihl: "uint (of_nat (fr_version f * 16 + (5 + length (fr_ip_options f) div 4)) :: byte) mod 16 * 4 =
      20 + int (length (fr_ip_options f))"
    using k opts by (subst nibbles(1)) (auto elim!: dvdE)
  have doff: "uint (of_nat ((5 + length (fr_tcp_options f) div 4) * 16 + fr_reserved f) :: byte) div 16 * 4 =
      20 + int (length (fr_tcp_options f))"
    using k opts by (subst nibbles(2)) (auto elim!: dvdE)
  have tcp: "ppd + mac + ETH_HLEN + nat (20 + int (length (fr_ip_options f))) = tcp"
    by (simp add: tcp_def nat_add_distrib)
  have data: "tcp + nat (20 + int (length (fr_tcp_options f))) = ppd + data_offset f"
    by (simp add: tcp_def mac_def data_offset_def headers_len_def nat_add_distrib)
  have hl: "nat (20 + int (length (fr_ip_options f)) + (20 + int (length (fr_tcp_options f)))) = headers_len f"
    by (simp add: headers_len_def nat_add_distrib)
  have "c_offset blk (int d) = Inr (drop d blk)" if "d \<le> length blk" for d
    using that by (simp add: c_offset_def)
  then have off: "c_offset blk (int (ppd + data_offset f)) = Inr (drop (ppd + data_offset f) blk)"
    using bytes_at_drop[OF L(14)] by (meson add_leD1)
  show ?thesis
    unfolding display_def L(4) and_then_Inr Let_def nat_int L(6) L(7) swap(4) ihl tcp L(11) L(12) L(13) L(8) L(9) L(10)
      L(2) L(3) swap(1-3) doff data hl off word_of_int_uint
    by (simp add: for_port_def extract_frame_def frame_data_len_def)
qed

subsection \<open>What a block does\<close>

definition handle_frame :: "vmars_capture_context \<Rightarrow> frame \<Rightarrow> byte list \<Rightarrow> vmars_capture_context res" where
  "handle_frame ctx f data =
     (if for_port (ctx_port ctx) f \<and> frame_data_len f \<noteq> 0 then extract_frame ctx f data else Inr ctx)"

subsection \<open>Frames that are passed over\<close>

text \<open>
  Any other frame, by its bytes: the 20 bytes behind the offset to the next frame, what lies between the header and the
  Ethernet frame, and the Ethernet frame. The code passes over a frame that is not of IPv4, whatever follows
  (ARP, IPv6), and one of IPv4 whose bytes at the place of the ports are not the capture port, whatever its
  headers are.
\<close>

record raw_frame =
  rf_next :: int
  rf_header :: "byte list"
  rf_net :: "byte list"
  rf_ethernet :: "byte list"

definition raw_bytes :: "raw_frame \<Rightarrow> byte list" where
  "raw_bytes r = le_bytes 4 (rf_next r) @ rf_header r @ le_bytes 2 (26 + int (length (rf_net r))) @ rf_net r @ rf_ethernet r"

definition raw_ok :: "raw_frame \<Rightarrow> bool" where
  "raw_ok r \<longleftrightarrow> 0 \<le> rf_next r \<and> rf_next r < 2 ^ 32 \<and> length (rf_header r) = 20 \<and> length (rf_net r) < 65000"

definition be16 :: "byte list \<Rightarrow> nat \<Rightarrow> int" where
  "be16 bs a = uint (bs ! a) * 256 + uint (bs ! (a + 1))"

definition passed_over :: "int \<Rightarrow> byte list \<Rightarrow> bool" where
  "passed_over port eth \<longleftrightarrow> ETH_HLEN \<le> length eth \<and>
     (be16 eth 12 \<noteq> ETH_P_IP \<or>
      (let tcp = ETH_HLEN + nat (uint (eth ! ETH_HLEN) mod 16 * 4) in
       ETH_HLEN < length eth \<and> tcp + 4 \<le> length eth \<and> be16 eth tcp \<noteq> port \<and> be16 eth (tcp + 2) \<noteq> port))"

lemma bytes_at_sub: "bytes_at blk a bs \<Longrightarrow> i + n \<le> length bs \<Longrightarrow> bytes_at blk (a + i) (take n (drop i bs))"
  unfolding bytes_at_def
  by (elim exE conjE, rule_tac x = "xs @ take i bs" in exI, rule_tac x = "drop (i + n) bs @ ys" in exI)
    (simp add: min_def, metis append_take_drop_id drop_drop add.commute)

lemma load_be16:
  assumes "bytes_at blk a bs" and "i + 2 \<le> length bs"
  shows "\<exists>v. load blk (a + i) 2 = Inr v \<and> ntohs v = be16 bs i \<and> 0 \<le> v \<and> v < 2 ^ 16"
proof -
  have t: "take 2 (drop i bs) = [bs ! i, bs ! (i + 1)]"
    using assms(2) by (simp add: numeral_2_eq_2 take_Suc_conv_app_nth)
  have "load blk (a + i) (length [bs ! i, bs ! (i + 1)]) = Inr (le_value [bs ! i, bs ! (i + 1)])"
    using bytes_at_sub [OF assms] unfolding t by (rule bytes_at_load)
  moreover have "0 \<le> uint (bs ! i)" "uint (bs ! i) < 256" "0 \<le> uint (bs ! (i + 1))" "uint (bs ! (i + 1)) < 256"
    using uint_lt2p [of "bs ! i"] uint_lt2p [of "bs ! (i + 1)"] by simp_all
  ultimately show ?thesis by (simp add: ntohs_def be16_def numeral_2_eq_2)
qed

lemma raw_loads:
  assumes at: "bytes_at blk ppd (raw_bytes r)" and ok: "raw_ok r"
  shows "tp_next_offset blk ppd = Inr (rf_next r)" "tp_snaplen blk ppd = Inr (le_value (take 4 (drop 8 (rf_header r))))"
    "tp_mac blk ppd = Inr (26 + int (length (rf_net r)))"
    "bytes_at blk (ppd + 26 + length (rf_net r)) (rf_ethernet r)"
proof -
  note k = ok [unfolded raw_ok_def]
  have B: "bytes_at blk ppd (le_bytes 4 (rf_next r))" "bytes_at blk (ppd + 4) (rf_header r)"
    "bytes_at blk (ppd + 24) (le_bytes 2 (26 + int (length (rf_net r))))"
    and e: "bytes_at blk (ppd + 26 + length (rf_net r)) (rf_ethernet r)"
    using at k unfolding raw_bytes_def bytes_at_append by (simp_all add: ac_simps)
  show "bytes_at blk (ppd + 26 + length (rf_net r)) (rf_ethernet r)" by (rule e)
  have "bytes_at blk (ppd + 4 + 8) (take 4 (drop 8 (rf_header r)))" using k by (intro bytes_at_sub [OF B(2)]) simp
  from bytes_at_load [OF this] show "tp_snaplen blk ppd = Inr (le_value (take 4 (drop 8 (rf_header r))))"
    using k by (simp add: tp_snaplen_def add.commute)
  show "tp_next_offset blk ppd = Inr (rf_next r)" "tp_mac blk ppd = Inr (26 + int (length (rf_net r)))"
    using B(1,3) k by (simp_all add: tp_next_offset_def tp_mac_def bytes_at_int)
qed

lemma display_raw:
  assumes at: "bytes_at blk ppd (raw_bytes r)" and ok: "raw_ok r" and over: "passed_over (ctx_port ctx) (rf_ethernet r)"
  shows "display ctx blk ppd = Inr ctx"
proof -
  let ?e = "rf_ethernet r"
  define eth where "eth = ppd + 26 + length (rf_net r)"
  have mac: "tp_mac blk ppd = Inr (26 + int (length (rf_net r)))" "ppd + nat (26 + int (length (rf_net r))) = eth"
    using raw_loads [OF at ok] by (simp_all add: eth_def nat_add_distrib)
  have e: "bytes_at blk eth ?e" using raw_loads [OF at ok] by (simp add: eth_def)
  have len: "12 + 2 \<le> length ?e" using over by (simp add: passed_over_def ETH_HLEN_def)
  from load_be16 [OF e len] obtain v where v: "load blk (eth + 12) 2 = Inr v" "ntohs v = be16 ?e 12" "0 \<le> v" "v < 2 ^ 16"
    by blast
  have proto: "v = ntohs ETH_P_IP \<longleftrightarrow> be16 ?e 12 = ETH_P_IP"
    using ntohs_swap [of v] ntohs_swap [of ETH_P_IP] v by (auto simp: ETH_P_IP_def)
  show ?thesis
  proof (cases "be16 ?e 12 = ETH_P_IP")
    case False
    then have "v \<noteq> ntohs ETH_P_IP" using proto by simp
    then show ?thesis unfolding display_def mac(1) and_then_Inr Let_def mac(2) v(1) by simp
  next
    case True
    define tcp where "tcp = ETH_HLEN + nat (uint (?e ! ETH_HLEN) mod 16 * 4)"
    have ip: "ETH_HLEN < length ?e" "tcp + 2 + 2 \<le> length ?e" "be16 ?e tcp \<noteq> ctx_port ctx" "be16 ?e (tcp + 2) \<noteq> ctx_port ctx"
      using over True by (simp_all add: passed_over_def Let_def tcp_def)
    have "bytes_at blk (eth + ETH_HLEN) (take 1 (drop ETH_HLEN ?e))" using ip(1) by (intro bytes_at_sub [OF e]) simp
    moreover have "take 1 (drop ETH_HLEN ?e) = [?e ! ETH_HLEN]" using ip(1) by (simp add: take_Suc_conv_app_nth)
    ultimately have ihl: "load blk (eth + ETH_HLEN) 1 = Inr (uint (?e ! ETH_HLEN))" using bytes_at_byte by simp
    obtain sp dp where "load blk (eth + tcp) 2 = Inr sp" "ntohs sp = be16 ?e tcp"
      "load blk (eth + tcp + 2) 2 = Inr dp" "ntohs dp = be16 ?e (tcp + 2)"
      using load_be16 [OF e, of tcp] load_be16 [OF e, of "tcp + 2"] ip(2) by (auto simp: add.assoc)
    note ports = this
    have t: "eth + ETH_HLEN + nat (uint (?e ! ETH_HLEN) mod 16 * 4) = eth + tcp" by (simp add: tcp_def)
    show ?thesis
      unfolding display_def mac(1) and_then_Inr Let_def mac(2) v(1) ihl t ports using ip(3,4) by simp
  qed
qed

text \<open>What the kernel has captured: a frame with the headers of TCP over IPv4, or any other.\<close>

datatype captured = Tcp_Frame frame | Raw_Frame raw_frame

fun captured_next :: "captured \<Rightarrow> int" where
  "captured_next (Tcp_Frame f) = fr_next f"
| "captured_next (Raw_Frame r) = rf_next r"

fun captured_bytes :: "captured \<Rightarrow> byte list" where
  "captured_bytes (Tcp_Frame f) = frame_bytes f"
| "captured_bytes (Raw_Frame r) = raw_bytes r"

fun captured_shape :: "captured \<Rightarrow> bool" where
  "captured_shape (Tcp_Frame f) = frame_ok f"
| "captured_shape (Raw_Frame r) = raw_ok r"

fun raw_passed :: "int \<Rightarrow> captured \<Rightarrow> bool" where
  "raw_passed port (Tcp_Frame f) = True"
| "raw_passed port (Raw_Frame r) = passed_over port (rf_ethernet r)"

fun frames_at :: "byte list \<Rightarrow> nat \<Rightarrow> captured list \<Rightarrow> bool" where
  "frames_at blk off [] = True"
| "frames_at blk off (c # fs) =
     (captured_shape c \<and> bytes_at blk off (captured_bytes c) \<and> frames_at blk (off + nat (captured_next c)) fs)"

fun handle_captured :: "byte list \<Rightarrow> nat \<Rightarrow> captured \<Rightarrow> vmars_capture_context \<Rightarrow> vmars_capture_context res" where
  "handle_captured blk off (Tcp_Frame f) ctx = handle_frame ctx f (drop (off + data_offset f) blk)"
| "handle_captured blk off (Raw_Frame r) ctx = Inr ctx"

fun handle_frames ::
    "byte list \<Rightarrow> nat \<Rightarrow> captured list \<Rightarrow> vmars_capture_context \<Rightarrow> vmars_capture_context res" where
  "handle_frames blk off [] ctx = Inr ctx"
| "handle_frames blk off (c # fs) ctx =
     and_then (handle_captured blk off c ctx) (handle_frames blk (off + nat (captured_next c)) fs)"

lemma display_captured:
  assumes "bytes_at blk off (captured_bytes c)" and "captured_shape c" and "raw_passed (ctx_port ctx) c"
  shows "display ctx blk off = handle_captured blk off c ctx"
  using assms display_frame display_raw by (cases c) (simp_all add: handle_frame_def)

lemma captured_loads:
  assumes "bytes_at blk off (captured_bytes c)" and "captured_shape c"
  shows "\<exists>v. tp_snaplen blk off = Inr v" and "tp_next_offset blk off = Inr (captured_next c)"
  using assms frame_loads(1,5) [OF _ _ refl refl] raw_loads(1,2) by (cases c; auto)+

text \<open>The port of a thread is the one of its configuration, whatever it extracts.\<close>

definition port_kept :: "int \<Rightarrow> vmars_capture_context res \<Rightarrow> bool" where
  "port_kept p r \<longleftrightarrow> (\<forall>c. r = Inr c \<longrightarrow> ctx_port c = p)"

lemma port_kept_Inr: "ctx_port c = p \<Longrightarrow> port_kept p (Inr c)"
  by (simp add: port_kept_def)

lemma port_kept_bind: "(\<And>x. m = Inr x \<Longrightarrow> port_kept p (f x)) \<Longrightarrow> port_kept p (and_then m f)"
  by (cases m) (simp_all add: port_kept_def)

lemma port_kept_if: "port_kept p x \<Longrightarrow> port_kept p y \<Longrightarrow> port_kept p (if b then x else y)"
  by simp

lemma port_keptD: "port_kept p m \<Longrightarrow> m = Inr c \<Longrightarrow> ctx_port c = p"
  by (simp add: port_kept_def)

lemma process_port: "process_for_latency_measurement ctx s ns d = Inr ctx' \<Longrightarrow> ctx_port ctx' = ctx_port ctx"
  by (auto simp: process_for_latency_measurement_def and_then_eq_Inr Let_def
      split: prod.splits if_splits option.splits)

lemma process_port_kept: "ctx_port ctx = p \<Longrightarrow> port_kept p (process_for_latency_measurement ctx s ns d)"
  using process_port by (auto simp: port_kept_def)

lemma put_port_kept: "ctx_port ctx = p \<Longrightarrow> port_kept p (put_fragment ctx sid b n)"
  by (auto simp: port_kept_def put_fragment_def and_then_eq_Inr Let_def)

lemma remove_port [simp]: "ctx_port (remove_fragment ctx sid) = ctx_port ctx"
  by (simp add: remove_fragment_def split: option.split)

lemma try_parse_port: "try_parse_fix_message ctx b n = Inr (result, d, ctx') \<Longrightarrow> ctx_port ctx' = ctx_port ctx"
  by (auto simp: try_parse_fix_message_def and_then_eq_Inr Let_def split: prod.splits)

lemma leading_port_kept: "port_kept (ctx_port ctx) (leading_fragment ctx sid s ns data n m)"
proof (cases "get_fragment ctx sid")
  case None
  then show ?thesis
    unfolding leading_fragment_def Let_def option.case
    by simp (intro conjI impI put_port_kept port_kept_Inr; simp)
next
  case (Some f)
  show ?thesis
    unfolding leading_fragment_def Let_def option.case Some
    by (intro port_kept_if port_kept_bind port_kept_Inr; clarsimp)
      (auto dest!: try_parse_port process_port intro!: port_kept_bind port_kept_Inr)
qed

lemma loop_port: "extract_loop k ctx sid s ns data c n = Inr (ctx', m) \<Longrightarrow> ctx_port ctx' = ctx_port ctx"
proof (induction k arbitrary: ctx c n)
  case (Suc k)
  from Suc.prems obtain next_msg message result d c1 c2 where
    parse: "try_parse_fix_message ctx message (case next_msg of None \<Rightarrow> n | Some i \<Rightarrow> i - c) = Inr (result, d, c1)"
    and mid: "(if pr_result result = 0 then process_for_latency_measurement c1 s ns d
       else if pr_result result = FIX_EMESSAGETOOSHORT
       then put_fragment c1 sid message (case next_msg of None \<Rightarrow> n | Some i \<Rightarrow> i - c) else Inr c1) = Inr c2"
    and rest: "(case next_msg of None \<Rightarrow> Inr (c2, n - pr_bytes_consumed result)
       | Some i \<Rightarrow> extract_loop k c2 sid s ns data i (n - pr_bytes_consumed result)) = Inr (ctx', m)"
    unfolding extract_loop.simps and_then_eq_Inr Let_def split_paired_Ex prod.case by blast
  have "ctx_port c1 = ctx_port ctx" by (rule try_parse_port [OF parse])
  moreover have "ctx_port c2 = ctx_port c1"
    by (rule port_keptD [OF _ mid]) (intro port_kept_if process_port_kept put_port_kept port_kept_Inr refl)
  moreover have "ctx_port ctx' = ctx_port c2" using rest Suc.IH by (cases next_msg) auto
  ultimately show ?case by simp
qed simp

lemma extract_port_kept: "port_kept (ctx_port ctx) (vmars_extract_fix_messages ctx sa sp da dp s ns data n)"
proof -
  have lead: "ctx_port c1 = ctx_port ctx"
    if "(if current = Some 0 then Inr (ctx, rem)
       else and_then (leading_fragment ctx sid s ns data n l) (\<lambda>ctx'. Inr (ctx', rem'))) = Inr (c1, rem1)" for current rem sid l rem' c1 rem1
    using that leading_port_kept [of ctx sid s ns data n l] by (auto simp: and_then_eq_Inr port_kept_def split: if_splits)
  have loop: "ctx_port c2 = ctx_port c1"
    if "(case current of None \<Rightarrow> Inr (c1, rem1) | Some c \<Rightarrow> extract_loop k c1 sid s ns data c rem1) = Inr (c2, rem2)"
    for current c1 rem1 k sid c2 rem2
    using that loop_port by (auto split: option.splits)
  show ?thesis
    unfolding vmars_extract_fix_messages_def Let_def
    by (intro port_kept_bind; clarsimp simp del: extract_loop.simps)
      (auto dest!: lead loop intro!: port_kept_bind put_port_kept port_kept_Inr simp del: extract_loop.simps)
qed

lemma handle_captured_port: "handle_captured blk off c ctx = Inr ctx' \<Longrightarrow> ctx_port ctx' = ctx_port ctx"
  by (cases c) (auto simp: handle_frame_def extract_frame_def dest: port_keptD [OF extract_port_kept] split: if_splits)

lemma walk_packets_frames:
  "frames_at blk off fs \<Longrightarrow> \<forall>c\<in>set fs. raw_passed (ctx_port ctx) c \<Longrightarrow>
     walk_packets (length fs) ctx blk off = handle_frames blk off fs ctx"
proof (induction fs arbitrary: off ctx)
  case (Cons c fs)
  then have at: "bytes_at blk off (captured_bytes c)" "captured_shape c"
    and rest: "frames_at blk (off + nat (captured_next c)) fs" by simp_all
  have d: "display ctx blk off = handle_captured blk off c ctx" using display_captured [OF at] Cons.prems(2) by simp
  show ?case
  proof (cases "handle_captured blk off c ctx")
    case (Inr ctx')
    with handle_captured_port Cons.IH [OF rest, of ctx'] Cons.prems(2) captured_loads [OF at] d show ?thesis by auto
  qed (use captured_loads [OF at] d in auto)
qed simp

text \<open>A block with its descriptor: the frames \<open>fs\<close>, the first at \<open>first\<close>.\<close>

definition block_holds :: "byte list \<Rightarrow> nat \<Rightarrow> captured list \<Rightarrow> bool" where
  "block_holds pbd first fs \<longleftrightarrow> bytes_at pbd 12 (le_bytes 4 (int (length fs)) @ le_bytes 4 (int first)) \<and>
     length fs < 2 ^ 31 \<and> first < 2 ^ 32 \<and> frames_at pbd first fs"

definition count_block :: "vmars_capture_context \<Rightarrow> vmars_capture_context" where
  "count_block ctx = ctx\<lparr>ctx_counters := (ctx_counters ctx)\<lparr>bytes_total := bytes_total (ctx_counters ctx) + 1\<rparr>\<rparr>"

lemma walk_block_frames:
  assumes "block_holds pbd first fs" and "\<forall>c\<in>set fs. raw_passed (ctx_port ctx) c"
  shows "walk_block ctx pbd = and_then (handle_frames pbd first fs ctx) (\<lambda>x. Inr (count_block x))"
proof -
  have b: "bytes_at pbd 12 (le_bytes 4 (int (length fs)))" "bytes_at pbd 16 (le_bytes 4 (int first))"
    and n: "length fs < 2147483648" "first < 4294967296" and at: "frames_at pbd first fs"
    using assms(1) by (simp_all add: block_holds_def bytes_at_append)
  have "num_pkts pbd = Inr (int (length fs))" "offset_to_first_pkt pbd = Inr (int first)"
    using b n by (simp_all add: num_pkts_def offset_to_first_pkt_def bytes_at_int)
  moreover have "sint (word_of_int (int (length fs)) :: 32 word) = int (length fs)"
    using n(1) sint_small[of "of_nat (length fs) :: 32 word"] by (simp add: unat_of_nat)
  ultimately show ?thesis
    by (simp add: walk_block_def walk_packets_frames[OF at assms(2)] count_block_def)
qed

subsection \<open>The kernel and the thread\<close>

text \<open>
  The two sides of the ring: the kernel fills the blocks in the order of the ring, each when the thread has
  given it back. \<open>rw_filled\<close> and \<open>rw_handled\<close> are ghosts, the blocks filled and handled so far.
\<close>

record ring_world =
  rw_thread :: capture_thread
  rw_kernel :: nat
  rw_filled :: "byte list list"
  rw_handled :: "byte list list"

definition owned_by_user :: "byte list \<Rightarrow> bool" where
  "owned_by_user pbd \<longleftrightarrow> (\<exists>s. block_status pbd = Inr s \<and> s AND TP_STATUS_USER \<noteq> 0)"

definition owned_by_kernel :: "byte list \<Rightarrow> bool" where
  "owned_by_kernel pbd \<longleftrightarrow> (\<exists>s. block_status pbd = Inr s \<and> s AND TP_STATUS_USER = 0)"

inductive world_step :: "ring_world \<Rightarrow> ring_world \<Rightarrow> bool" where
  kernel_fills: "\<lbrakk>rw_thread w = t; k = rw_kernel w; owned_by_kernel (ct_blocks t ! k); owned_by_user b\<rbrakk> \<Longrightarrow>
     world_step w (w\<lparr>rw_thread := t\<lparr>ct_blocks := (ct_blocks t)[k := b]\<rparr>, rw_kernel := (k + 1) mod BLOCKS,
                    rw_filled := rw_filled w @ [b]\<rparr>)"
| thread_waits: "\<lbrakk>owned_by_kernel (ct_blocks (rw_thread w) ! ct_block_num (rw_thread w));
     poll_block (rw_thread w) = Inr t'\<rbrakk> \<Longrightarrow> world_step w (w\<lparr>rw_thread := t'\<rparr>)"
| thread_handles: "\<lbrakk>b = ct_blocks (rw_thread w) ! ct_block_num (rw_thread w); owned_by_user b;
     poll_block (rw_thread w) = Inr t'\<rbrakk> \<Longrightarrow>
     world_step w (w\<lparr>rw_thread := t', rw_handled := rw_handled w @ [b]\<rparr>)"

inductive world_reach :: "ring_world \<Rightarrow> ring_world \<Rightarrow> bool" where
  world_start: "world_reach w w"
| world_more: "world_reach w w1 \<Longrightarrow> world_step w1 w2 \<Longrightarrow> world_reach w w2"

text \<open>The start: the socket is set up, every block is the kernel's.\<close>

definition world_init :: "ring_world \<Rightarrow> bool" where
  "world_init w \<longleftrightarrow> length (ct_blocks (rw_thread w)) = BLOCKS \<and> (\<forall>b\<in>set (ct_blocks (rw_thread w)). owned_by_kernel b) \<and>
     ct_block_num (rw_thread w) = 0 \<and> rw_kernel w = 0 \<and> rw_filled w = [] \<and> rw_handled w = []"

fun walk_blocks :: "byte list list \<Rightarrow> vmars_capture_context \<Rightarrow> vmars_capture_context res" where
  "walk_blocks [] ctx = Inr ctx"
| "walk_blocks (b # bs) ctx = and_then (walk_block ctx b) (walk_blocks bs)"

lemma walk_blocks_snoc: "walk_blocks (bs @ [b]) ctx = and_then (walk_blocks bs ctx) (\<lambda>c. walk_block c b)"
proof (induction bs arbitrary: ctx)
  case Nil
  then show ?case by (cases "walk_block ctx b") simp_all
next
  case (Cons a bs)
  then show ?case by (cases "walk_block ctx a") simp_all
qed

text \<open>The ring of blocks: the \<open>n\<close> blocks from the thread's position on wait for it, the others are the kernel's.\<close>

definition waiting :: "byte list list \<Rightarrow> nat \<Rightarrow> nat \<Rightarrow> byte list list" where
  "waiting bs p n = map (\<lambda>i. bs ! ((p + i) mod BLOCKS)) [0..<n]"

definition owner :: "bool \<Rightarrow> byte list \<Rightarrow> bool" where
  "owner user b = (if user then owned_by_user b else owned_by_kernel b)"

definition ring_inv :: "byte list list \<Rightarrow> nat \<Rightarrow> nat \<Rightarrow> nat \<Rightarrow> bool" where
  "ring_inv bs p n k \<longleftrightarrow> length bs = BLOCKS \<and> p < BLOCKS \<and> n \<le> BLOCKS \<and> k = (p + n) mod BLOCKS \<and>
     (\<forall>i<BLOCKS. owner (i < n) (bs ! ((p + i) mod BLOCKS)))"

definition world_ok :: "vmars_capture_context \<Rightarrow> ring_world \<Rightarrow> nat \<Rightarrow> bool" where
  "world_ok ctx0 w n \<longleftrightarrow>
     ring_inv (ct_blocks (rw_thread w)) (ct_block_num (rw_thread w)) n (rw_kernel w) \<and>
     rw_filled w = rw_handled w @ waiting (ct_blocks (rw_thread w)) (ct_block_num (rw_thread w)) n \<and>
     walk_blocks (rw_handled w) ctx0 = Inr (ct_ctx (rw_thread w))"

lemma owned_exclusive: "owned_by_user b \<Longrightarrow> \<not> owned_by_kernel b"
  by (auto simp: owned_by_user_def owned_by_kernel_def)

lemma world_init_ok: "world_init w \<Longrightarrow> world_ok (ct_ctx (rw_thread w)) w 0"
  by (auto simp: world_init_def world_ok_def ring_inv_def owner_def waiting_def BLOCKS_def)

lemma flush_block_owned: "owned_by_user b \<Longrightarrow> owned_by_kernel (flush_block b)"
proof -
  assume "owned_by_user b"
  then have len: "12 \<le> length b" by (auto simp: owned_by_user_def block_status_def load_def split: if_splits)
  then have "bytes_at (flush_block b) 8 (le_bytes 4 0)"
    unfolding bytes_at_def flush_block_def TP_STATUS_KERNEL_def
    by (intro exI[of _ "take 8 b"] exI[of _ "drop 12 b"]) simp
  then have "block_status (flush_block b) = Inr 0" by (simp add: block_status_def bytes_at_int)
  then show ?thesis by (simp add: owned_by_kernel_def)
qed

lemma index_eq:
  assumes "i < BLOCKS" "j < BLOCKS" "(p + i) mod BLOCKS = (p + j) mod BLOCKS"
  shows "i = j"
proof (rule ccontr)
  assume "i \<noteq> j"
  then consider "p + i < p + j" | "p + j < p + i" by linarith
  then show False
    using assms mod_ne[of "p + i" "p + j" BLOCKS] mod_ne[of "p + j" "p + i" BLOCKS] by cases auto
qed

text \<open>The kernel fills the block behind those that wait.\<close>

lemma ring_fill:
  assumes inv: "ring_inv bs p n k" and free: "owned_by_kernel (bs ! k)" and b: "owned_by_user b"
  shows "ring_inv (bs[k := b]) p (Suc n) ((k + 1) mod BLOCKS)"
    and "waiting (bs[k := b]) p (Suc n) = waiting bs p n @ [b]"
proof -
  note W = inv[unfolded ring_inv_def]
  have pos: "0 < BLOCKS" by (simp add: BLOCKS_def)
  have k: "k = (p + n) mod BLOCKS" and len: "length bs = BLOCKS" "k < length bs" using W pos by auto
  have n: "n < BLOCKS"
  proof (rule ccontr)
    assume "\<not> n < BLOCKS"
    then have "n = BLOCKS" using W by simp
    then have "bs ! k = bs ! ((p + 0) mod BLOCKS)" "0 < n" using pos by (simp_all add: k)
    with W pos have "owner True (bs ! k)" by metis
    with free owned_exclusive show False by (simp add: owner_def)
  qed
  have get: "bs[k := b] ! ((p + i) mod BLOCKS) = (if i = n then b else bs ! ((p + i) mod BLOCKS))" if "i < BLOCKS" for i
    using index_eq[OF that n, of p] len k by (auto simp: nth_list_update)
  have "map (\<lambda>i. bs[k := b] ! ((p + i) mod BLOCKS)) [0..<n] = map (\<lambda>i. bs ! ((p + i) mod BLOCKS)) [0..<n]"
    using get n by (intro map_cong) auto
  then show "waiting (bs[k := b]) p (Suc n) = waiting bs p n @ [b]"
    using get[OF n] by (simp add: waiting_def)
  have "owner (i < Suc n) (bs[k := b] ! ((p + i) mod BLOCKS))" if i: "i < BLOCKS" for i
  proof (cases "i = n")
    case True
    then show ?thesis using get[OF i] b by (simp add: owner_def)
  next
    case False
    then have "(i < Suc n) = (i < n)" by auto
    then show ?thesis using get[OF i] False W i by simp
  qed
  moreover have "(k + 1) mod BLOCKS = (p + Suc n) mod BLOCKS" unfolding k by (simp add: mod_Suc_eq)
  ultimately show "ring_inv (bs[k := b]) p (Suc n) ((k + 1) mod BLOCKS)"
    using W n unfolding ring_inv_def by simp
qed

text \<open>The thread takes the first of those that wait and gives it back.\<close>

lemma ring_handle:
  assumes inv: "ring_inv bs p n k" and user: "owned_by_user (bs ! p)" and b: "owned_by_kernel b"
  shows "\<exists>m. ring_inv (bs[p := b]) ((p + 1) mod BLOCKS) m k \<and>
    waiting bs p n = bs ! p # waiting (bs[p := b]) ((p + 1) mod BLOCKS) m"
proof -
  note W = inv[unfolded ring_inv_def]
  have pos: "0 < BLOCKS" by (simp add: BLOCKS_def)
  have p: "p < BLOCKS" "length bs = BLOCKS" "p mod BLOCKS = p" using W by simp_all
  have "n \<noteq> 0"
  proof
    assume "n = 0"
    then have "owner False (bs ! ((p + 0) mod BLOCKS))" using W pos by (metis less_nat_zero_code)
    with p(3) user owned_exclusive show False by (simp add: owner_def)
  qed
  then obtain m where n: "n = Suc m" by (cases n) auto
  have shift: "((p + 1) mod BLOCKS + i) mod BLOCKS = (p + Suc i) mod BLOCKS" for i by (simp add: mod_add_left_eq)
  have get: "bs[p := b] ! ((p + i) mod BLOCKS) = bs ! ((p + i) mod BLOCKS)" if "0 < i" "i < BLOCKS" for i
    using index_eq[of i 0 p] that p pos by (auto simp: nth_list_update)
  have m: "m < BLOCKS" using W n by simp
  have "waiting bs p n = bs ! p # map (\<lambda>i. bs ! ((p + Suc i) mod BLOCKS)) [0..<m]"
    unfolding waiting_def n upt_conv_Cons[OF zero_less_Suc] list.map using p(3)
    by (simp add: map_Suc_upt[symmetric] comp_def del: map_Suc_upt upt_Suc)
  also have "map (\<lambda>i. bs ! ((p + Suc i) mod BLOCKS)) [0..<m] = waiting (bs[p := b]) ((p + 1) mod BLOCKS) m"
    unfolding waiting_def shift using get m n W by (intro map_cong refl) (simp del: add_Suc_right)
  finally have wait: "waiting bs p n = bs ! p # waiting (bs[p := b]) ((p + 1) mod BLOCKS) m" .
  have own: "owner (i < m) (bs[p := b] ! (((p + 1) mod BLOCKS + i) mod BLOCKS))" if i: "i < BLOCKS" for i
  proof (cases "Suc i < BLOCKS")
    case True
    then have "owner (Suc i < n) (bs ! ((p + Suc i) mod BLOCKS))" using W by blast
    then show ?thesis using get[OF zero_less_Suc True] n unfolding shift by simp
  next
    case False
    then have "Suc i = BLOCKS" using i by simp
    then have "(p + Suc i) mod BLOCKS = p" "\<not> i < m" using p m W n by simp_all
    then show ?thesis using p b unfolding shift by (simp add: owner_def)
  qed
  have k: "k = ((p + 1) mod BLOCKS + m) mod BLOCKS" using W n unfolding shift by simp
  have "ring_inv (bs[p := b]) ((p + 1) mod BLOCKS) m k"
    using own m p pos k unfolding ring_inv_def by simp
  with wait show ?thesis by blast
qed

lemma poll_user:
  assumes "owned_by_user (ct_blocks t ! ct_block_num t)" and "ct_block_num t < length (ct_blocks t)"
  shows "poll_block t = and_then (walk_block (ct_ctx t) (ct_blocks t ! ct_block_num t)) (\<lambda>c.
    Inr (t\<lparr>ct_ctx := c, ct_blocks := (ct_blocks t)[ct_block_num t := flush_block (ct_blocks t ! ct_block_num t)],
           ct_block_num := (ct_block_num t + 1) mod BLOCKS\<rparr>))"
  using assms by (auto simp: poll_block_def c_read_def owned_by_user_def)

lemma poll_kernel:
  "owned_by_kernel (ct_blocks t ! ct_block_num t) \<Longrightarrow> ct_block_num t < length (ct_blocks t) \<Longrightarrow> poll_block t = Inr t"
  by (auto simp: poll_block_def c_read_def owned_by_kernel_def)

lemma world_step_ok:
  assumes "world_step w w'" and ok: "world_ok ctx0 w n"
  shows "\<exists>m. world_ok ctx0 w' m"
proof -
  let ?t = "rw_thread w"
  have inv: "ring_inv (ct_blocks ?t) (ct_block_num ?t) n (rw_kernel w)"
    and filled: "rw_filled w = rw_handled w @ waiting (ct_blocks ?t) (ct_block_num ?t) n"
    and walked: "walk_blocks (rw_handled w) ctx0 = Inr (ct_ctx ?t)"
    using ok by (simp_all add: world_ok_def)
  have p: "ct_block_num ?t < length (ct_blocks ?t)" using inv by (simp add: ring_inv_def)
  from assms(1) show ?thesis
  proof (cases rule: world_step.cases)
    case (kernel_fills t k b)
    have "world_ok ctx0 w' (Suc n)"
      using ring_fill[of "ct_blocks ?t" "ct_block_num ?t" n "rw_kernel w" b] inv filled walked kernel_fills
      by (simp add: world_ok_def)
    then show ?thesis ..
  next
    case (thread_waits t')
    then show ?thesis using ok poll_kernel[OF _ p] by auto
  next
    case (thread_handles b t')
    have user: "owned_by_user (ct_blocks ?t ! ct_block_num ?t)" using thread_handles by simp
    obtain c where c: "walk_block (ct_ctx ?t) b = Inr c"
      and t': "t' = ?t\<lparr>ct_ctx := c, ct_blocks := (ct_blocks ?t)[ct_block_num ?t := flush_block b],
        ct_block_num := (ct_block_num ?t + 1) mod BLOCKS\<rparr>"
      using thread_handles(4) unfolding poll_user[OF user p] and_then_eq_Inr thread_handles(2) by blast
    obtain m where m: "ring_inv ((ct_blocks ?t)[ct_block_num ?t := flush_block b]) ((ct_block_num ?t + 1) mod BLOCKS) m (rw_kernel w)"
      "waiting (ct_blocks ?t) (ct_block_num ?t) n =
        b # waiting ((ct_blocks ?t)[ct_block_num ?t := flush_block b]) ((ct_block_num ?t + 1) mod BLOCKS) m"
      using ring_handle[OF inv user flush_block_owned[OF user]] thread_handles(2) by auto
    have "walk_blocks (rw_handled w @ [b]) ctx0 = Inr c" using walked c by (simp add: walk_blocks_snoc)
    then have "world_ok ctx0 w' m" using m filled unfolding world_ok_def thread_handles(1) t' by simp
    then show ?thesis ..
  qed
qed

lemma world_reach_ok: "world_reach w w' \<Longrightarrow> world_ok ctx0 w n \<Longrightarrow> \<exists>m. world_ok ctx0 w' m"
proof (induction arbitrary: n rule: world_reach.induct)
  case (world_more w w1 w2)
  then show ?case using world_step_ok by metis
qed auto

subsection \<open>Properties\<close>

text \<open>The specification of a block: its frames in order, each with the memory from its payload on.\<close>

fun extract_frames :: "(captured \<times> byte list) list \<Rightarrow> vmars_capture_context \<Rightarrow> vmars_capture_context res" where
  "extract_frames [] ctx = Inr ctx"
| "extract_frames ((Raw_Frame r, data) # fs) ctx = extract_frames fs ctx"
| "extract_frames ((Tcp_Frame f, data) # fs) ctx =
     and_then (if for_port (ctx_port ctx) f \<and> fr_payload f \<noteq> []
       then vmars_extract_fix_messages ctx (fr_saddr f) (word_of_int (ntohs (fr_sport f)))
         (fr_daddr f) (word_of_int (ntohs (fr_dport f))) (fr_sec f) (fr_nsec f) data (length (fr_payload f))
       else Inr ctx) (extract_frames fs)"

definition length_ok :: "frame \<Rightarrow> bool" where
  "length_ok f \<longleftrightarrow> fr_tot_len f = int (headers_len f + length (fr_payload f))"

lemma length_ok_data: "frame_ok f \<Longrightarrow> length_ok f \<Longrightarrow> frame_data_len f = length (fr_payload f)"
  by (simp add: length_ok_def frame_data_len_def frame_ok_def size_sub_in nat_add_distrib)

text \<open>A frame whose headers tell its length, or one that is passed over.\<close>

fun captured_ok :: "int \<Rightarrow> captured \<Rightarrow> bool" where
  "captured_ok port (Tcp_Frame f) = length_ok f"
| "captured_ok port (Raw_Frame r) = passed_over port (rf_ethernet r)"

fun captured_payload :: "captured \<Rightarrow> byte list" where
  "captured_payload (Tcp_Frame f) = fr_payload f"
| "captured_payload (Raw_Frame r) = []"

lemma captured_ok_passed: "captured_ok port c \<Longrightarrow> raw_passed port c"
  by (cases c) simp_all

lemma handle_frames_extract:
  "frames_at blk off fs \<Longrightarrow> \<forall>c\<in>set fs. captured_ok port c \<Longrightarrow>
     \<exists>ds. length ds = length fs \<and> (\<forall>i<length fs. prefix (captured_payload (fs ! i)) (ds ! i)) \<and>
       handle_frames blk off fs = extract_frames (zip fs ds)"
proof (induction fs arbitrary: off)
  case Nil
  have "handle_frames blk off [] = extract_frames (zip [] [])" by (intro ext) simp
  then show ?case by (intro exI[of _ "[]"]) simp
next
  case (Cons c fs)
  then have at: "bytes_at blk off (captured_bytes c)" "captured_shape c"
    and rest: "frames_at blk (off + nat (captured_next c)) fs" by simp_all
  obtain ds where ds: "length ds = length fs" "\<forall>i<length fs. prefix (captured_payload (fs ! i)) (ds ! i)"
    "handle_frames blk (off + nat (captured_next c)) fs = extract_frames (zip fs ds)"
    using Cons.IH[OF rest] Cons.prems(2) by auto
  have "\<exists>d. prefix (captured_payload c) d \<and> handle_frames blk off (c # fs) = extract_frames (zip (c # fs) (d # ds))"
  proof (cases c)
    case (Raw_Frame r)
    have "handle_frames blk off (c # fs) = extract_frames (zip (c # fs) ([] # ds))"
      using ds(3) by (intro ext) (simp add: Raw_Frame)
    then show ?thesis by (auto simp: Raw_Frame)
  next
    case (Tcp_Frame f)
    then have f: "bytes_at blk off (frame_bytes f)" "frame_ok f" "length_ok f" using at Cons.prems(2) by simp_all
    let ?d = "drop (off + data_offset f) blk"
    have "prefix (fr_payload f) ?d"
      using bytes_at_drop[OF frame_loads(14)[OF f(1,2) refl refl]] by (metis take_is_prefix)
    moreover have "handle_frames blk off (c # fs) = extract_frames (zip (c # fs) (?d # ds))"
      using ds(3) by (intro ext) (simp add: Tcp_Frame handle_frame_def extract_frame_def length_ok_data[OF f(2,3)])
    ultimately show ?thesis by (auto simp: Tcp_Frame)
  qed
  then obtain d where d: "prefix (captured_payload c) d"
    "handle_frames blk off (c # fs) = extract_frames (zip (c # fs) (d # ds))" by blast
  have "\<forall>i<length (c # fs). prefix (captured_payload ((c # fs) ! i)) ((d # ds) ! i)"
    using d(1) ds(2) by (auto simp: nth_Cons split: nat.split)
  with d(2) ds(1) show ?case by (intro exI[of _ "d # ds"]) simp
qed

text \<open>
  C31: a block is handled frame by frame, in order and each frame once: the payload of every frame of TCP over IPv4
  from or to the capture port, with its addresses and its capture time, goes to the extractor, whatever the options
  of its IP and TCP headers. Every frame that is not of IPv4, by its Ethernet type, and every frame of IPv4 with other ports, of any
  shape, is passed over. Then the counter of bytes goes up by one. (The headers of the frames for the port are well formed,
  and their lengths are right, against C33; an IPv4 frame that ends in front of the place of its ports is left out.)
\<close>
theorem block_extracted:
  assumes "block_holds pbd first fs" and "\<forall>c\<in>set fs. captured_ok (ctx_port ctx) c"
  shows "\<exists>ds. length ds = length fs \<and> (\<forall>i<length fs. prefix (captured_payload (fs ! i)) (ds ! i)) \<and>
    walk_block ctx pbd = and_then (extract_frames (zip fs ds) ctx) (\<lambda>x. Inr (count_block x))"
proof -
  have "frames_at pbd first fs" using assms(1) by (simp add: block_holds_def)
  from handle_frames_extract[OF this assms(2)] obtain ds where
    "length ds = length fs" "\<forall>i<length fs. prefix (captured_payload (fs ! i)) (ds ! i)"
    "handle_frames pbd first fs = extract_frames (zip fs ds)" by blast
  then show ?thesis using walk_block_frames[OF assms(1), of ctx] assms(2) captured_ok_passed by auto
qed

text \<open>A frame with a given payload from port 9880, a frame of ARP, and a block that holds frames.\<close>

definition sample_frame :: "byte list \<Rightarrow> frame" where
  "sample_frame p = \<lparr>fr_next = 0, fr_sec = 100, fr_nsec = 7, fr_sizes = replicate 12 0, fr_net = replicate 4 0,
     fr_macs = replicate 12 0, fr_proto = ETH_P_IP, fr_version = 4, fr_tos = [0], fr_tot_len = 40 + int (length p),
     fr_ip_mid = replicate 8 6, fr_saddr = 1, fr_daddr = 2, fr_ip_options = [], fr_sport = 9880, fr_dport = 4000,
     fr_seq_ack = replicate 8 0, fr_reserved = 0, fr_tcp_rest = replicate 7 0, fr_tcp_options = [], fr_payload = p\<rparr>"

definition sample_arp :: raw_frame where
  "sample_arp = \<lparr>rf_next = 72, rf_header = replicate 20 0, rf_net = replicate 4 0,
     rf_ethernet = replicate 12 255 @ [8, 6, 0, 1, 8, 0, 6, 4, 0, 1] @ replicate 20 7\<rparr>"

definition sample_block :: "captured list \<Rightarrow> byte list" where
  "sample_block fs = replicate 8 0 @ le_bytes 4 TP_STATUS_USER @ le_bytes 4 (int (length fs)) @ le_bytes 4 20 @
     concat (map captured_bytes fs)"

lemma sample_frame_ok: "length p < 60000 \<Longrightarrow> frame_ok (sample_frame p) \<and> length_ok (sample_frame p)"
  by (simp add: frame_ok_def sample_frame_def length_ok_def headers_len_def ETH_P_IP_def)

lemma sample_arp_ok: "raw_ok sample_arp" "passed_over port (rf_ethernet sample_arp)" "length (raw_bytes sample_arp) = 72"
  by (simp_all add: sample_arp_def raw_ok_def raw_bytes_def passed_over_def be16_def ETH_P_IP_def ETH_HLEN_def nth_append)

lemma bytes_at_middle: "length xs = a \<Longrightarrow> bytes_at (xs @ bs @ ys) a bs"
  by (auto simp: bytes_at_def)

lemma sample_block_holds: "captured_shape c \<Longrightarrow> block_holds (sample_block [c]) 20 [c]"
  using bytes_at_middle [of "replicate 8 0 @ le_bytes 4 TP_STATUS_USER" 12 "le_bytes 4 1 @ le_bytes 4 20" "captured_bytes c"]
    bytes_at_middle [of "replicate 8 0 @ le_bytes 4 TP_STATUS_USER @ le_bytes 4 1 @ le_bytes 4 20" 20 "captured_bytes c" "[]"]
  by (simp add: block_holds_def sample_block_def)

text \<open>A frame of ARP and behind it one for the port.\<close>

lemma sample_mixed_holds:
  assumes "captured_shape c"
  shows "block_holds (sample_block [Raw_Frame sample_arp, c]) 20 [Raw_Frame sample_arp, c]"
  using bytes_at_middle [of "replicate 8 0 @ le_bytes 4 TP_STATUS_USER" 12 "le_bytes 4 2 @ le_bytes 4 20"
      "raw_bytes sample_arp @ captured_bytes c"]
    bytes_at_middle [of "replicate 8 0 @ le_bytes 4 TP_STATUS_USER @ le_bytes 4 2 @ le_bytes 4 20" 20
      "raw_bytes sample_arp" "captured_bytes c"]
    bytes_at_middle [of "replicate 8 0 @ le_bytes 4 TP_STATUS_USER @ le_bytes 4 2 @ le_bytes 4 20 @ raw_bytes sample_arp" 92
      "captured_bytes c" "[]"] assms sample_arp_ok(1,3)
  by (simp add: block_holds_def sample_block_def) (simp add: sample_arp_def)

theorem block_extracted_witness:
  "\<exists>d. prefix [65, 66] d \<and> walk_block sample_ctx (sample_block [Raw_Frame sample_arp, Tcp_Frame (sample_frame [65, 66])]) =
     and_then (extract_frames [(Tcp_Frame (sample_frame [65, 66]), d)] sample_ctx) (\<lambda>x. Inr (count_block x))"
proof -
  let ?fs = "[Raw_Frame sample_arp, Tcp_Frame (sample_frame [65, 66])]"
  have ok: "captured_shape (Tcp_Frame (sample_frame [65, 66]))" "\<forall>c\<in>set ?fs. captured_ok (ctx_port sample_ctx) c"
    using sample_frame_ok sample_arp_ok(2) by simp_all
  from block_extracted[OF sample_mixed_holds[OF ok(1)] ok(2)] obtain ds where
    ds: "length ds = length ?fs" "\<forall>i<length ?fs. prefix (captured_payload (?fs ! i)) (ds ! i)"
      "walk_block sample_ctx (sample_block ?fs) = and_then (extract_frames (zip ?fs ds) sample_ctx) (\<lambda>x. Inr (count_block x))"
    by blast
  moreover have "prefix [65, 66] (ds ! 1)" using ds(2)[rule_format, of 1] by (simp add: sample_frame_def)
  moreover obtain a b where "ds = [a, b]" using ds(1) by (auto simp: length_Suc_conv)
  ultimately show ?thesis using ds(3) by (intro exI[of _ b]) simp
qed

text \<open>
  The counter reported as \<open>vmars.network.bytes\<close> counts blocks: a block of other traffic, however many
  bytes its frames have, changes nothing but this counter, which goes up by one.
\<close>
theorem other_traffic_counts_one:
  assumes "block_holds pbd first fs" and "\<forall>c\<in>set fs. raw_passed (ctx_port ctx) c"
    and "\<forall>f. Tcp_Frame f \<in> set fs \<longrightarrow> \<not> for_port (ctx_port ctx) f"
  shows "walk_block ctx pbd = Inr (ctx\<lparr>ctx_counters := (ctx_counters ctx)
    \<lparr>bytes_total := bytes_total (ctx_counters ctx) + 1\<rparr>\<rparr>)"
proof -
  have "handle_frames pbd off fs ctx = Inr ctx" if "\<forall>f. Tcp_Frame f \<in> set fs \<longrightarrow> \<not> for_port (ctx_port ctx) f" for off fs
    using that
  proof (induction fs arbitrary: off)
    case (Cons c fs)
    then show ?case by (cases c) (simp_all add: handle_frame_def)
  qed simp
  then show ?thesis using walk_block_frames[OF assms(1,2)] assms(3) by (simp add: count_block_def)
qed

theorem other_traffic_counts_one_witness:
  "walk_block (sample_ctx\<lparr>ctx_port := 22\<rparr>) (sample_block [Tcp_Frame (sample_frame (replicate 1000 65))]) =
     Inr (sample_ctx\<lparr>ctx_port := 22, ctx_counters := (ctx_counters sample_ctx)
       \<lparr>bytes_total := bytes_total (ctx_counters sample_ctx) + 1\<rparr>\<rparr>)"
proof -
  let ?f = "sample_frame (replicate 1000 65)"
  have ok: "captured_shape (Tcp_Frame ?f)" using sample_frame_ok[of "replicate 1000 65"] by simp
  have "\<forall>c\<in>set [Tcp_Frame ?f]. raw_passed (ctx_port (sample_ctx\<lparr>ctx_port := 22\<rparr>)) c"
    "\<forall>f. Tcp_Frame f \<in> set [Tcp_Frame ?f] \<longrightarrow> \<not> for_port (ctx_port (sample_ctx\<lparr>ctx_port := 22\<rparr>)) f"
    by (simp_all add: for_port_def sample_frame_def)
  from other_traffic_counts_one[OF sample_block_holds[OF ok] this] show ?thesis by simp
qed

text \<open>
  C33: the total length of the IP header is not checked against the headers: when it is smaller by at most the
  length of a pending fragment of the stream, the difference is a size near \<open>2 ^ 64\<close> that wraps in the
  comparison with the fragment's capacity, and the copy into the fragment leaves it.
\<close>
theorem short_total_length_overflows:
  assumes "bytes_at blk ppd (frame_bytes f)" and "frame_ok f" and "for_port (ctx_port ctx) f"
    and "fr_tot_len f < int (headers_len f)" and "int (headers_len f) - fr_tot_len f \<le> frag_len g"
    and "get_fragment ctx (sid_of (fr_saddr f) (word_of_int (ntohs (fr_sport f))) (fr_daddr f)
      (word_of_int (ntohs (fr_dport f)))) = Some g"
    and "frag_len g < frag_capacity g" and "frag_capacity g = FRAGMENT_CAPACITY" and "bm_len (ctx_matcher ctx) = 8"
  shows "display ctx blk ppd = Inl OutOfBounds"
proof -
  define k where "k = int (headers_len f) - fr_tot_len f"
  have hl: "int (headers_len f) \<le> 120" using assms(2) by (simp add: frame_ok_def headers_len_def)
  have k: "0 < k" "k \<le> 120" "k \<le> frag_len g" "0 \<le> fr_tot_len f"
    using assms(2,4,5) hl by (simp_all add: k_def frame_ok_def)
  have cap: "frag_len g < 4088" using assms(7,8) by (simp add: FRAGMENT_CAPACITY_def MAX_FRAGMENT_TOTAL_SIZE_def)
  have dl: "frame_data_len f = nat (2 ^ 64 - k)"
  proof -
    have "(fr_tot_len f - int (headers_len f)) mod 2 ^ 64 = (- k + 2 ^ 64) mod 2 ^ 64" by (simp add: k_def)
    also have "\<dots> = - k + 2 ^ 64" using k by (intro mod_pos_pos_trivial) simp_all
    finally show ?thesis using k(4) by (simp add: frame_data_len_def size_sub_def)
  qed
  have i: "int (frame_data_len f) = 2 ^ 64 - k" using k(2) by (simp add: dl)
  have neg: "size_to_int (frame_data_len f) = - k"
  proof -
    have "(2 ^ 64 - k + 2 ^ 31) mod 2 ^ 32 = (2 ^ 31 - k + 2 ^ 32 * 2 ^ 32) mod (2 ^ 32 :: int)" by simp
    also have "\<dots> = (2 ^ 31 - k) mod 2 ^ 32" by (rule mod_mult_self2)
    also have "\<dots> = 2 ^ 31 - k" using k by (intro mod_pos_pos_trivial) simp_all
    finally show ?thesis unfolding size_to_int_def i by simp
  qed
  have search: "boyermoore_search (ctx_matcher ctx) data (- k) = Inr None" for data
  proof -
    have "\<not> int_to_size (- k) < 8" using k int_to_size_negative[of "- k"] by simp
    moreover have "size_to_int (size_sub 8 1) = 7" by (simp add: size_sub_in size_to_int_in)
    ultimately show ?thesis using k assms(9) by (simp add: boyermoore_search_def)
  qed
  have sum: "size_add (int_to_size (frag_len g)) (frame_data_len f) = nat (frag_len g - k)"
  proof -
    have "int (int_to_size (frag_len g)) = frag_len g" using k cap by (simp add: int_to_size_in)
    moreover have "(frag_len g + (2 ^ 64 - k)) mod 2 ^ 64 = frag_len g - k"
    proof -
      have "(frag_len g + (2 ^ 64 - k)) mod 2 ^ 64 = (frag_len g - k + 2 ^ 64) mod 2 ^ 64" by (simp add: algebra_simps)
      also have "\<dots> = (frag_len g - k) mod 2 ^ 64" by (rule mod_add_self2)
      also have "\<dots> = frag_len g - k" using k cap by (intro mod_pos_pos_trivial) simp_all
      finally show ?thesis .
    qed
    ultimately show ?thesis by (simp only: size_add_def i)
  qed
  have small: "nat (frag_len g - k) < int_to_size (frag_capacity g)"
    using k cap assms(8) by (simp add: FRAGMENT_CAPACITY_def MAX_FRAGMENT_TOTAL_SIZE_def int_to_size_in)
  have store: "fragment_store g (frag_len g) data (frame_data_len f) = Inl OutOfBounds" for data
  proof -
    have "\<not> frag_len g + int (frame_data_len f) \<le> FRAGMENT_CAPACITY"
      unfolding i using k by (simp add: FRAGMENT_CAPACITY_def MAX_FRAGMENT_TOTAL_SIZE_def)
    then show ?thesis
      by (cases "c_strncpy data (frame_data_len f)") (use c_strncpy_fault in \<open>auto simp: fragment_store_def\<close>)
  qed
  have "frame_data_len f \<noteq> 0" using i k(2) by (intro notI) simp
  then have "display ctx blk ppd = extract_frame ctx f (drop (ppd + data_offset f) blk)"
    using display_frame[OF assms(1,2)] assms(3) by simp
  also have "\<dots> = Inl OutOfBounds"
    unfolding extract_frame_def extract_eq Let_def neg search and_then_Inr using assms(6) sum small store
    by (simp add: leading_fragment_def)
  finally show ?thesis .
qed

theorem short_total_length_overflows_witness:
  "display (sample_ctx\<lparr>ctx_state := Some [sid_of 1 (word_of_int (ntohs 9880)) 2 (word_of_int (ntohs 4000)) \<mapsto>
       \<lparr>frag_len = 8, frag_capacity = FRAGMENT_CAPACITY, frag_s = replicate 8 65\<rparr>]\<rparr>)
     (frame_bytes (sample_frame []\<lparr>fr_tot_len := 38\<rparr>)) 0 = Inl OutOfBounds"
proof (rule short_total_length_overflows[where f = "sample_frame []\<lparr>fr_tot_len := 38\<rparr>"
      and g = "\<lparr>frag_len = 8, frag_capacity = FRAGMENT_CAPACITY, frag_s = replicate 8 65\<rparr>"])
  show "bytes_at (frame_bytes (sample_frame []\<lparr>fr_tot_len := 38\<rparr>)) 0 (frame_bytes (sample_frame []\<lparr>fr_tot_len := 38\<rparr>))"
    by (simp add: bytes_at_def)
  show "bm_len (ctx_matcher (sample_ctx\<lparr>ctx_state := Some [sid_of 1 (word_of_int (ntohs 9880)) 2 (word_of_int (ntohs 4000)) \<mapsto>
       \<lparr>frag_len = 8, frag_capacity = FRAGMENT_CAPACITY, frag_s = replicate 8 65\<rparr>]\<rparr>)) = 8"
    by simp
qed (simp_all add: sample_frame_def frame_ok_def for_port_def headers_len_def ETH_P_IP_def get_fragment_def
    sample_ctx_def FRAGMENT_CAPACITY_def MAX_FRAGMENT_TOTAL_SIZE_def)

text \<open>
  C34: while the kernel fills blocks and the thread polls, in any interleaving, the thread has at any time
  handled exactly the blocks filled so far but the last, at most 64, which wait in the ring unchanged: none is
  skipped, handled twice or overwritten while it waits, and the capture context is that of the blocks
  handled one after the other.
\<close>
theorem blocks_once_in_order:
  assumes "world_init w0" and "world_reach w0 w"
  shows "\<exists>n. rw_filled w = rw_handled w @ waiting (ct_blocks (rw_thread w)) (ct_block_num (rw_thread w)) n \<and> n \<le> 64 \<and>
    walk_blocks (rw_handled w) (ct_ctx (rw_thread w0)) = Inr (ct_ctx (rw_thread w))"
proof -
  from world_reach_ok[OF assms(2) world_init_ok[OF assms(1)]] obtain n
    where "world_ok (ct_ctx (rw_thread w0)) w n" by blast
  then show ?thesis by (auto simp: world_ok_def ring_inv_def BLOCKS_def)
qed

definition kernel_block :: "byte list" where
  "kernel_block = replicate 20 0"

lemma sample_owners: "owned_by_kernel kernel_block" "owned_by_user (sample_block [])"
proof -
  have "block_status kernel_block = Inr 0" "block_status (sample_block []) = Inr 1" by code_simp+
  then show "owned_by_kernel kernel_block" "owned_by_user (sample_block [])"
    by (simp_all add: owned_by_kernel_def owned_by_user_def TP_STATUS_USER_def)
qed

definition sample_world :: ring_world where
  "sample_world = \<lparr>rw_thread = \<lparr>ct_ctx = sample_ctx, ct_blocks = replicate BLOCKS kernel_block, ct_block_num = 0\<rparr>,
     rw_kernel = 0, rw_filled = [], rw_handled = []\<rparr>"

lemma sample_world_init: "world_init sample_world"
  unfolding world_init_def sample_world_def by (auto simp: sample_owners)

theorem blocks_once_in_order_witness:
  "\<exists>w n. world_reach sample_world w \<and> rw_handled w = [sample_block []] \<and>
     rw_filled w = rw_handled w @ waiting (ct_blocks (rw_thread w)) (ct_block_num (rw_thread w)) n \<and> n \<le> 64 \<and>
     walk_blocks [sample_block []] sample_ctx = Inr (ct_ctx (rw_thread w))"
proof -
  let ?b = "sample_block []"
  let ?t0 = "rw_thread sample_world"
  have pos: "0 < BLOCKS" by (simp add: BLOCKS_def)
  define w1 where "w1 = sample_world\<lparr>rw_thread := ?t0\<lparr>ct_blocks := (ct_blocks ?t0)[0 := ?b]\<rparr>,
    rw_kernel := (0 + 1) mod BLOCKS, rw_filled := rw_filled sample_world @ [?b]\<rparr>"
  have s1: "world_step sample_world w1" unfolding w1_def
    by (rule kernel_fills) (use sample_owners pos in \<open>auto simp: sample_world_def\<close>)
  have b0: "ct_blocks (rw_thread w1) ! ct_block_num (rw_thread w1) = ?b" "ct_block_num (rw_thread w1) < length (ct_blocks (rw_thread w1))"
    "ct_ctx (rw_thread w1) = sample_ctx" "rw_handled w1 = []"
    using pos by (simp_all add: w1_def sample_world_def)
  have "block_holds ?b 20 []"
    unfolding block_holds_def bytes_at_def sample_block_def
    by (auto intro: exI[of _ "replicate 8 0 @ le_bytes 4 TP_STATUS_USER"])
  from walk_block_frames[OF this, of sample_ctx] have "walk_block sample_ctx ?b = Inr (count_block sample_ctx)" by simp
  then obtain t' where t': "poll_block (rw_thread w1) = Inr t'"
    using poll_user[of "rw_thread w1"] b0 sample_owners(2) by simp
  have "world_step w1 (w1\<lparr>rw_thread := t', rw_handled := rw_handled w1 @ [?b]\<rparr>)"
    by (rule thread_handles) (use b0 sample_owners t' in auto)
  with s1 have r: "world_reach sample_world (w1\<lparr>rw_thread := t', rw_handled := rw_handled w1 @ [?b]\<rparr>)"
    by (blast intro: world_reach.intros)
  from blocks_once_in_order[OF sample_world_init r] r b0(4) show ?thesis
    by (auto simp: sample_world_def intro!: exI[of _ "w1\<lparr>rw_thread := t', rw_handled := [?b]\<rparr>"])
qed

text \<open>
  A measured message in a frame for the capture port, at the end of its block and on a stream without a
  pending fragment, is published to the ring as one record, with the capture time of the frame.
\<close>
theorem frame_message_published:
  assumes "rb_holds n (ctx_rb ctx) rs 0" and "ctx_matcher ctx = fix_matcher"
    and "frame_ok f" and "length_ok f" and "for_port (ctx_port ctx) f" and "fr_payload f = message_bytes h ld fs"
    and "get_fragment ctx (sid_of (fr_saddr f) (word_of_int (ntohs (fr_sport f))) (fr_daddr f)
      (word_of_int (ntohs (fr_dport f)))) = None"
    and "good_message (h, ld, fs)" and "message_details (h, ld, fs) = Inr d" and "fst (latency_ids d)"
    and "payload = summary_bytes (fr_sec f) (fr_nsec f) (type_of_fields fs) (key_of_fields fs)"
  shows "\<exists>ctx'. display ctx (xs @ frame_bytes f) (length xs) = Inr ctx' \<and>
    rb_holds n (ctx_rb ctx') (if rb_room n rs payload then rs @ [payload] else rs) 0"
proof -
  have at: "bytes_at (xs @ frame_bytes f) (length xs) (frame_bytes f)"
    unfolding bytes_at_def by (intro exI[of _ xs] exI[of _ "[]"]) simp
  have len: "length (frame_bytes f) = data_offset f + length (fr_payload f)"
    using assms(3) by (simp add: frame_bytes_def frame_ok_def data_offset_def headers_len_def ETH_HLEN_def)
  let ?d = "drop (length xs + data_offset f) (xs @ frame_bytes f)"
  have "length ?d = length (fr_payload f)" using len by simp
  with bytes_at_drop[OF frame_loads(14)[OF at assms(3) refl refl]] have d: "?d = fr_payload f" by (metis take_all order_refl)
  have ne: "fr_payload f \<noteq> []" using good_length[OF assms(8)] assms(6) by auto
  have "display ctx (xs @ frame_bytes f) (length xs) = extract_frame ctx f (fr_payload f)"
    using display_frame[OF at assms(3)] assms(5) length_ok_data[OF assms(3,4)] ne d by simp
  also have "\<dots> = deliver (fr_sec f) (fr_nsec f) (h, ld, fs) ctx"
    using extract_single[OF assms(8,2,7)] assms(6) length_ok_data[OF assms(3,4)] by (simp add: extract_frame_def)
  finally show ?thesis using deliver_publishes[OF assms(1,8,9,10,11)] by auto
qed

theorem frame_message_published_witness:
  "\<exists>ctx'. display sample_ctx (frame_bytes (sample_frame (msg_bytes order_message))) 0 = Inr ctx' \<and>
     rb_holds 12 (ctx_rb ctx') [summary_bytes 100 7 68 (bytes_of ''A|BB|X1|Y'')] 0"
proof -
  obtain h ld fs where m: "order_message = (h, ld, fs)" by (cases order_message)
  from order_details obtain d where d: "message_details (h, ld, fs) = Inr d" "fst (latency_ids d)" using m by auto
  let ?f = "sample_frame (msg_bytes order_message)"
  have "length (msg_bytes order_message) < 60000" using good_length[OF order_message_good] by simp
  note ok = sample_frame_ok[OF this]
  have port: "for_port (ctx_port sample_ctx) ?f" by (simp add: for_port_def sample_frame_def sample_ctx_def)
  have "type_of_fields (snd (snd order_message)) = 68"
    "key_of_fields (snd (snd order_message)) = bytes_of ''A|BB|X1|Y''" by code_simp+
  then have payload: "summary_bytes 100 7 68 (bytes_of ''A|BB|X1|Y'') =
      summary_bytes (fr_sec ?f) (fr_nsec ?f) (type_of_fields fs) (key_of_fields fs)" by (simp add: m sample_frame_def)
  have room: "rb_room 12 [] (summary_bytes 100 7 68 (bytes_of ''A|BB|X1|Y''))"
    by (simp add: rb_room_def rec_size_def SIZEOF_RECORD_def summary_bytes_def)
  have p: "fr_payload ?f = message_bytes h ld fs" by (simp add: sample_frame_def m)
  have good: "good_message (h, ld, fs)" using order_message_good m by simp
  from frame_message_published[OF sample_ctx_ring sample_ctx_simps(1) conjunct1[OF ok] conjunct2[OF ok] port p
      sample_ctx_simps(2) good d payload, of "[]"] room
  show ?thesis by simp
qed

end
