(* ===== verification/More_Memory.thy ===== *)
theory More_Memory
  imports Fix_Extract
begin

text \<open>
  The extractor is handed a pointer into a block of captured frames and the length of the payload: behind the
  payload lie other bytes. A computation that succeeds on the payload alone gives the same result whatever lies
  behind it.
\<close>

subsection \<open>Results that survive more memory\<close>

definition extends :: "('a \<Rightarrow> 'b \<Rightarrow> bool) \<Rightarrow> 'a res \<Rightarrow> 'b res \<Rightarrow> bool" where
  "extends R m m' \<longleftrightarrow> (\<forall>x. m = Inr x \<longrightarrow> (\<exists>y. m' = Inr y \<and> R x y))"

named_theorems extend_intros \<open>operations whose success survives more memory behind a pointer\<close>

lemma extends_Inr [simp]: "extends R (Inr x) (Inr y) \<longleftrightarrow> R x y"
  by (simp add: extends_def)

lemma extends_Inl [simp]: "extends R (Inl e) m"
  by (simp add: extends_def)

lemma extends_refl: "extends (=) m m"
  by (simp add: extends_def)

lemma extends_eqD: "extends (=) m m' \<Longrightarrow> m = Inr x \<Longrightarrow> m' = Inr x"
  by (simp add: extends_def)

lemma extends_and_then:
  assumes "extends R m m'" and "\<And>x y. m = Inr x \<Longrightarrow> R x y \<Longrightarrow> extends S (f x) (g y)"
  shows "extends S (and_then m f) (and_then m' g)"
  using assms by (cases m) (auto simp: extends_def)

lemma extends_same:
  assumes "extends (=) m m'" and "\<And>x. m = Inr x \<Longrightarrow> extends S (f x) (g x)"
  shows "extends S (and_then m f) (and_then m' g)"
  using assms by (intro extends_and_then [of "(=)"]) auto

lemma extends_bind: "(\<And>x. m = Inr x \<Longrightarrow> extends S (f x) (g x)) \<Longrightarrow> extends S (and_then m f) (and_then m g)"
  by (rule extends_same [OF extends_refl])

lemma extends_if:
  "(b \<Longrightarrow> extends S x x') \<Longrightarrow> (\<not> b \<Longrightarrow> extends S y y') \<Longrightarrow> extends S (if b then x else y) (if b then x' else y')"
  by simp

lemma extends_pair:
  "(\<And>x y. p = (x, y) \<Longrightarrow> extends S (f x y) (g x y)) \<Longrightarrow> extends S (case_prod f p) (case_prod g p)"
  by (cases p) simp

lemma extends_flow:
  "(\<And>r. f = Early r \<Longrightarrow> extends S (a r) (a' r)) \<Longrightarrow> (\<And>x. f = Go x \<Longrightarrow> extends S (b x) (b' x)) \<Longrightarrow>
    extends S (case_flow a b f) (case_flow a' b' f)"
  by (cases f) simp_all

lemma extends_option:
  "(x = None \<Longrightarrow> extends S a a') \<Longrightarrow> (\<And>y. x = Some y \<Longrightarrow> extends S (b y) (b' y)) \<Longrightarrow>
    extends S (case_option a b x) (case_option a' b' x)"
  by (cases x) simp_all

subsection \<open>Reads and copies\<close>

lemma c_read_extends [extend_intros]: "extends (=) (c_read p i) (c_read (p @ r) i)"
  by (auto simp: c_read_def nth_append)

text \<open>Pointers to the same bytes, the second with more memory behind them.\<close>

definition longer :: "byte list \<Rightarrow> byte list \<Rightarrow> byte list \<Rightarrow> bool" where
  "longer r p q \<longleftrightarrow> q = p @ r"

lemma c_offset_extends [extend_intros]: "extends (longer r) (c_offset p i) (c_offset (p @ r) i)"
  by (auto simp: c_offset_def longer_def)

lemma c_strncpy_extends [extend_intros]: "extends (=) (c_strncpy p n) (c_strncpy (p @ r) n)"
proof (induction p n rule: c_strncpy.induct)
  case (3 c s n)
  then show ?case by (simp del: replicate.simps) (auto intro: extends_same)
qed simp_all

lemma c_strncmp_eq_extends [extend_intros]: "extends (=) (c_strncmp_eq p t n) (c_strncmp_eq (p @ r) t n)"
  by (induction p t n rule: c_strncmp_eq.induct) simp_all

lemma c_read_m64_extends [extend_intros]: "extends (=) (c_read_m64 p i) (c_read_m64 (p @ r) i)"
  by (auto simp: c_read_m64_def)

subsection \<open>The parser\<close>

lemma checksum_words_extends [extend_intros]: "extends (=) (checksum_words p k i s) (checksum_words (p @ r) k i s)"
proof (induction k arbitrary: i s)
  case (Suc k)
  then show ?case by (simp) (intro extends_same extend_intros)
qed simp

lemma checksum_tail_extends [extend_intros]: "extends (=) (checksum_tail p i n s) (checksum_tail (p @ r) i n s)"
proof (induction p i n s rule: checksum_tail.induct)
  case (1 p i n s)
  then show ?case
    by (subst (1 2) checksum_tail.simps) (auto intro!: extends_same extend_intros)
qed

lemma calculate_checksum_extends [extend_intros]:
  "extends (=) (calculate_checksum p n) (calculate_checksum (p @ r) n)"
  unfolding calculate_checksum_def Let_def by (intro extends_same extend_intros) simp

lemma supplied_checksum_extends: "longer r p q \<Longrightarrow> extends (=) (supplied_checksum p) (supplied_checksum q)"
  unfolding supplied_checksum_def longer_def by (auto intro!: extends_same extend_intros)

lemma number_loop_extends [extend_intros]:
  "extends (=) (number_loop d p len i acc) (number_loop d (p @ r) len i acc)"
proof (induction d p len i acc rule: number_loop.induct)
  case (1 d p len i acc)
  then show ?case
    by (subst (1 2) number_loop.simps) (auto intro!: extends_same extends_bind extend_intros)
qed

lemma value_loop_extends [extend_intros]: "extends (=) (value_loop p len i) (value_loop (p @ r) len i)"
proof (induction p len i rule: value_loop.induct)
  case (1 p len i)
  then show ?case
    by (subst (1 2) value_loop.simps) (auto intro!: extends_same extend_intros)
qed

text \<open>Details whose strings can be copied to the same bytes.\<close>

definition str_extends :: "fix_str \<Rightarrow> fix_str \<Rightarrow> bool" where
  "str_extends s t \<longleftrightarrow> str_len s = str_len t \<and> extends (=) (str_bytes s) (str_bytes t)"

definition details_extend :: "fix_details \<Rightarrow> fix_details \<Rightarrow> bool" where
  "details_extend d e \<longleftrightarrow> message_type d = message_type e \<and> exec_type d = exec_type e \<and>
     quote_status d = quote_status e \<and> str_extends (sender_comp_id d) (sender_comp_id e) \<and>
     str_extends (cl_ord_id d) (cl_ord_id e) \<and> str_extends (target_comp_id d) (target_comp_id e) \<and>
     str_extends (symbol d) (symbol e) \<and> str_extends (security_id d) (security_id e)"

lemma str_extends_refl [simp]: "str_extends s s"
  by (simp add: str_extends_def extends_refl)

lemma details_extend_refl [simp]: "details_extend d d"
  by (simp add: details_extend_def)

lemma fix_str_extends: "longer r p q \<Longrightarrow> str_extends (fix_str_of p n) (fix_str_of q n)"
  by (simp add: str_extends_def fix_str_of_def str_bytes_def longer_def c_strncpy_extends)

lemma handle_tag_extends:
  assumes "details_extend d e" and q: "longer r p q"
  shows "extends details_extend (handle_tag d t p n) (handle_tag e t q n)"
proof -
  have read: "extends (=) (c_read p i) (c_read q i)" for i using q by (simp add: longer_def c_read_extends)
  have int: "extends (=) (str2int p i) (str2int q i)" for i
    using q by (auto simp: str2int_def longer_def intro!: extends_same extend_intros extends_refl)
  show ?thesis
    unfolding handle_tag_def using assms(1) fix_str_extends [OF q, of n]
    by (intro extends_if extends_same [OF read] extends_same [OF int]) (simp_all add: details_extend_def)
qed

text \<open>The results of the field loop and of the parser agree, and so do the details.\<close>

definition result_extends :: "'a \<times> fix_details \<Rightarrow> 'a \<times> fix_details \<Rightarrow> bool" where
  "result_extends x y \<longleftrightarrow> fst x = fst y \<and> details_extend (snd x) (snd y)"

lemma result_extends_pair [simp]: "result_extends (x, d) (y, e) \<longleftrightarrow> x = y \<and> details_extend d e"
  by (simp add: result_extends_def)

lemma plain_options: "opt_report_calculated_checksum 0 = False"
  by (simp add: opt_report_calculated_checksum_def)

lemma fields_loop_extends:
  "details_extend d e \<Longrightarrow>
    extends result_extends (fields_loop p len 0 ck handle_tag i d) (fields_loop (p @ r) len 0 ck handle_tag i e)"
proof (induction "nat (len - i)" arbitrary: i d e rule: less_induct)
  case less
  have step: "extends result_extends
      (if i' < len then fields_loop p len 0 ck handle_tag i' d' else Inr (None, d'))
      (if i' < len then fields_loop (p @ r) len 0 ck handle_tag i' e' else Inr (None, e'))"
    if "i < i'" "details_extend d' e'" for i' d' e'
    using that by (intro extends_if less.hyps) auto
  have field: "extends result_extends
      (and_then (and_then (c_offset p j) (\<lambda>v. handle_tag d t v n))
        (\<lambda>d'. if i' < len then fields_loop p len 0 ck handle_tag i' d' else Inr (None, d')))
      (and_then (and_then (c_offset (p @ r) j) (\<lambda>v. handle_tag e t v n))
        (\<lambda>d'. if i' < len then fields_loop (p @ r) len 0 ck handle_tag i' d' else Inr (None, d')))"
    if "i < i'" for i' j t n
    using that less.prems by (intro extends_and_then [OF extends_and_then [OF c_offset_extends handle_tag_extends]] step)
  show ?case
    using less.prems
    by (subst (1 2) fields_loop.simps, unfold tag_loop_def plain_options simp_thms if_False)
      (intro extends_same [OF number_loop_extends] extends_flow extends_pair extends_same [OF value_loop_extends]
        extends_if field; fastforce dest: number_loop_mono value_loop_mono)
qed

lemma parse_extends:
  "extends result_extends (vmars_fix_parse_msg p len details_zero None handle_tag None 0)
    (vmars_fix_parse_msg (p @ r) len details_zero None handle_tag None 0)"
proof -
  have fields: "extends result_extends
      (and_then (fields_loop p n 0 ck handle_tag i details_zero)
        (\<lambda>(x, c). case x of Some e \<Rightarrow> Inr (e, c) | None \<Rightarrow> parse_result 0 n c))
      (and_then (fields_loop (p @ r) n 0 ck handle_tag i details_zero)
        (\<lambda>(x, c). case x of Some e \<Rightarrow> Inr (e, c) | None \<Rightarrow> parse_result 0 n c))" for n ck i
    by (rule extends_and_then [OF fields_loop_extends [OF details_extend_refl]])
      (auto simp: parse_result_def split: option.split)
  show ?thesis
    unfolding vmars_fix_parse_msg_def Let_def body_length_loop_def option.case
    by (intro extends_if extends_same [OF c_strncmp_eq_extends] extends_same [OF number_loop_extends])
      (auto simp: parse_result_def split: flow.split
        intro!: extends_same [OF calculate_checksum_extends] extends_and_then [OF c_offset_extends]
          extends_same [OF supplied_checksum_extends] fields)
qed

subsection \<open>The extractor\<close>

lemma try_parse_extends:
  "extends (\<lambda>(x, d, c) (y, e, c'). x = y \<and> details_extend d e \<and> c = c')
    (try_parse_fix_message ctx p n) (try_parse_fix_message ctx (p @ r) n)"
  unfolding try_parse_fix_message_def
  by (rule extends_and_then [OF parse_extends]) (auto simp: Let_def)

lemma latency_ids_extend:
  "details_extend d e \<Longrightarrow> fst (latency_ids d) = fst (latency_ids e) \<and>
    str_extends (fst (snd (latency_ids d))) (fst (snd (latency_ids e))) \<and>
    str_extends (fst (snd (snd (latency_ids d)))) (fst (snd (snd (latency_ids e)))) \<and>
    str_extends (snd (snd (snd (latency_ids d)))) (snd (snd (snd (latency_ids e))))"
  unfolding details_extend_def latency_ids_def by auto

lemma rb_strncpy_extends: "str_extends s t \<Longrightarrow> extends (=) (rb_strncpy rb a s) (rb_strncpy rb a t)"
  unfolding rb_strncpy_def str_extends_def by (auto intro: extends_same extends_refl)

lemma process_extends:
  assumes "details_extend d e"
  shows "extends (=) (process_for_latency_measurement ctx s ns d) (process_for_latency_measurement ctx s ns e)"
proof -
  obtain x a1 a2 a3 where d: "latency_ids d = (x, a1, a2, a3)" by (metis prod_cases4)
  obtain y b1 b2 b3 where e: "latency_ids e = (y, b1, b2, b3)" by (metis prod_cases4)
  have ids: "x = y" "str_extends a1 b1" "str_extends a2 b2" "str_extends a3 b3"
    using latency_ids_extend [OF assms] d e by simp_all
  have i: "str_extends (instrument_id d) (instrument_id e)"
    using assms by (auto simp: instrument_id_def details_extend_def str_extends_def extends_refl)
  have lens: "str_len a1 = str_len b1" "str_len a2 = str_len b2" "str_len a3 = str_len b3"
    "str_len (instrument_id d) = str_len (instrument_id e)" "message_type d = message_type e"
    using ids i assms by (simp_all add: str_extends_def details_extend_def)
  show ?thesis
    unfolding process_for_latency_measurement_def d e Let_def prod.case lens ids(1)
    by (intro extends_if extends_bind extends_pair extends_option extends_refl
        extends_same [OF rb_strncpy_extends [OF ids(2)]] extends_same [OF rb_strncpy_extends [OF ids(3)]]
        extends_same [OF rb_strncpy_extends [OF ids(4)]] extends_same [OF rb_strncpy_extends [OF i]])
qed

lemma fragment_store_extends [extend_intros]: "extends (=) (fragment_store f o' p n) (fragment_store f o' (p @ r) n)"
  unfolding fragment_store_def by (intro extends_same [OF c_strncpy_extends] extends_refl)

lemma put_fragment_extends [extend_intros]: "extends (=) (put_fragment ctx sid p n) (put_fragment ctx sid (p @ r) n)"
  unfolding put_fragment_def Let_def by (intro extends_same [OF fragment_store_extends] extends_refl)

lemma bm_compare_extends [extend_intros]: "extends (=) (bm_compare pat p j k) (bm_compare pat (p @ r) j k)"
proof (induction pat p j k rule: bm_compare.induct)
  case (1 pat p j k)
  then show ?case
    by (subst (1 2) bm_compare.simps) (auto intro!: extends_same [OF c_read_extends] extends_bind)
qed

lemma bm_scan_extends [extend_intros]: "fuel \<le> fuel' \<Longrightarrow> extends (=) (bm_scan fuel needle p n i) (bm_scan fuel' needle (p @ r) n i)"
proof (induction fuel arbitrary: fuel' i)
  case (Suc fuel)
  then obtain g where g: "fuel' = Suc g" "fuel \<le> g" by (cases fuel') auto
  show ?case
    unfolding g(1) bm_scan.simps
    by (intro extends_if extends_same [OF bm_compare_extends] extends_same [OF c_read_extends] extends_pair extends_refl
        Suc.IH g(2))
qed simp

lemma boyermoore_search_extends [extend_intros]:
  "extends (=) (boyermoore_search needle p n) (boyermoore_search needle (p @ r) n)"
  unfolding boyermoore_search_def by (intro extends_if extends_refl bm_scan_extends) simp

lemma find_next_extends [extend_intros]: "extends (=) (find_next mt p c n) (find_next mt (p @ r) c n)"
  unfolding find_next_def Let_def
  by (intro extends_if extends_refl extends_and_then [OF c_offset_extends])
    (auto simp: longer_def intro!: extends_same [OF boyermoore_search_extends])

lemma extract_loop_extends:
  "fuel \<le> fuel' \<Longrightarrow> extends (=) (extract_loop fuel ctx sid s ns p c n) (extract_loop fuel' ctx sid s ns (p @ r) c n)"
proof (induction fuel arbitrary: fuel' ctx c n)
  case (Suc fuel)
  then obtain g where g: "fuel' = Suc g" "fuel \<le> g" by (cases fuel') auto
  have handled: "extends (=)
      (if pr_result x = 0 then process_for_latency_measurement ctx1 s ns d
       else if pr_result x = FIX_EMESSAGETOOSHORT then put_fragment ctx1 sid q l else Inr ctx1)
      (if pr_result x = 0 then process_for_latency_measurement ctx1 s ns e
       else if pr_result x = FIX_EMESSAGETOOSHORT then put_fragment ctx1 sid (q @ r) l else Inr ctx1)"
    if "details_extend d e" for x d e ctx1 q l
    using that by (intro extends_if process_extends put_fragment_extends extends_refl)
  have turn: "extends (=)
      (and_then (try_parse_fix_message ctx q l) (\<lambda>(result, d, ctx1).
         and_then (if pr_result result = 0 then process_for_latency_measurement ctx1 s ns d
            else if pr_result result = FIX_EMESSAGETOOSHORT then put_fragment ctx1 sid q l else Inr ctx1) (\<lambda>ctx2.
         case nx of None \<Rightarrow> Inr (ctx2, n - pr_bytes_consumed result)
         | Some n' \<Rightarrow> extract_loop fuel ctx2 sid s ns p n' (n - pr_bytes_consumed result))))
      (and_then (try_parse_fix_message ctx (q @ r) l) (\<lambda>(result, d, ctx1).
         and_then (if pr_result result = 0 then process_for_latency_measurement ctx1 s ns d
            else if pr_result result = FIX_EMESSAGETOOSHORT then put_fragment ctx1 sid (q @ r) l else Inr ctx1) (\<lambda>ctx2.
         case nx of None \<Rightarrow> Inr (ctx2, n - pr_bytes_consumed result)
         | Some n' \<Rightarrow> extract_loop g ctx2 sid s ns (p @ r) n' (n - pr_bytes_consumed result))))" for q l nx
    by (rule extends_and_then [OF try_parse_extends])
      (auto intro!: extends_same [OF handled] extends_option Suc.IH g(2) split del: if_split)
  show ?case
    unfolding g(1) extract_loop.simps Let_def
    by (intro extends_same [OF find_next_extends] extends_and_then [OF c_offset_extends])
      (simp only: longer_def turn)
qed simp

lemma leading_fragment_extends:
  "extends (=) (leading_fragment ctx sid s ns p n k) (leading_fragment ctx sid s ns (p @ r) n k)"
  unfolding leading_fragment_def Let_def
  by (intro extends_option extends_if extends_same [OF fragment_store_extends] put_fragment_extends extends_refl)

theorem extract_extends:
  assumes "vmars_extract_fix_messages ctx sa sp da dp s ns p n = Inr ctx'"
  shows "vmars_extract_fix_messages ctx sa sp da dp s ns (p @ r) n = Inr ctx'"
proof -
  have first: "extends (=)
      (if c = Some 0 then Inr (ctx, m) else
         and_then (leading_fragment ctx sid s ns p n k) (\<lambda>ctx'. Inr (ctx', m')))
      (if c = Some 0 then Inr (ctx, m) else
         and_then (leading_fragment ctx sid s ns (p @ r) n k) (\<lambda>ctx'. Inr (ctx', m')))" for c m m' sid k
    by (intro extends_if extends_same [OF leading_fragment_extends] extends_refl)
  have loop: "extends (=)
      (case c of None \<Rightarrow> Inr (ctx1, m) | Some c \<Rightarrow> extract_loop (Suc (length p)) ctx1 sid s ns p c m)
      (case c of None \<Rightarrow> Inr (ctx1, m)
       | Some c \<Rightarrow> extract_loop (Suc (length (p @ r))) ctx1 sid s ns (p @ r) c m)" for c ctx1 sid m
    by (intro extends_option extends_refl extract_loop_extends) simp
  have rest: "extends (=)
      (if m > 0 then and_then (c_offset p i) (\<lambda>q. put_fragment ctx2 sid q m) else Inr ctx2)
      (if m > 0 then and_then (c_offset (p @ r) i) (\<lambda>q. put_fragment ctx2 sid q m) else Inr ctx2)" for m i sid ctx2
    by (intro extends_if extends_refl extends_and_then [OF c_offset_extends])
      (simp add: longer_def put_fragment_extends)
  have "extends (=) (vmars_extract_fix_messages ctx sa sp da dp s ns p n)
      (vmars_extract_fix_messages ctx sa sp da dp s ns (p @ r) n)"
    unfolding vmars_extract_fix_messages_def Let_def
    by (intro extends_same [OF boyermoore_search_extends] extends_same [OF first] extends_pair
        extends_same [OF loop] rest)
  then show ?thesis using assms by (rule extends_eqD)
qed

end
