(* ===== verification/Metric_Sink.thy ===== *)
theory Metric_Sink
  imports Vmars_Prelude
begin

text \<open>
  What the reporting code relies on in a metrics client: lines are gathered in a pending text, a line
  that would make it longer than \<open>limit\<close> bytes closes the datagram in front of it, and a flush sends what is
  pending. \<open>pack\<close> is this policy on lists of lines, the locale
  \<open>metric_sink\<close> the contract of a client that follows it.
\<close>

subsection \<open>Lines packed into datagrams\<close>

fun pack :: "nat \<Rightarrow> byte list list \<times> byte list \<Rightarrow> byte list list \<Rightarrow> byte list list \<times> byte list" where
  "pack limit s [] = s"
| "pack limit (sent, p) (l # ls) =
     pack limit (if length p + length l > limit then (sent @ [p], l) else (sent, p @ l)) ls"

definition packed :: "byte list list \<times> byte list \<Rightarrow> byte list list" where
  "packed s = fst s @ [snd s]"

lemma pack_content: "concat (packed (pack limit s ls)) = concat (packed s) @ concat ls"
  by (induction limit s ls rule: pack.induct) (auto simp: packed_def)

text \<open>A datagram longer than the limit is one line that is longer than it.\<close>

lemma pack_limit:
  "\<forall>d\<in>set (packed s). length d \<le> limit \<or> d \<in> L \<Longrightarrow> set ls \<subseteq> L \<Longrightarrow>
     \<forall>d\<in>set (packed (pack limit s ls)). length d \<le> limit \<or> d \<in> L"
proof (induction limit s ls rule: pack.induct)
  case (2 limit sent p l ls)
  then show ?case by (cases "length p + length l > limit") (auto simp: packed_def)
qed simp

text \<open>No line is cut: the datagrams are groups of whole lines.\<close>

lemma pack_whole_lines:
  "packed s = map concat gs \<Longrightarrow> gs \<noteq> [] \<Longrightarrow>
     \<exists>gs'. packed (pack limit s ls) = map concat gs' \<and> concat gs' = concat gs @ ls"
proof (induction limit s ls arbitrary: gs rule: pack.induct)
  case (1 limit s)
  then show ?case by auto
next
  case (2 limit sent p l ls)
  show ?case
  proof (cases "length p + length l > limit")
    case True
    with 2 show ?thesis using "2.IH"[of "gs @ [[l]]"] by (auto simp: packed_def)
  next
    case False
    obtain gs0 g where gs: "gs = gs0 @ [g]" using "2.prems"(2) by (cases gs rule: rev_cases) auto
    with 2 False show ?thesis using "2.IH"[of "gs0 @ [g @ [l]]"] by (auto simp: packed_def)
  qed
qed

lemma pack_append: "pack limit s (ls @ ms) = pack limit (pack limit s ls) ms"
  by (induction limit s ls rule: pack.induct) auto

subsection \<open>The contract\<close>

fun log_all :: "('s \<Rightarrow> 'm \<Rightarrow> 's res) \<Rightarrow> 's \<Rightarrow> 'm list \<Rightarrow> 's res" where
  "log_all log s [] = Inr s"
| "log_all log s (m # ms) = and_then (log s m) (\<lambda>s'. log_all log s' ms)"

locale metric_sink =
  fixes holds :: "'s \<Rightarrow> byte list list \<times> byte list \<Rightarrow> bool"
    and log :: "'s \<Rightarrow> 'm \<Rightarrow> 's res"
    and flush :: "'s \<Rightarrow> 's res"
    and line :: "'m \<Rightarrow> byte list"
    and good :: "'m \<Rightarrow> bool"
    and limit :: nat
  assumes log_law: "holds s q \<Longrightarrow> good m \<Longrightarrow> \<exists>s'. log s m = Inr s' \<and> holds s' (pack limit q [line m])"
    and flush_law: "holds s q \<Longrightarrow> \<exists>s'. flush s = Inr s' \<and> holds s' (packed q, [])"
begin

lemma log_all_packs:
  "holds s q \<Longrightarrow> \<forall>m\<in>set ms. good m \<Longrightarrow>
     \<exists>s'. log_all log s ms = Inr s' \<and> holds s' (pack limit q (map line ms))"
proof (induction ms arbitrary: s q)
  case (Cons m ms)
  then have "good m" by simp
  then obtain s1 where s1: "log s m = Inr s1" "holds s1 (pack limit q [line m])"
    using log_law[OF Cons.prems(1)] by blast
  from Cons.IH[OF s1(2)] Cons.prems(2) obtain s' where
    s': "log_all log s1 ms = Inr s'" "holds s' (pack limit (pack limit q [line m]) (map line ms))" by auto
  have "map line (m # ms) = [line m] @ map line ms" by simp
  with s1(1) s' show ?case by (simp only: log_all.simps and_then_Inr pack_append) blast
qed auto

text \<open>A report, that is lines and a flush, leaves nothing pending and sends every line whole.\<close>

lemma report_sends:
  assumes "holds s (sent, [])" and "\<forall>m\<in>set ms. good m"
  shows "\<exists>s' ds. and_then (log_all log s ms) flush = Inr s' \<and> holds s' (sent @ ds, []) \<and>
    concat ds = concat (map line ms) \<and> (\<forall>d\<in>set ds. length d \<le> limit \<or> d \<in> line ` set ms) \<and>
    (\<exists>gs. ds = map concat gs \<and> concat gs = map line ms)"
proof -
  obtain s1 where s1: "log_all log s ms = Inr s1" "holds s1 (pack limit (sent, []) (map line ms))"
    using log_all_packs[OF assms] by blast
  have pre: "pack limit (sent, p) ls = (sent @ fst (pack limit ([], p) ls), snd (pack limit ([], p) ls))"
    for sent p ls
  proof -
    have "pack limit (sent @ s, p) ls = (sent @ fst (pack limit (s, p) ls), snd (pack limit (s, p) ls))" for s
      by (induction limit "(s, p)" ls arbitrary: s p rule: pack.induct) auto
    from this[of "[]"] show ?thesis by simp
  qed
  let ?ds = "packed (pack limit ([], []) (map line ms))"
  obtain s' where s': "flush s1 = Inr s'" "holds s' (packed (pack limit (sent, []) (map line ms)), [])"
    using flush_law[OF s1(2)] by blast
  have "packed (pack limit (sent, []) (map line ms)) = sent @ ?ds"
    by (subst pre) (simp add: packed_def)
  moreover have "\<exists>gs. ?ds = map concat gs \<and> concat gs = map line ms"
    using pack_whole_lines[of "([], [])" "[[]]" limit "map line ms"] by (auto simp: packed_def)
  moreover have "\<forall>d\<in>set ?ds. length d \<le> limit \<or> d \<in> line ` set ms"
    by (intro pack_limit) (auto simp: packed_def)
  moreover have "concat ?ds = concat (map line ms)" by (simp add: pack_content) (simp add: packed_def)
  ultimately show ?thesis using s1(1) s' by auto
qed

end

text \<open>Lines that fit together in one datagram.\<close>

lemma pack_fits:
  "length p + length (concat ls) \<le> limit \<Longrightarrow> pack limit (sent, p) ls = (sent, p @ concat ls)"
proof (induction limit "(sent, p)" ls arbitrary: p rule: pack.induct)
  case (2 limit p l ls)
  then show ?case by simp
qed simp

end
