(* ===== verification/Jodie_Client.thy ===== *)
theory Jodie_Client
  imports Metric_Sink
begin

text \<open>
  The metrics client of \<^verbatim>\<open>src/jodie_client.c\<close> and \<^verbatim>\<open>src/jodie_client.h\<close>: lines of
  text are gathered in a send buffer and sent as UDP datagrams, a new one when a line would make it longer than
  \<open>PACKET_SIZE\<close> bytes.
  The outcome of the system calls is a parameter: \<open>inet_aton\<close> and the socket of
  \<open>jodie_init\<close>, and \<open>sendto k p\<close>, whether the \<open>k\<close>-th call of \<open>sendto\<close>, with the
  datagram \<open>p\<close>, succeeds. A \<open>char*\<close> argument is the string's bytes in front of its NUL.
\<close>

subsection \<open>State\<close>

definition BUFFER_SIZE :: nat where "BUFFER_SIZE = 2048"
definition PACKET_SIZE :: nat where "PACKET_SIZE = 1400"
definition JODIE_PORT :: int where "JODIE_PORT = 41000"

text \<open>\<open>jd_sent\<close> and \<open>jd_calls\<close> are ghosts: the datagrams sent so far, the calls of \<open>sendto\<close>.\<close>

record jodie =
  jd_addr :: "32 word"
  jd_port :: "16 word"
  jd_socket :: int
  jd_send_index :: "32 word"
  jd_send_buffer :: "byte list"
  jd_sent :: "byte list list"
  jd_calls :: nat

datatype status = OK | WARNING | CRITICAL | UNKNOWN | NORESPONSE | EXCHANGECLOSED

fun status_value :: "status \<Rightarrow> int" where
  "status_value OK = 0"
| "status_value WARNING = 1"
| "status_value CRITICAL = 2"
| "status_value UNKNOWN = 3"
| "status_value NORESPONSE = 4"
| "status_value EXCHANGECLOSED = 5"

subsection \<open>Opening, copying, flushing\<close>

definition jodie_init ::
    "(byte list \<Rightarrow> 32 word option) \<Rightarrow> int \<Rightarrow> byte list \<Rightarrow> int \<Rightarrow> jodie \<Rightarrow> int \<times> jodie" where
  "jodie_init inet_aton socket host port j =
     (case inet_aton host of
        None \<Rightarrow> (-1, j)
      | Some a \<Rightarrow>
          let j1 = j\<lparr>jd_addr := a,
                     jd_port := (if port \<noteq> 0 then word_of_int port else word_of_int JODIE_PORT),
                     jd_socket := socket\<rparr>
          in if socket = -1 then (-1, j1)
             else (0, j1\<lparr>jd_send_index := 0, jd_send_buffer := replicate BUFFER_SIZE 0\<rparr>))"

definition jodie_dup :: "jodie \<Rightarrow> jodie \<Rightarrow> int \<times> jodie" where
  "jodie_dup src dst =
     (0, dst\<lparr>jd_addr := jd_addr src, jd_port := jd_port src, jd_socket := jd_socket src,
             jd_send_index := jd_send_index src\<rparr>)"

text \<open>\<open>jodie_close\<close> over \<open>close (2)\<close>, and the milliseconds of \<open>gettimeofday\<close>, whose seconds fit in a \<open>long\<close> a thousand times.\<close>

definition jodie_close :: "(int \<Rightarrow> int) \<Rightarrow> jodie \<Rightarrow> int" where
  "jodie_close close j = close (jd_socket j)"

definition jodie_getMillis :: "int \<times> int \<Rightarrow> int" where
  "jodie_getMillis tt = (case tt of (tv_sec, tv_usec) \<Rightarrow> tv_sec * 1000 + tv_usec div 1000)"

lemma jodie_getMillis_parts:
  assumes "0 \<le> tv_usec" and "tv_usec < 1000000"
  shows "jodie_getMillis (tv_sec, tv_usec) div 1000 = tv_sec" and "jodie_getMillis (tv_sec, tv_usec) mod 1000 = tv_usec div 1000"
proof -
  have "0 \<le> tv_usec div 1000" "tv_usec div 1000 < 1000" using assms by auto
  then show "jodie_getMillis (tv_sec, tv_usec) div 1000 = tv_sec"
    and "jodie_getMillis (tv_sec, tv_usec) mod 1000 = tv_usec div 1000"
    by (simp_all add: jodie_getMillis_def)
qed

definition jodie_flush :: "(nat \<Rightarrow> byte list \<Rightarrow> bool) \<Rightarrow> jodie \<Rightarrow> (int \<times> jodie) res" where
  "jodie_flush sendto j =
     and_then (c_strlen (jd_send_buffer j)) (\<lambda>n.
       let packet = take n (jd_send_buffer j); j1 = j\<lparr>jd_calls := Suc (jd_calls j)\<rparr> in
       if \<not> sendto (jd_calls j) packet then Inr (-1, j1)
       else Inr (0, j1\<lparr>jd_send_index := 0, jd_send_buffer := replicate BUFFER_SIZE 0,
                       jd_sent := jd_sent j @ [packet]\<rparr>))"

subsection \<open>Logging a line\<close>

text \<open>\<open>%lu\<close> and \<open>%d\<close>; a signed \<open>long\<close> printed by \<open>%lu\<close> is read as unsigned.\<close>

definition print_ulong :: "int \<Rightarrow> byte list" where
  "print_ulong x = decimal (nat (x mod 2 ^ 64))"

definition print_int :: "int \<Rightarrow> byte list" where
  "print_int x = (if x < 0 then 45 # decimal (nat (- x)) else decimal (nat x))"

text \<open>\<open>sprintf\<close> into the zeroed \<open>tmp_buf\<close>: the text and its NUL must fit.\<close>

definition tmp_sprintf :: "byte list \<Rightarrow> byte list res" where
  "tmp_sprintf line =
     (if length line < BUFFER_SIZE then Inr (line @ replicate (BUFFER_SIZE - length line) 0)
      else Inl OutOfBounds)"

definition buffer_store :: "byte list \<Rightarrow> nat \<Rightarrow> byte list \<Rightarrow> byte list res" where
  "buffer_store buf off bs =
     (if off + length bs \<le> length buf then Inr (take off buf @ bs @ drop (off + length bs) buf)
      else Inl OutOfBounds)"

text \<open>
  The statements that the five logging functions share: the size of the line, the flush when it
  would not fit in the packet, the copy behind \<open>send_index\<close>. The result of the flush is not used.
  \<open>w\<close> is the width of \<open>size_estimate + send_index\<close>: 64 where \<open>size_estimate\<close> is a
  \<open>size_t\<close> or a \<open>ssize_t\<close>, 32 where it is an \<open>unsigned\<close>.
\<close>

definition jodie_append ::
    "nat \<Rightarrow> (nat \<Rightarrow> byte list \<Rightarrow> bool) \<Rightarrow> jodie \<Rightarrow> byte list \<Rightarrow> (int \<times> jodie) res" where
  "jodie_append w sendto j tmp_buf =
     and_then (c_strlen tmp_buf) (\<lambda>size_estimate.
     and_then (if (int size_estimate + uint (jd_send_index j)) mod 2 ^ w > int PACKET_SIZE
               then and_then (jodie_flush sendto j) (\<lambda>(r, j'). Inr j') else Inr j) (\<lambda>j1.
     and_then (c_strncpy tmp_buf size_estimate) (\<lambda>bs.
     and_then (buffer_store (jd_send_buffer j1) (unat (jd_send_index j1)) bs) (\<lambda>buf.
       Inr (0, j1\<lparr>jd_send_buffer := buf, jd_send_index := jd_send_index j1 + of_nat size_estimate\<rparr>)))))"

definition datapath_too_long :: "byte list \<Rightarrow> bool" where
  "datapath_too_long datapath \<longleftrightarrow> length datapath > BUFFER_SIZE div 2"

text \<open>\<open>now\<close> is what \<open>jodie_getMillis\<close> returns.\<close>

definition metric_line :: "byte list \<Rightarrow> int \<Rightarrow> int \<Rightarrow> byte list \<Rightarrow> byte list" where
  "metric_line datapath v timestamp kind =
     datapath @ 32 # print_ulong v @ 32 # print_ulong timestamp @ 32 # kind @ [10]"

definition jodie_logGauge ::
    "(nat \<Rightarrow> byte list \<Rightarrow> bool) \<Rightarrow> int \<Rightarrow> jodie \<Rightarrow> byte list \<Rightarrow> int \<Rightarrow> int \<Rightarrow> (int \<times> jodie) res" where
  "jodie_logGauge sendto now j datapath v timestamp =
     (if datapath_too_long datapath then Inr (-1, j)
      else
        let timestamp' = (if timestamp = 0 then now else timestamp) in
        and_then (tmp_sprintf (metric_line datapath v timestamp' (bytes_of ''type=gauge''))) (\<lambda>tmp_buf.
          jodie_append 64 sendto j tmp_buf))"

definition jodie_logCounter ::
    "(nat \<Rightarrow> byte list \<Rightarrow> bool) \<Rightarrow> int \<Rightarrow> jodie \<Rightarrow> byte list \<Rightarrow> int \<Rightarrow> int \<Rightarrow> (int \<times> jodie) res" where
  "jodie_logCounter sendto now j datapath v timestamp =
     (if datapath_too_long datapath then Inr (-1, j)
      else
        let timestamp' = (if timestamp = 0 then now else timestamp) in
        and_then (tmp_sprintf (metric_line datapath v timestamp' (bytes_of ''type=counter''))) (\<lambda>tmp_buf.
          jodie_append 64 sendto j tmp_buf))"

text \<open>The value is limited after it has been printed.\<close>

definition jodie_logPercent ::
    "(nat \<Rightarrow> byte list \<Rightarrow> bool) \<Rightarrow> int \<Rightarrow> jodie \<Rightarrow> byte list \<Rightarrow> int \<Rightarrow> int \<Rightarrow> (int \<times> jodie) res" where
  "jodie_logPercent sendto now j datapath v timestamp =
     (if datapath_too_long datapath then Inr (-1, j)
      else
        let timestamp' = (if timestamp = 0 then now else timestamp) in
        and_then (tmp_sprintf (metric_line datapath v timestamp' (bytes_of ''type=percent''))) (\<lambda>tmp_buf.
          let v' = (if v > 100 then 100 else v) in
          jodie_append 64 sendto j tmp_buf))"

definition jodie_logTiming ::
    "(nat \<Rightarrow> byte list \<Rightarrow> bool) \<Rightarrow> int \<Rightarrow> jodie \<Rightarrow> byte list \<Rightarrow> int \<Rightarrow> int \<Rightarrow> byte list option \<Rightarrow> (int \<times> jodie) res" where
  "jodie_logTiming sendto now j datapath v timestamp units =
     (if datapath_too_long datapath then Inr (-1, j)
      else
        let timestamp' = (if timestamp = 0 then now else timestamp) in
        and_then (tmp_sprintf (metric_line datapath v timestamp'
            (bytes_of ''type=timing units='' @ (case units of None \<Rightarrow> bytes_of ''ms'' | Some u \<Rightarrow> u)))) (\<lambda>tmp_buf.
          jodie_append 32 sendto j tmp_buf))"

definition jodie_logStatus ::
    "(nat \<Rightarrow> byte list \<Rightarrow> bool) \<Rightarrow> int \<Rightarrow> jodie \<Rightarrow> byte list \<Rightarrow> status \<Rightarrow> int \<Rightarrow> (int \<times> jodie) res" where
  "jodie_logStatus sendto now j datapath v timestamp =
     (if datapath_too_long datapath then Inr (-1, j)
      else
        let timestamp' = (if timestamp = 0 then now else timestamp) in
        and_then (tmp_sprintf (datapath @ 32 # print_int (status_value v) @ 32 # print_ulong timestamp' @
            32 # bytes_of ''type=enum'' @ [10])) (\<lambda>tmp_buf.
          jodie_append 32 sendto j tmp_buf))"

subsection \<open>One event, a run of events\<close>

datatype metric =
    Gauge "byte list" int int
  | Counter "byte list" int int
  | Percent "byte list" int int
  | Timing "byte list" int int "byte list option"
  | Status "byte list" status int

fun jodie_log ::
    "(nat \<Rightarrow> byte list \<Rightarrow> bool) \<Rightarrow> int \<Rightarrow> jodie \<Rightarrow> metric \<Rightarrow> (int \<times> jodie) res" where
  "jodie_log sendto now j (Gauge p v t) = jodie_logGauge sendto now j p v t"
| "jodie_log sendto now j (Counter p v t) = jodie_logCounter sendto now j p v t"
| "jodie_log sendto now j (Percent p v t) = jodie_logPercent sendto now j p v t"
| "jodie_log sendto now j (Timing p v t u) = jodie_logTiming sendto now j p v t u"
| "jodie_log sendto now j (Status p v t) = jodie_logStatus sendto now j p v t"

fun jodie_log_all ::
    "(nat \<Rightarrow> byte list \<Rightarrow> bool) \<Rightarrow> jodie \<Rightarrow> (int \<times> metric) list \<Rightarrow> jodie res" where
  "jodie_log_all sendto j [] = Inr j"
| "jodie_log_all sendto j ((now, m) # ms) =
     and_then (jodie_log sendto now j m) (\<lambda>(r, j'). jodie_log_all sendto j' ms)"

text \<open>The specification: the text of an event, and which events are refused.\<close>

definition metric_stamp :: "int \<Rightarrow> int \<Rightarrow> int" where
  "metric_stamp now t = (if t = 0 then now else t)"

fun metric_path :: "metric \<Rightarrow> byte list" where
  "metric_path (Gauge p v t) = p"
| "metric_path (Counter p v t) = p"
| "metric_path (Percent p v t) = p"
| "metric_path (Timing p v t u) = p"
| "metric_path (Status p v t) = p"

fun metric_text :: "int \<Rightarrow> metric \<Rightarrow> byte list" where
  "metric_text now (Gauge p v t) = metric_line p v (metric_stamp now t) (bytes_of ''type=gauge'')"
| "metric_text now (Counter p v t) = metric_line p v (metric_stamp now t) (bytes_of ''type=counter'')"
| "metric_text now (Percent p v t) = metric_line p v (metric_stamp now t) (bytes_of ''type=percent'')"
| "metric_text now (Timing p v t u) = metric_line p v (metric_stamp now t)
     (bytes_of ''type=timing units='' @ (case u of None \<Rightarrow> bytes_of ''ms'' | Some x \<Rightarrow> x))"
| "metric_text now (Status p v t) = p @ 32 # print_int (status_value v) @ 32 #
     print_ulong (metric_stamp now t) @ 32 # bytes_of ''type=enum'' @ [10]"

fun metric_width :: "metric \<Rightarrow> nat" where
  "metric_width (Timing p v t u) = 32"
| "metric_width (Status p v t) = 32"
| "metric_width m = 64"

lemma jodie_log_eq:
  "jodie_log sendto now j m =
     (if datapath_too_long (metric_path m) then Inr (-1, j)
      else and_then (tmp_sprintf (metric_text now m)) (jodie_append (metric_width m) sendto j))"
  by (cases m)
     (simp_all add: jodie_logGauge_def jodie_logCounter_def jodie_logPercent_def jodie_logTiming_def
       jodie_logStatus_def metric_stamp_def Let_def)

text \<open>The strings of an event have no NUL.\<close>

fun metric_strings :: "metric \<Rightarrow> bool" where
  "metric_strings (Timing p v t (Some u)) \<longleftrightarrow> 0 \<notin> set p \<and> 0 \<notin> set u"
| "metric_strings m \<longleftrightarrow> 0 \<notin> set (metric_path m)"

lemma decimal_no_nul: "0 \<notin> set (decimal n)"
  using decimal_value[of n] by (auto simp: is_digit_def)

lemma length_decimal: "n < 10 ^ Suc k \<Longrightarrow> length (decimal n) \<le> Suc k"
proof (induction k arbitrary: n)
  case 0
  then show ?case by (subst decimal.simps) simp
next
  case (Suc k)
  have "n div 10 < 10 ^ Suc k" using Suc.prems by (simp add: less_mult_imp_div_less mult.commute)
  from Suc.IH[OF this] show ?case by (subst decimal.simps) simp
qed

lemma print_ulong_bounds: "0 \<notin> set (print_ulong x) \<and> length (print_ulong x) \<le> 20"
proof -
  have "x mod 2 ^ 64 < 10 ^ 20" by (rule less_trans[OF pos_mod_bound]) simp_all
  then have "nat (x mod 2 ^ 64) < 10 ^ Suc 19" by (simp add: nat_less_iff)
  from length_decimal[OF this] show ?thesis by (simp add: print_ulong_def decimal_no_nul)
qed

lemma print_status_bounds: "0 \<notin> set (print_int (status_value s)) \<and> length (print_int (status_value s)) = 1"
  by (cases s) (simp_all add: print_int_def decimal.simps)

lemma metric_text_string:
  assumes "metric_strings m"
  shows "0 \<notin> set (metric_text now m)" and "metric_text now m \<noteq> []"
proof -
  note b = print_ulong_bounds [THEN conjunct1] print_status_bounds [THEN conjunct1]
  show "0 \<notin> set (metric_text now m)"
  proof (cases m)
    case (Timing p v t u)
    with assms b show ?thesis by (cases u) (auto simp: metric_line_def bytes_of_def)
  qed (use assms b in \<open>auto simp: metric_line_def bytes_of_def\<close>)
  show "metric_text now m \<noteq> []" by (cases m) (simp_all add: metric_line_def)
qed

text \<open>Only units of more than 300 bytes, which no function looks at, make a line longer than a packet.\<close>

fun long_units :: "metric \<Rightarrow> bool" where
  "long_units (Timing p v t (Some u)) \<longleftrightarrow> 300 < length u"
| "long_units m \<longleftrightarrow> False"

lemma metric_text_length:
  assumes "\<not> datapath_too_long (metric_path m)" and "\<not> long_units m"
  shows "length (metric_text now m) \<le> PACKET_SIZE"
proof -
  note b = print_ulong_bounds [of "metric_stamp now t" for t, THEN conjunct2]
  show ?thesis
  proof (cases m)
    case (Timing p v t u)
    with assms b [of t] print_ulong_bounds [of v] show ?thesis
      by (cases u) (auto simp: metric_line_def bytes_of_def datapath_too_long_def BUFFER_SIZE_def PACKET_SIZE_def)
  next
    case (Status p v t)
    with assms b [of t] print_status_bounds [of v] show ?thesis
      by (auto simp: bytes_of_def datapath_too_long_def BUFFER_SIZE_def PACKET_SIZE_def)
  next
    case (Gauge p v t)
    with assms b [of t] print_ulong_bounds [of v] show ?thesis
      by (auto simp: metric_line_def bytes_of_def datapath_too_long_def BUFFER_SIZE_def PACKET_SIZE_def)
  next
    case (Counter p v t)
    with assms b [of t] print_ulong_bounds [of v] show ?thesis
      by (auto simp: metric_line_def bytes_of_def datapath_too_long_def BUFFER_SIZE_def PACKET_SIZE_def)
  next
    case (Percent p v t)
    with assms b [of t] print_ulong_bounds [of v] show ?thesis
      by (auto simp: metric_line_def bytes_of_def datapath_too_long_def BUFFER_SIZE_def PACKET_SIZE_def)
  qed
qed

subsection \<open>The buffer as text\<close>

text \<open>\<open>jodie_holds j p\<close>: the buffer holds the unsent text \<open>p\<close> and zeros behind it.\<close>

definition jodie_holds :: "jodie \<Rightarrow> byte list \<Rightarrow> bool" where
  "jodie_holds j p \<longleftrightarrow> 0 \<notin> set p \<and> length p \<le> BUFFER_SIZE \<and> jd_send_index j = of_nat (length p) \<and>
     jd_send_buffer j = p @ replicate (BUFFER_SIZE - length p) 0"

definition unsent :: "jodie \<Rightarrow> byte list" where
  "unsent j = take (unat (jd_send_index j)) (jd_send_buffer j)"

lemma small_index:
  assumes "n \<le> BUFFER_SIZE"
  shows "unat (of_nat n :: 32 word) = n" and "uint (of_nat n :: 32 word) = int n"
  using assms by (simp_all add: BUFFER_SIZE_def unat_of_nat uint_nat)

lemma jodie_holds_index: "jodie_holds j p \<Longrightarrow> unat (jd_send_index j) = length p \<and> uint (jd_send_index j) = int (length p)"
  by (simp add: jodie_holds_def small_index)

lemma jodie_holds_unsent: "jodie_holds j p \<Longrightarrow> unsent j = p"
  using jodie_holds_index[of j p] by (simp add: unsent_def jodie_holds_def)

lemma jodie_init_holds:
  "jodie_init inet_aton socket host port j = (0, j') \<Longrightarrow> jodie_holds j' [] \<and> jd_sent j' = jd_sent j"
  by (auto simp: jodie_init_def jodie_holds_def Let_def split: option.splits if_splits)

lemma jodie_flush_holds:
  assumes "jodie_holds j p" and "length p < BUFFER_SIZE"
  shows "jodie_flush sendto j =
    (if sendto (jd_calls j) p
     then Inr (0, j\<lparr>jd_calls := Suc (jd_calls j), jd_send_index := 0,
                    jd_send_buffer := replicate BUFFER_SIZE 0, jd_sent := jd_sent j @ [p]\<rparr>)
     else Inr (-1, j\<lparr>jd_calls := Suc (jd_calls j)\<rparr>))"
proof -
  obtain k where k: "BUFFER_SIZE - length p = Suc k" using assms(2) by (metis Suc_diff_Suc)
  have "c_strlen (jd_send_buffer j) = Inr (length p)"
    using assms(1) k c_strlen_append[of p "replicate k 0"] by (simp add: jodie_holds_def)
  then show ?thesis using assms(1) by (simp add: jodie_flush_def jodie_holds_def Let_def)
qed

lemma c_strlen_no_nul: "0 \<notin> set s \<Longrightarrow> c_strlen s = Inl OutOfBounds"
  by (induction s) auto

lemma jodie_flush_full:
  "jodie_holds j p \<Longrightarrow> length p = BUFFER_SIZE \<Longrightarrow> jodie_flush sendto j = Inl OutOfBounds"
  by (simp add: jodie_flush_def jodie_holds_def c_strlen_no_nul)

text \<open>The copy at \<open>send_index\<close>.\<close>

lemma buffer_store_holds:
  assumes h: "jodie_holds j p" and l: "0 \<notin> set l"
  shows "and_then (buffer_store (jd_send_buffer j) (unat (jd_send_index j)) l)
      (\<lambda>buf. Inr (0::int, j\<lparr>jd_send_buffer := buf, jd_send_index := jd_send_index j + of_nat (length l)\<rparr>)) =
    (if length p + length l \<le> BUFFER_SIZE
     then Inr (0, j\<lparr>jd_send_buffer := (p @ l) @ replicate (BUFFER_SIZE - length (p @ l)) 0,
                    jd_send_index := of_nat (length (p @ l))\<rparr>)
     else Inl OutOfBounds)"
  using h jodie_holds_index[OF h] by (simp add: jodie_holds_def buffer_store_def)

lemma jodie_holds_update:
  "length q \<le> BUFFER_SIZE \<Longrightarrow> 0 \<notin> set q \<Longrightarrow>
     jodie_holds (j\<lparr>jd_send_buffer := q @ replicate (BUFFER_SIZE - length q) 0, jd_send_index := of_nat (length q)\<rparr>) q"
  by (simp add: jodie_holds_def)

text \<open>
  The outcome of an append: \<open>overfull\<close> is the test before the flush, \<open>appended\<close> the text the
  buffer holds afterwards, \<open>datagrams\<close> what the flush has sent.
\<close>

definition overfull :: "byte list \<Rightarrow> byte list \<Rightarrow> bool" where
  "overfull p l \<longleftrightarrow> length p + length l > PACKET_SIZE"

definition appended :: "bool \<Rightarrow> byte list \<Rightarrow> byte list \<Rightarrow> byte list" where
  "appended ok p l = (if overfull p l \<and> ok then l else p @ l)"

definition datagrams :: "bool \<Rightarrow> byte list \<Rightarrow> byte list \<Rightarrow> byte list list" where
  "datagrams ok p l = (if overfull p l \<and> ok then [p] else [])"

lemma appended_content: "concat (sent @ datagrams ok p l) @ appended ok p l = (concat sent @ p) @ l"
  by (auto simp: datagrams_def appended_def)

abbreviation line_text :: "byte list \<Rightarrow> bool" where
  "line_text l \<equiv> 0 \<notin> set l \<and> l \<noteq> [] \<and> length l < BUFFER_SIZE"

abbreviation c_line :: "byte list \<Rightarrow> byte list" where
  "c_line l \<equiv> l @ replicate (BUFFER_SIZE - length l) 0"

lemma c_line_string:
  assumes "line_text l"
  shows "c_strlen (c_line l) = Inr (length l)" and "c_strncpy (c_line l) (length l) = Inr l"
proof -
  obtain k where "BUFFER_SIZE - length l = Suc k" using assms by (metis Suc_diff_Suc)
  then show "c_strlen (c_line l) = Inr (length l)" using assms c_strlen_append[of l "replicate k 0"] by simp
  show "c_strncpy (c_line l) (length l) = Inr l"
    using assms c_strncpy_take[of "length l" "c_line l"] by simp
qed

lemma overfull_test:
  assumes "jodie_holds j p" and "line_text l" and "w = 32 \<or> w = 64"
  shows "(int (length l) + uint (jd_send_index j)) mod 2 ^ w > int PACKET_SIZE \<longleftrightarrow> overfull p l"
proof -
  have "length l + length p \<le> 4096"
    using assms(1,2) by (simp add: jodie_holds_def BUFFER_SIZE_def)
  then have "int (length l) + int (length p) < 2 ^ w" using assms(3) by auto
  then show ?thesis using jodie_holds_index[OF assms(1)] by (auto simp: overfull_def)
qed

lemma jodie_append_outcome:
  assumes h: "jodie_holds j p" and l: "line_text l" and w: "w = 32 \<or> w = 64"
    and ok: "ok = sendto (jd_calls j) p" 
  shows "length (appended ok p l) \<le> BUFFER_SIZE \<and> (overfull p l \<longrightarrow> length p < BUFFER_SIZE) \<Longrightarrow>
      \<exists>j'. jodie_append w sendto j (c_line l) = Inr (0, j') \<and> jodie_holds j' (appended ok p l) \<and>
        jd_sent j' = jd_sent j @ datagrams ok p l \<and> jd_calls j \<le> jd_calls j'"
    and "BUFFER_SIZE < length (appended ok p l) \<or> (overfull p l \<and> length p = BUFFER_SIZE) \<Longrightarrow>
      jodie_append w sendto j (c_line l) = Inl OutOfBounds"
proof -
  note s = c_line_string[OF l] overfull_test[OF h l w]
  have nul: "0 \<notin> set p" "length l \<le> BUFFER_SIZE"
    using h l by (simp_all add: jodie_holds_def BUFFER_SIZE_def PACKET_SIZE_def)
  let ?j0 = "j\<lparr>jd_calls := Suc (jd_calls j)\<rparr>"
  let ?j1 = "j\<lparr>jd_calls := Suc (jd_calls j), jd_send_index := 0,
                jd_send_buffer := replicate BUFFER_SIZE 0, jd_sent := jd_sent j @ [p]\<rparr>"
  have h0: "jodie_holds ?j0 p" and h1: "jodie_holds ?j1 []" using h by (simp_all add: jodie_holds_def)
  note st = buffer_store_holds[OF h, of l] buffer_store_holds[OF h0, of l] buffer_store_holds[OF h1, of l]
  show "length (appended ok p l) \<le> BUFFER_SIZE \<and> (overfull p l \<longrightarrow> length p < BUFFER_SIZE) \<Longrightarrow>
      \<exists>j'. jodie_append w sendto j (c_line l) = Inr (0, j') \<and> jodie_holds j' (appended ok p l) \<and>
        jd_sent j' = jd_sent j @ datagrams ok p l \<and> jd_calls j \<le> jd_calls j'"
  proof -
    assume a: "length (appended ok p l) \<le> BUFFER_SIZE \<and> (overfull p l \<longrightarrow> length p < BUFFER_SIZE)"
    consider "\<not> overfull p l" | "overfull p l" "ok" | "overfull p l" "\<not> ok" by blast
    then show ?thesis
    proof cases
      case 1
      with a s st(1) l nul show ?thesis
        by (simp add: jodie_append_def appended_def datagrams_def jodie_holds_def)
    next
      case 2
      with a s st(3) l nul ok show ?thesis
        by (simp add: jodie_append_def appended_def datagrams_def jodie_flush_holds[OF h]) (simp add: jodie_holds_def)
    next
      case 3
      with a s st(2) l nul ok show ?thesis
        by (simp add: jodie_append_def appended_def datagrams_def jodie_flush_holds[OF h]) (simp add: jodie_holds_def)
    qed
  qed
  show "jodie_append w sendto j (c_line l) = Inl OutOfBounds"
    if a: "BUFFER_SIZE < length (appended ok p l) \<or> (overfull p l \<and> length p = BUFFER_SIZE)"
  proof (cases "overfull p l")
    case False
    then show ?thesis using a by (simp add: overfull_def appended_def BUFFER_SIZE_def PACKET_SIZE_def)
  next
    case True
    show ?thesis
    proof (cases "length p = BUFFER_SIZE")
      case True
      with \<open>overfull p l\<close> s show ?thesis by (simp add: jodie_append_def jodie_flush_full[OF h])
    next
      case False
      with h have "length p < BUFFER_SIZE" by (simp add: jodie_holds_def)
      moreover have "\<not> ok" "BUFFER_SIZE < length p + length l"
        using a False True nul by (auto simp: appended_def split: if_splits)
      ultimately show ?thesis using \<open>overfull p l\<close> s st(2) l ok
        by (simp add: jodie_append_def jodie_flush_holds[OF h])
    qed
  qed
qed

subsection \<open>The client as a metric sink\<close>

text \<open>The events that are not refused, as their texts.\<close>

definition accepted :: "(int \<times> metric) list \<Rightarrow> byte list list" where
  "accepted ms = map (\<lambda>(now, m). metric_text now m) (filter (\<lambda>(now, m). \<not> datapath_too_long (metric_path m)) ms)"

lemma jodie_log_accepted:
  assumes "\<not> datapath_too_long (metric_path m)" and "length (metric_text now m) < BUFFER_SIZE"
  shows "jodie_log sendto now j m = jodie_append (metric_width m) sendto j (c_line (metric_text now m))"
  using assms by (simp add: jodie_log_eq tmp_sprintf_def)

text \<open>A line that does not fit in \<open>tmp_buf\<close> is written beyond it.\<close>

lemma jodie_log_line_overrun:
  assumes "\<not> datapath_too_long (metric_path m)" and "BUFFER_SIZE \<le> length (metric_text now m)"
  shows "jodie_log sendto now j m = Inl OutOfBounds"
  using assms by (simp add: jodie_log_eq tmp_sprintf_def)

lemma metric_width_cases: "metric_width m = 32 \<or> metric_width m = 64"
  by (cases m) auto

lemma metric_append:
  assumes "jodie_holds j p" and "metric_strings m" and "\<not> datapath_too_long (metric_path m)"
    and "ok = sendto (jd_calls j) p" and "l = metric_text now m"
    and "length l < BUFFER_SIZE"
  shows "length (appended ok p l) \<le> BUFFER_SIZE \<Longrightarrow> overfull p l \<longrightarrow> length p < BUFFER_SIZE \<Longrightarrow>
      \<exists>j'. jodie_log sendto now j m = Inr (0, j') \<and> jodie_holds j' (appended ok p l) \<and>
        jd_sent j' = jd_sent j @ datagrams ok p l \<and> jd_calls j \<le> jd_calls j'"
    and "BUFFER_SIZE < length (appended ok p l) \<or> (overfull p l \<and> length p = BUFFER_SIZE) \<Longrightarrow>
      jodie_log sendto now j m = Inl OutOfBounds"
proof -
  have l: "line_text l" using metric_text_string[OF assms(2), of now] assms(5,6) by auto
  note o = jodie_append_outcome[where sendto = sendto, OF assms(1) l metric_width_cases[of m] assms(4)]
  show "length (appended ok p l) \<le> BUFFER_SIZE \<Longrightarrow> overfull p l \<longrightarrow> length p < BUFFER_SIZE \<Longrightarrow>
      \<exists>j'. jodie_log sendto now j m = Inr (0, j') \<and> jodie_holds j' (appended ok p l) \<and>
        jd_sent j' = jd_sent j @ datagrams ok p l \<and> jd_calls j \<le> jd_calls j'"
    using o(1) assms(5,6) by (simp add: jodie_log_accepted[OF assms(3)])
  show "BUFFER_SIZE < length (appended ok p l) \<or> (overfull p l \<and> length p = BUFFER_SIZE) \<Longrightarrow>
      jodie_log sendto now j m = Inl OutOfBounds"
    using o(2) assms(5,6) by (simp add: jodie_log_accepted[OF assms(3)])
qed

text \<open>The state with the ghosts read off: what was sent and what is unsent.\<close>

definition jodie_state :: "jodie \<Rightarrow> byte list list \<times> byte list \<Rightarrow> bool" where
  "jodie_state j q \<longleftrightarrow> jodie_holds j (snd q) \<and> length (snd q) < BUFFER_SIZE \<and> jd_sent j = fst q"

definition reliable :: "nat \<Rightarrow> byte list \<Rightarrow> bool" where
  "reliable k packet = True"

definition sink_log :: "jodie \<Rightarrow> int \<times> metric \<Rightarrow> jodie res" where
  "sink_log j m = and_then (jodie_log reliable (fst m) j (snd m)) (\<lambda>(r, j'). Inr j')"

definition sink_flush :: "jodie \<Rightarrow> jodie res" where
  "sink_flush j = and_then (jodie_flush reliable j) (\<lambda>(r, j'). Inr j')"

lemma appended_pack:
  "pack PACKET_SIZE (sent, p) [l] = (sent @ datagrams True p l, appended True p l)"
  by (simp add: datagrams_def appended_def overfull_def)

interpretation jodie_sink: metric_sink jodie_state sink_log sink_flush "\<lambda>(now, m). metric_text now m"
  "\<lambda>(now, m). metric_strings m \<and> \<not> datapath_too_long (metric_path m) \<and> length (metric_text now m) < BUFFER_SIZE" PACKET_SIZE
proof unfold_locales
  fix s q and m :: "int \<times> metric"
  assume h: "jodie_state s q" and g: "case m of (now, m) \<Rightarrow>
      metric_strings m \<and> \<not> datapath_too_long (metric_path m) \<and> length (metric_text now m) < BUFFER_SIZE"
  obtain now m' where m: "m = (now, m')" by (cases m)
  obtain sent p where q: "q = (sent, p)" by (cases q)
  have g': "metric_strings m'" "\<not> datapath_too_long (metric_path m')" "length (metric_text now m') < BUFFER_SIZE"
    using g m by auto
  have hp: "jodie_holds s p" "length p < BUFFER_SIZE" "jd_sent s = sent" using h q by (auto simp: jodie_state_def)
  have ap: "length (appended True p (metric_text now m')) < BUFFER_SIZE"
    using g'(3) by (simp add: appended_def overfull_def BUFFER_SIZE_def PACKET_SIZE_def)
  from metric_append(1)[OF hp(1) g'(1,2) _ refl g'(3) less_imp_le[OF ap], of reliable] hp(2) obtain s' where
    "jodie_log reliable now s m' = Inr (0, s')" "jodie_holds s' (appended True p (metric_text now m'))"
    "jd_sent s' = sent @ datagrams True p (metric_text now m')"
    using hp(3) by (auto simp: reliable_def)
  with ap show "\<exists>s'. sink_log s m = Inr s' \<and>
      jodie_state s' (pack PACKET_SIZE q [case m of (now, m) \<Rightarrow> metric_text now m])"
    by (auto simp: m q sink_log_def jodie_state_def appended_pack simp del: pack.simps)
next
  fix s q
  assume h: "jodie_state s q"
  then have "length (snd q) < BUFFER_SIZE" by (simp add: jodie_state_def)
  with h show "\<exists>s'. sink_flush s = Inr s' \<and> jodie_state s' (packed q, [])"
    by (auto simp: sink_flush_def jodie_state_def jodie_flush_holds reliable_def packed_def)
       (simp_all add: jodie_holds_def BUFFER_SIZE_def)
qed

subsection \<open>Runs of events\<close>

lemma accepted_Cons:
  "accepted ((now, m) # ms) = (if datapath_too_long (metric_path m) then [] else [metric_text now m]) @ accepted ms"
  by (simp add: accepted_def)

lemma jodie_log_refused:
  "datapath_too_long (metric_path m) \<Longrightarrow> jodie_log sendto now j m = Inr (-1, j)"
  by (simp add: jodie_log_eq)

lemma metric_append_cases:
  assumes "jodie_holds j p" and "metric_strings m" and "\<not> datapath_too_long (metric_path m)"
    and "ok = sendto (jd_calls j) p" and "l = metric_text now m"
  obtains (held) j' where "jodie_log sendto now j m = Inr (0, j')" "jodie_holds j' (appended ok p l)"
      "jd_sent j' = jd_sent j @ datagrams ok p l" "length (appended ok p l) \<le> BUFFER_SIZE"
      "overfull p l \<longrightarrow> length p < BUFFER_SIZE" "length l < BUFFER_SIZE"
    | (overrun) "jodie_log sendto now j m = Inl OutOfBounds" "BUFFER_SIZE \<le> length l \<or>
      BUFFER_SIZE < length (appended ok p l) \<or> (overfull p l \<and> length p = BUFFER_SIZE)"
proof (cases "length l < BUFFER_SIZE")
  case True
  show ?thesis
  proof (cases "length (appended ok p l) \<le> BUFFER_SIZE \<and> (overfull p l \<longrightarrow> length p < BUFFER_SIZE)")
    case fits: True
    then show ?thesis using metric_append(1)[where sendto = sendto, OF assms True] True held by blast
  next
    case False
    moreover have "length p \<le> BUFFER_SIZE" using assms(1) by (simp add: jodie_holds_def)
    ultimately have "BUFFER_SIZE < length (appended ok p l) \<or> (overfull p l \<and> length p = BUFFER_SIZE)" by auto
    then show ?thesis using metric_append(2)[where sendto = sendto, OF assms True] overrun by blast
  qed
next
  case False
  with jodie_log_line_overrun[OF assms(3), of now] assms(5) show ?thesis by (intro overrun) auto
qed

lemma jodie_log_all_content:
  "jodie_holds j p \<Longrightarrow> \<forall>x\<in>set ms. metric_strings (snd x) \<Longrightarrow> jodie_log_all sendto j ms = Inr j' \<Longrightarrow>
     \<exists>q. jodie_holds j' q \<and> concat (jd_sent j') @ q = concat (jd_sent j) @ p @ concat (accepted ms)"
proof (induction ms arbitrary: j p)
  case Nil
  then show ?case by (auto simp: accepted_def)
next
  case (Cons x ms)
  obtain now m where x: "x = (now, m)" by (cases x)
  show ?case
  proof (cases "datapath_too_long (metric_path m)")
    case True
    with Cons.IH[OF Cons.prems(1)] Cons.prems x show ?thesis by (simp add: jodie_log_refused accepted_Cons)
  next
    case False
    have m: "metric_strings m" using Cons.prems(2) x by simp
    from Cons.prems(1) m False refl refl show ?thesis
    proof (cases rule: metric_append_cases[where sendto = sendto and now = now])
      case (held j1)
      with Cons.prems x have "jodie_log_all sendto j1 ms = Inr j'" by simp
      from Cons.IH[OF held(2) _ this] Cons.prems(2) obtain q where
        "jodie_holds j' q" "concat (jd_sent j') @ q =
          concat (jd_sent j1) @ appended (sendto (jd_calls j) p) p (metric_text now m) @ concat (accepted ms)"
        by auto
      then show ?thesis using False x held(3) appended_content[of "jd_sent j" "sendto (jd_calls j) p" p "metric_text now m"]
        by (auto simp: accepted_Cons simp flip: append_assoc)
    next
      case overrun
      with Cons.prems x show ?thesis by simp
    qed
  qed
qed

definition unreachable :: "nat \<Rightarrow> byte list \<Rightarrow> bool" where
  "unreachable k packet = False"

lemma jodie_log_all_unreachable:
  "jodie_holds j p \<Longrightarrow> \<forall>x\<in>set ms. metric_strings (snd x) \<Longrightarrow>
     (if BUFFER_SIZE < length p + length (concat (accepted ms)) \<or> (\<exists>l\<in>set (accepted ms). BUFFER_SIZE \<le> length l) then jodie_log_all unreachable j ms = Inl OutOfBounds
      else \<exists>j'. jodie_log_all unreachable j ms = Inr j' \<and> jodie_holds j' (p @ concat (accepted ms)) \<and> jd_sent j' = jd_sent j)"
proof (induction ms arbitrary: j p)
  case Nil
  then show ?case by (auto simp: accepted_def jodie_holds_def)
next
  case (Cons x ms)
  obtain now m where x: "x = (now, m)" by (cases x)
  show ?case
  proof (cases "datapath_too_long (metric_path m)")
    case True
    with Cons.IH[OF Cons.prems(1)] Cons.prems x show ?thesis by (simp add: jodie_log_refused accepted_Cons)
  next
    case False
    have m: "metric_strings m" using Cons.prems(2) x by simp
    let ?l = "metric_text now m"
    have u: "unreachable (jd_calls j) p = False" by (simp add: unreachable_def)
    have ap: "appended False p ?l = p @ ?l" and dg: "datagrams False p ?l = []"
      by (simp_all add: appended_def datagrams_def)
    from Cons.prems(1) m False refl refl show ?thesis
    proof (cases rule: metric_append_cases[where sendto = unreachable and now = now])
      case (held j1)
      with Cons.IH[of j1 "p @ ?l"] Cons.prems(2) False x show ?thesis
        by (auto simp: accepted_Cons u ap dg add.assoc split: if_splits)
    next
      case overrun
      moreover have "?l \<noteq> []" using metric_text_string(2)[OF m] .
      ultimately have "BUFFER_SIZE < length p + length ?l \<or> BUFFER_SIZE \<le> length ?l" by (auto simp: u ap)
      with overrun(1) False x show ?thesis by (auto simp: accepted_Cons)
    qed
  qed
qed

lemma jodie_log_all_sink:
  "log_all sink_log j ms = jodie_log_all reliable j ms"
proof (induction ms arbitrary: j)
  case (Cons x ms)
  then show ?case
    by (cases x; cases "jodie_log reliable (fst x) j (snd x)") (auto simp: sink_log_def)
qed simp

subsection \<open>Properties\<close>

text \<open>Three events, the second of them refused.\<close>

definition long_path :: "byte list" where
  "long_path = replicate (BUFFER_SIZE div 2 + 1) 97"

lemma long_path_refused: "datapath_too_long long_path" "0 \<notin> set long_path"
  unfolding long_path_def datapath_too_long_def length_replicate set_replicate_conv_if by simp_all

definition sample_metrics :: "(int \<times> metric) list" where
  "sample_metrics =
     [(5, Gauge (bytes_of ''a.b'') 7 0), (6, Status long_path WARNING 9), (7, Counter (bytes_of ''c'') 12 3)]"

definition fresh_jodie :: jodie where
  "fresh_jodie = \<lparr>jd_addr = 0, jd_port = 0, jd_socket = 0, jd_send_index = 0, jd_send_buffer = replicate BUFFER_SIZE 0,
     jd_sent = [], jd_calls = 0\<rparr>"

lemma fresh_jodie_holds [simp]: "jodie_holds fresh_jodie []" "jd_sent fresh_jodie = []"
  by (simp_all add: fresh_jodie_def jodie_holds_def)

lemma fresh_jodie_init: "jodie_init (\<lambda>_. Some 0) 0 [] 0 fresh_jodie = (0, fresh_jodie\<lparr>jd_port := 41000\<rparr>)"
  unfolding jodie_init_def fresh_jodie_def Let_def JODIE_PORT_def by simp

lemma sample_metrics_strings: "\<forall>x\<in>set sample_metrics. metric_strings (snd x)"
  by (simp add: sample_metrics_def bytes_of_def long_path_refused)

lemma sample_metrics_accepted:
  "accepted sample_metrics = [bytes_of ''a.b 7 5 type=gauge'' @ [10], bytes_of ''c 12 3 type=counter'' @ [10]]"
proof -
  have "\<not> datapath_too_long (bytes_of ''a.b'')" "\<not> datapath_too_long (bytes_of ''c'')"
    by (simp_all add: datapath_too_long_def BUFFER_SIZE_def)
  moreover have "metric_text 5 (Gauge (bytes_of ''a.b'') 7 0) = bytes_of ''a.b 7 5 type=gauge'' @ [10]"
    "metric_text 7 (Counter (bytes_of ''c'') 12 3) = bytes_of ''c 12 3 type=counter'' @ [10]"
    by code_simp+
  ultimately show ?thesis by (simp add: sample_metrics_def accepted_Cons long_path_refused) (simp add: accepted_def)
qed

text \<open>
  C20: whatever \<open>sendto\<close> answers, call by call, a run of logging calls that returns has lost,
  duplicated and reordered nothing: the datagrams sent and the text still in the buffer are, one
  behind the other, what was there before and then the lines of the events that were not refused.
\<close>
theorem metrics_not_lost:
  assumes "jodie_holds j p" and "\<forall>x\<in>set ms. metric_strings (snd x)" and "jodie_log_all sendto j ms = Inr j'"
  shows "concat (jd_sent j') @ unsent j' = concat (jd_sent j) @ p @ concat (accepted ms)"
  using jodie_log_all_content[OF assms] jodie_holds_unsent by blast

theorem metrics_not_lost_witness:
  "\<exists>j'. jodie_log_all unreachable fresh_jodie sample_metrics = Inr j' \<and>
     concat (jd_sent j') @ unsent j' = bytes_of ''a.b 7 5 type=gauge'' @ [10] @ bytes_of ''c 12 3 type=counter'' @ [10]"
proof -
  have "\<not> BUFFER_SIZE < length ([] :: byte list) + length (concat (accepted sample_metrics))"
    "\<not> (\<exists>l\<in>set (accepted sample_metrics). BUFFER_SIZE \<le> length l)"
    by (simp_all add: sample_metrics_accepted BUFFER_SIZE_def)
  with jodie_log_all_unreachable[OF fresh_jodie_holds(1) sample_metrics_strings]
  obtain j' where j': "jodie_log_all unreachable fresh_jodie sample_metrics = Inr j'" by metis
  have "concat (accepted sample_metrics) =
      bytes_of ''a.b 7 5 type=gauge'' @ [10] @ bytes_of ''c 12 3 type=counter'' @ [10]"
    by (simp add: sample_metrics_accepted)
  with metrics_not_lost[OF fresh_jodie_holds(1) sample_metrics_strings j'] j' show ?thesis
    by (metis append_Nil concat.simps(1) fresh_jodie_holds(2))
qed

lemma reliable_run:
  "jodie_state j q \<Longrightarrow> \<forall>x\<in>set ms. metric_strings (snd x) \<Longrightarrow>
     (if \<exists>l\<in>set (accepted ms). BUFFER_SIZE \<le> length l then jodie_log_all reliable j ms = Inl OutOfBounds
      else \<exists>j'. jodie_log_all reliable j ms = Inr j' \<and> jodie_state j' (pack PACKET_SIZE q (accepted ms)))"
proof (induction ms arbitrary: j q)
  case Nil
  then show ?case by (simp add: accepted_def)
next
  case (Cons x ms)
  obtain now m where x: "x = (now, m)" by (cases x)
  show ?case
  proof (cases "datapath_too_long (metric_path m)")
    case True
    with Cons x show ?thesis by (simp add: jodie_log_refused accepted_Cons)
  next
    case ok: False
    show ?thesis
    proof (cases "BUFFER_SIZE \<le> length (metric_text now m)")
      case True
      with jodie_log_line_overrun[OF ok] ok x show ?thesis by (simp add: accepted_Cons)
    next
      case False
      then have "\<exists>j1. sink_log j x = Inr j1 \<and> jodie_state j1 (pack PACKET_SIZE q [metric_text now m])"
        using jodie_sink.log_law[OF Cons.prems(1), of x] Cons.prems(2) ok x by simp
      then obtain r j1 where "jodie_log reliable now j m = Inr (r, j1)"
        "jodie_state j1 (pack PACKET_SIZE q [metric_text now m])"
        by (cases "jodie_log reliable now j m") (auto simp: sink_log_def x)
      moreover have "pack PACKET_SIZE q (metric_text now m # accepted ms) =
          pack PACKET_SIZE (pack PACKET_SIZE q [metric_text now m]) (accepted ms)"
        using pack_append[of PACKET_SIZE q "[metric_text now m]" "accepted ms"] by simp
      ultimately show ?thesis using Cons.IH[of j1] Cons.prems(2) ok False x by (simp add: accepted_Cons)
    qed
  qed
qed

lemma accepted_long:
  assumes "l \<in> set (accepted ms)" and "PACKET_SIZE < length l"
  shows "\<exists>(now, m)\<in>set ms. l = metric_text now m \<and> long_units m"
  using assms metric_text_length by (fastforce simp: accepted_def not_le[symmetric])

text \<open>
  C21: after a successful \<open>jodie_init\<close>, while \<open>sendto\<close> succeeds, a sequence of logging calls packs the lines of the
  events that are not refused greedily, unless one of these lines has \<open>BUFFER_SIZE\<close> bytes or more: then, and only
  then, the call writes beyond its \<open>tmp_buf\<close>. A line that would make the datagram longer than \<open>PACKET_SIZE\<close> starts
  the next one and none is cut. A datagram longer than \<open>PACKET_SIZE\<close> is one line with units of more than 300
  bytes, whose length \<open>jodie_logTiming\<close> does not check.
\<close>
theorem metrics_packed:
  assumes "jodie_init inet_aton socket host port j0 = (0, j)" and "jd_sent j0 = []"
    and "\<forall>x\<in>set ms. metric_strings (snd x)" and "lines = accepted ms"
  shows "if \<exists>l\<in>set lines. BUFFER_SIZE \<le> length l then jodie_log_all reliable j ms = Inl OutOfBounds
    else \<exists>j' gs. jodie_log_all reliable j ms = Inr j' \<and> (jd_sent j', unsent j') = pack PACKET_SIZE ([], []) lines \<and>
      jd_sent j' @ [unsent j'] = map concat gs \<and> concat gs = lines \<and>
      (\<forall>d\<in>set (jd_sent j' @ [unsent j']).
        length d \<le> PACKET_SIZE \<or> (\<exists>(now, m)\<in>set ms. d = metric_text now m \<and> long_units m))"
proof -
  have "jodie_state j ([], [])"
    using jodie_init_holds[OF assms(1)] assms(2) by (simp add: jodie_state_def BUFFER_SIZE_def)
  note run = reliable_run[OF this assms(3), folded assms(4)]
  show ?thesis
  proof (cases "\<exists>l\<in>set lines. BUFFER_SIZE \<le> length l")
    case True
    with run show ?thesis by simp
  next
    case False
    with run obtain j' where j': "jodie_log_all reliable j ms = Inr j'" "jodie_state j' (pack PACKET_SIZE ([], []) lines)"
      by auto
    then have st: "(jd_sent j', unsent j') = pack PACKET_SIZE ([], []) lines"
      by (simp add: jodie_state_def) (metis jodie_holds_unsent prod.collapse)
    have "\<forall>d\<in>set (packed (jd_sent j', unsent j')). length d \<le> PACKET_SIZE \<or> d \<in> set lines"
      unfolding st by (intro pack_limit) (simp_all add: packed_def)
    then have size: "length d \<le> PACKET_SIZE \<or> d \<in> set lines" if "d \<in> set (jd_sent j' @ [unsent j'])" for d
      using that by (auto simp: packed_def)
    have "\<forall>d\<in>set (jd_sent j' @ [unsent j']).
        length d \<le> PACKET_SIZE \<or> (\<exists>(now, m)\<in>set ms. d = metric_text now m \<and> long_units m)"
    proof
      fix d assume "d \<in> set (jd_sent j' @ [unsent j'])"
      with size [of d] accepted_long [of d ms]
      show "length d \<le> PACKET_SIZE \<or> (\<exists>(now, m)\<in>set ms. d = metric_text now m \<and> long_units m)"
        by (cases "length d \<le> PACKET_SIZE") (simp_all add: assms(4))
    qed
    moreover have "\<exists>gs'. packed (jd_sent j', unsent j') = map concat gs' \<and> concat gs' = concat [[]] @ lines"
      unfolding st by (rule pack_whole_lines) (simp_all add: packed_def)
    then have "\<exists>gs. jd_sent j' @ [unsent j'] = map concat gs \<and> concat gs = lines" by (simp add: packed_def)
    ultimately show ?thesis using False j'(1) st by auto
  qed
qed

definition long_unit_metric :: "int \<times> metric" where
  "long_unit_metric = (7, Timing (bytes_of ''t'') 1 3 (Some (replicate BUFFER_SIZE 97)))"

theorem metrics_packed_witness:
  "(\<exists>j' gs. jodie_log_all reliable (fresh_jodie\<lparr>jd_port := 41000\<rparr>) sample_metrics = Inr j' \<and>
     jd_sent j' @ [unsent j'] = map concat gs \<and>
     concat gs = [bytes_of ''a.b 7 5 type=gauge'' @ [10], bytes_of ''c 12 3 type=counter'' @ [10]]) \<and>
   jodie_log_all reliable (fresh_jodie\<lparr>jd_port := 41000\<rparr>) [long_unit_metric] = Inl OutOfBounds"
proof
  have "\<not> (\<exists>l\<in>set (accepted sample_metrics). BUFFER_SIZE \<le> length l)"
    by (simp add: sample_metrics_accepted BUFFER_SIZE_def)
  from metrics_packed[OF fresh_jodie_init fresh_jodie_holds(2) sample_metrics_strings refl, unfolded if_not_P[OF this]]
  show "\<exists>j' gs. jodie_log_all reliable (fresh_jodie\<lparr>jd_port := 41000\<rparr>) sample_metrics = Inr j' \<and>
     jd_sent j' @ [unsent j'] = map concat gs \<and>
     concat gs = [bytes_of ''a.b 7 5 type=gauge'' @ [10], bytes_of ''c 12 3 type=counter'' @ [10]]"
    unfolding sample_metrics_accepted by blast
  have "\<forall>x\<in>set [long_unit_metric]. metric_strings (snd x)"
    by (simp add: long_unit_metric_def bytes_of_def set_replicate_conv_if)
  moreover have "\<exists>l\<in>set (accepted [long_unit_metric]). BUFFER_SIZE \<le> length l"
    by (simp add: long_unit_metric_def accepted_def datapath_too_long_def metric_line_def BUFFER_SIZE_def)
  ultimately show "jodie_log_all reliable (fresh_jodie\<lparr>jd_port := 41000\<rparr>) [long_unit_metric] = Inl OutOfBounds"
    using metrics_packed[OF fresh_jodie_init fresh_jodie_holds(2) _ refl] by simp
qed

text \<open>
  C22: while every \<open>sendto\<close> fails, the logging calls keep appending behind the unsent text, since
  they do not look at the result of \<open>jodie_flush\<close>: after \<open>jodie_init\<close> the run writes outside
  \<open>send_buffer\<close>, or beyond \<open>tmp_buf\<close>, exactly when its lines are longer than \<open>BUFFER_SIZE\<close> together or one of
  them has \<open>BUFFER_SIZE\<close> bytes, with its NUL more than \<open>tmp_buf\<close> holds.
\<close>
theorem failing_sends_overflow:
  assumes "jodie_init inet_aton socket host port j0 = (0, j)" and "\<forall>x\<in>set ms. metric_strings (snd x)"
  shows "jodie_log_all unreachable j ms = Inl OutOfBounds \<longleftrightarrow>
    BUFFER_SIZE < length (concat (accepted ms)) \<or> (\<exists>l\<in>set (accepted ms). BUFFER_SIZE \<le> length l)"
  using jodie_log_all_unreachable[OF conjunct1[OF jodie_init_holds[OF assms(1)]] assms(2)]
  by (auto split: if_splits)

theorem failing_sends_overflow_witness:
  "jodie_log_all unreachable (fresh_jodie\<lparr>jd_port := 41000\<rparr>) sample_metrics \<noteq> Inl OutOfBounds \<and>
   jodie_log_all unreachable (fresh_jodie\<lparr>jd_port := 41000\<rparr>) (concat (replicate 60 sample_metrics)) = Inl OutOfBounds"
proof -
  have acc: "length (concat (accepted (concat (replicate n sample_metrics)))) = n * 39" for n
  proof (induction n)
    case (Suc n)
    have "accepted (xs @ ys) = accepted xs @ accepted ys" for xs ys by (simp add: accepted_def)
    with Suc show ?case by (simp add: sample_metrics_accepted)
  qed (simp add: accepted_def)
  have "\<forall>x\<in>set (concat (replicate 60 sample_metrics)). metric_strings (snd x)"
    using sample_metrics_strings by (auto simp: set_replicate_conv_if)
  from failing_sends_overflow[OF fresh_jodie_init this] failing_sends_overflow[OF fresh_jodie_init sample_metrics_strings]
  show ?thesis by (simp add: acc BUFFER_SIZE_def sample_metrics_accepted)
qed

text \<open>
  \<open>jodie_logPercent\<close> reports every \<open>signed long\<close> as the unsigned number with the same bits,
  a negative one as a number near \<open>2 ^ 64\<close> and one above 100 unchanged: the limit of 100 is applied
  to the variable after it has been printed.
\<close>
theorem percent_printed_unlimited:
  assumes "jodie_holds j []" and "0 \<notin> set path" and "length path \<le> 1024"
    and "- (2 ^ 63) \<le> v" and "v < 2 ^ 63" and "t \<noteq> 0"
  shows "\<exists>j'. jodie_logPercent sendto now j path v t = Inr (0, j') \<and>
    unsent j' = path @ 32 # decimal (nat (if v < 0 then v + 2 ^ 64 else v)) @
      32 # print_ulong t @ 32 # bytes_of ''type=percent'' @ [10]"
proof -
  have m: "metric_strings (Percent path v t)" "\<not> datapath_too_long (metric_path (Percent path v t))"
    using assms by (simp_all add: datapath_too_long_def BUFFER_SIZE_def)
  let ?l = "metric_text now (Percent path v t)"
  have len: "length ?l \<le> PACKET_SIZE" using metric_text_length[OF m(2)] by simp
  then have fits: "length ?l < BUFFER_SIZE" by (simp add: BUFFER_SIZE_def PACKET_SIZE_def)
  from len have "\<not> overfull [] ?l" by (simp add: overfull_def)
  moreover from this have "length (appended (sendto (jd_calls j) []) [] ?l) \<le> BUFFER_SIZE"
    by (simp add: appended_def overfull_def BUFFER_SIZE_def PACKET_SIZE_def)
  ultimately obtain j' where "jodie_log sendto now j (Percent path v t) = Inr (0, j')" "jodie_holds j' ?l"
    using metric_append(1)[OF assms(1) m refl refl fits, of sendto] by (auto simp: appended_def)
  moreover have "v mod 2 ^ 64 = (if v < 0 then v + 2 ^ 64 else v)"
  proof (cases "v < 0")
    case True
    have "v mod 2 ^ 64 = (v + 2 ^ 64) mod 2 ^ 64" by simp
    also have "\<dots> = v + 2 ^ 64" using assms(4) True by (intro mod_pos_pos_trivial) auto
    finally show ?thesis using True by simp
  qed (use assms(5) in simp)
  ultimately show ?thesis
    using jodie_holds_unsent[of j' ?l] assms(6) by (simp add: metric_line_def metric_stamp_def print_ulong_def)
qed

theorem percent_printed_unlimited_witness:
  "\<exists>j'. jodie_logPercent reliable 0 fresh_jodie (bytes_of ''cpu'') (-1) 3 = Inr (0, j') \<and>
     unsent j' = bytes_of ''cpu 18446744073709551615 3 type=percent'' @ [10]"
proof -
  have "\<exists>j'. jodie_logPercent reliable 0 fresh_jodie (bytes_of ''cpu'') (-1) 3 = Inr (0, j') \<and>
    unsent j' = bytes_of ''cpu'' @ 32 # decimal (nat (if (-1::int) < 0 then -1 + 2 ^ 64 else -1)) @
      32 # print_ulong 3 @ 32 # bytes_of ''type=percent'' @ [10]"
    by (rule percent_printed_unlimited) (simp_all add: bytes_of_def)
  moreover have "decimal (nat (if (-1::int) < 0 then -1 + 2 ^ 64 else -1)) = bytes_of ''18446744073709551615''"
    by (simp add: decimal.simps bytes_of_def)
  moreover have "print_ulong 3 = bytes_of ''3''" by code_simp
  ultimately show ?thesis by (simp add: bytes_of_def)
qed

subsection \<open>A report of gauges\<close>

text \<open>The two reporting threads log a list of gauges and flush; they use none of the results.\<close>

definition log_gauge ::
    "(nat \<Rightarrow> byte list \<Rightarrow> bool) \<Rightarrow> int \<Rightarrow> int \<Rightarrow> jodie \<Rightarrow> byte list \<times> int \<Rightarrow> jodie res" where
  "log_gauge sendto now timestamp j g =
     and_then (jodie_logGauge sendto now j (fst g) (snd g) timestamp) (\<lambda>(r, j'). Inr j')"

definition flush_gauges :: "(nat \<Rightarrow> byte list \<Rightarrow> bool) \<Rightarrow> jodie \<Rightarrow> jodie res" where
  "flush_gauges sendto j = and_then (jodie_flush sendto j) (\<lambda>(r, j'). Inr j')"

definition gauge_text :: "int \<Rightarrow> int \<Rightarrow> byte list \<times> int \<Rightarrow> byte list" where
  "gauge_text now timestamp g = metric_text now (Gauge (fst g) (snd g) timestamp)"

lemma log_gauges_sink:
  "log_all (log_gauge reliable now t) j gs = log_all sink_log j (map (\<lambda>g. (now, Gauge (fst g) (snd g) t)) gs)"
  by (induction gs arbitrary: j) (simp_all add: log_gauge_def sink_log_def)

text \<open>The paths of a list of gauges are strings that are not refused, and its lines fit in one datagram.\<close>

definition gauges_fit :: "byte list list \<Rightarrow> bool" where
  "gauges_fit paths \<longleftrightarrow> (\<forall>p\<in>set paths. 0 \<notin> set p \<and> length p \<le> 1024) \<and> (\<Sum>p\<leftarrow>paths. length p + 54) \<le> PACKET_SIZE"

lemma gauge_text_length: "length (gauge_text now t g) \<le> length (fst g) + 54"
  using print_ulong_bounds[of "snd g"] print_ulong_bounds[of "metric_stamp now t"]
  by (simp add: gauge_text_def metric_line_def)

lemma gauges_text_length: "length (concat (map (gauge_text now t) gs)) \<le> (\<Sum>p\<leftarrow>map fst gs. length p + 54)"
proof (induction gs)
  case (Cons g gs)
  with gauge_text_length[of now t g] show ?case by simp
qed simp

lemma gauge_report_sends:
  assumes st: "jodie_state j (sent, [])" and fit: "gauges_fit (map fst gs)"
  shows "\<exists>j'. and_then (log_all (log_gauge reliable now t) j gs) (flush_gauges reliable) = Inr j' \<and>
    jodie_state j' (sent @ [concat (map (gauge_text now t) gs)], [])"
proof -
  let ?ms = "map (\<lambda>g. (now, Gauge (fst g) (snd g) t)) gs"
  have path: "0 \<notin> set (fst g)" "length (fst g) \<le> 1024" if "g \<in> set gs" for g
    using fit that by (auto simp: gauges_fit_def)
  have "length (gauge_text now t g) < BUFFER_SIZE" if "g \<in> set gs" for g
    using path(2)[OF that] gauge_text_length[of now t g] by (simp add: BUFFER_SIZE_def)
  then have "\<forall>m\<in>set ?ms. case m of (now, m) \<Rightarrow>
      metric_strings m \<and> \<not> datapath_too_long (metric_path m) \<and> length (metric_text now m) < BUFFER_SIZE"
    using path by (fastforce simp: gauge_text_def datapath_too_long_def BUFFER_SIZE_def)
  from jodie_sink.log_all_packs[OF st this] obtain j1
    where j1: "log_all sink_log j ?ms = Inr j1"
      "jodie_state j1 (pack PACKET_SIZE (sent, []) (map (\<lambda>(now, m). metric_text now m) ?ms))" by blast
  have eq: "map (\<lambda>(now, m). metric_text now m) ?ms = map (gauge_text now t) gs"
    by (simp add: gauge_text_def)
  have "length (concat (map (gauge_text now t) gs)) \<le> PACKET_SIZE"
    using gauges_text_length[of now t gs] fit by (auto simp: gauges_fit_def)
  then have "pack PACKET_SIZE (sent, []) (map (gauge_text now t) gs) = (sent, concat (map (gauge_text now t) gs))"
    using pack_fits[of "[]"] by simp
  with j1(2) eq have "jodie_state j1 (sent, concat (map (gauge_text now t) gs))" by (simp only:)
  from jodie_sink.flush_law[OF this] j1(1) show ?thesis
    by (simp add: log_gauges_sink flush_gauges_def sink_flush_def packed_def)
qed

end
