(* ===== verification/Latency_Handler.thy ===== *)
theory Latency_Handler
  imports Fix_Details Jodie_Client "HOL-Library.Multiset"
begin

text \<open>
  The latency thread, \<^verbatim>\<open>src/latency_handler.c\<close>: it reads the summaries that the capture
  threads wrote to their rings, pairs each request with its response by their key, records the time
  between the two in a histogram and reports the histogram once a second. The hash table
  \<open>latency\<close> is a finite map from key strings to records; the functions of the HdrHistogram library are
  parameters, collected in the record \<open>hdr_api\<close>.
\<close>

subsection \<open>Records and message types\<close>

record latency_record =
  lr_msg_type :: int
  lr_tv_sec :: int
  lr_tv_nsec :: int

type_synonym latency_table = "byte list \<Rightarrow> latency_record option"

definition is_begin :: "int \<Rightarrow> bool" where
  "is_begin type \<longleftrightarrow>
     type = MSG_TYPE_MASS_QUOTE \<or> type = MSG_TYPE_NEW_ORDER_SINGLE \<or> type = MSG_TYPE_TRACE_REQ"

text \<open>An \<open>int64_t\<close> operation; signed overflow is undefined in C.\<close>

definition c_long :: "int \<Rightarrow> int res" where
  "c_long x = (if - (2 ^ 63) \<le> x \<and> x < 2 ^ 63 then Inr x else Inl SignedOverflow)"

definition diff :: "int \<Rightarrow> int \<Rightarrow> int \<Rightarrow> int \<Rightarrow> int res" where
  "diff t0_sec t0_nsec t1_sec t1_nsec =
     and_then (c_long (t1_sec - t0_sec)) (\<lambda>diff_sec.
     and_then (c_long (t1_nsec - t0_nsec)) (\<lambda>diff_nsec.
     and_then (c_long (diff_sec * 1000000000)) (\<lambda>x. c_long (x + diff_nsec))))"

definition is_complement :: "int \<Rightarrow> int \<Rightarrow> bool" where
  "is_complement type_a type_b =
     (if type_a = MSG_TYPE_MASS_QUOTE then type_b = MSG_TYPE_MASS_QUOTE_ACK
      else if type_a = MSG_TYPE_MASS_QUOTE_ACK then type_b = MSG_TYPE_MASS_QUOTE
      else if type_a = MSG_TYPE_NEW_ORDER_SINGLE then type_b = MSG_TYPE_EXECUTION_REPORT
      else if type_a = MSG_TYPE_EXECUTION_REPORT then type_b = MSG_TYPE_NEW_ORDER_SINGLE
      else if type_a = MSG_TYPE_TRACE_REQ then type_b = MSG_TYPE_TRACE_RSP
      else if type_a = MSG_TYPE_TRACE_RSP then type_b = MSG_TYPE_TRACE_REQ
      else False)"

subsection \<open>One message\<close>

text \<open>
  A summary in the ring, \<open>vmars_fix_message_summary_t\<close> of \<^verbatim>\<open>src/fix.h\<close>; \<open>sm_key\<close> points to
  the key behind the four integers.
\<close>

record fix_message_summary =
  sm_tv_sec :: int
  sm_tv_nsec :: int
  sm_msg_type :: int
  sm_key_len :: int
  sm_key :: "byte list"

definition read_summary :: "byte list \<Rightarrow> fix_message_summary res" where
  "read_summary m =
     (if length m < SIZEOF_SUMMARY then Inl OutOfBounds
      else Inr \<lparr>sm_tv_sec = le_signed (take 8 m), sm_tv_nsec = le_signed (take 8 (drop 8 m)),
                sm_msg_type = le_signed (take 4 (drop 16 m)), sm_key_len = le_signed (take 4 (drop 20 m)),
                sm_key = drop SIZEOF_SUMMARY m\<rparr>)"

definition c_string :: "byte list \<Rightarrow> byte list res" where
  "c_string s = and_then (c_strlen s) (\<lambda>n. Inr (take n s))"

text \<open>The copy of the key into the new record, \<open>key_len + 1\<close> bytes, as a string.\<close>

definition copy_key :: "fix_message_summary \<Rightarrow> byte list res" where
  "copy_key msg =
     (if sm_key_len msg < 0 then Inl OutOfBounds
      else and_then (c_strncpy (sm_key msg) (nat (sm_key_len msg))) (\<lambda>bs. c_string (bs @ [0])))"

definition calculate_latency ::
    "('h \<Rightarrow> int \<Rightarrow> 'h) \<Rightarrow> latency_table \<times> 'h \<Rightarrow> fix_message_summary \<Rightarrow> (latency_table \<times> 'h) res" where
  "calculate_latency hdr_record_value st msg =
     (let (latency_table, histogram) = st in
      and_then (c_string (sm_key msg)) (\<lambda>k.
      case latency_table k of
        Some r \<Rightarrow>
          if is_complement (sm_msg_type msg) (lr_msg_type r) then
            and_then
              (if is_begin (sm_msg_type msg)
               then diff (sm_tv_sec msg) (sm_tv_nsec msg) (lr_tv_sec r) (lr_tv_nsec r)
               else diff (lr_tv_sec r) (lr_tv_nsec r) (sm_tv_sec msg) (sm_tv_nsec msg)) (\<lambda>latency_nsec.
            Inr (latency_table(k := None), hdr_record_value histogram latency_nsec))
          else Inr st
      | None \<Rightarrow>
          and_then (copy_key msg) (\<lambda>key.
          Inr (latency_table(key \<mapsto> \<lparr>lr_msg_type = sm_msg_type msg, lr_tv_sec = sm_tv_sec msg,
                                      lr_tv_nsec = sm_tv_nsec msg\<rparr>), histogram))))"

subsection \<open>One turn of the thread\<close>

definition MAX_POLLS :: nat where "MAX_POLLS = 20"

text \<open>\<open>record->data\<close>: the memory from the data of the record to the end of the mapping.\<close>

definition record_data :: "vmars_spsc_rb \<Rightarrow> nat \<Rightarrow> byte list res" where
  "record_data rb a =
     rb_read rb (a + SIZEOF_RECORD) (2 * length (rb_buffer rb) - (a + SIZEOF_RECORD))"

text \<open>The loop over one ring: \<open>poll_limit\<close> is decreased before it is compared with 0.\<close>

fun drain_ring ::
    "('h \<Rightarrow> int \<Rightarrow> 'h) \<Rightarrow> nat \<Rightarrow> vmars_spsc_rb \<Rightarrow> latency_table \<times> 'h \<Rightarrow>
     (vmars_spsc_rb \<times> latency_table \<times> 'h) res" where
  "drain_ring hdr_record_value 0 rb st = Inr (snd (vmars_spsc_rb_poll rb), st)"
| "drain_ring hdr_record_value (Suc poll_limit) rb st =
     (case vmars_spsc_rb_poll rb of
        (None, rb1) \<Rightarrow> Inr (rb1, st)
      | (Some r, rb1) \<Rightarrow>
          if \<not> poll_limit > 0 then Inr (rb1, st)
          else
            and_then (record_data rb1 r) (\<lambda>m.
            and_then (read_summary m) (\<lambda>msg.
            and_then (calculate_latency hdr_record_value st msg) (\<lambda>st1.
            and_then (vmars_spsc_rb_release rb1 r) (\<lambda>(code, rb2).
              drain_ring hdr_record_value poll_limit rb2 st1)))))"

fun drain_rings ::
    "('h \<Rightarrow> int \<Rightarrow> 'h) \<Rightarrow> vmars_spsc_rb list \<Rightarrow> latency_table \<times> 'h \<Rightarrow>
     (vmars_spsc_rb list \<times> latency_table \<times> 'h) res" where
  "drain_rings hdr_record_value [] st = Inr ([], st)"
| "drain_rings hdr_record_value (rb # rbs) st =
     and_then (drain_ring hdr_record_value MAX_POLLS rb st) (\<lambda>(rb', st1).
     and_then (drain_rings hdr_record_value rbs st1) (\<lambda>(rbs', st2). Inr (rb' # rbs', st2)))"

text \<open>The library: percentiles are in hundredths, the mean is the result of its cast.\<close>

record 'h hdr_api =
  hdr_record_value :: "'h \<Rightarrow> int \<Rightarrow> 'h"
  hdr_total_count :: "'h \<Rightarrow> int"
  hdr_mean :: "'h \<Rightarrow> int"
  hdr_max :: "'h \<Rightarrow> int"
  hdr_value_at_percentile :: "'h \<Rightarrow> int \<Rightarrow> int"
  hdr_reset :: "'h \<Rightarrow> 'h"

record 'h latency_thread =
  lt_table :: latency_table
  lt_histogram :: 'h
  lt_completed_requests :: int
  lt_last_sec :: int
  lt_rings :: "vmars_spsc_rb list"
  lt_jodie :: jodie

definition latency_gauges :: "'h hdr_api \<Rightarrow> 'h \<Rightarrow> int \<Rightarrow> (byte list \<times> int) list" where
  "latency_gauges api histogram completed_requests =
     (let mean = (if 0 \<noteq> hdr_total_count api histogram then hdr_mean api histogram else 0) in
      [(bytes_of ''vmars.latency.completedRequests'', completed_requests),
       (bytes_of ''vmars.latency.max'', hdr_max api histogram),
       (bytes_of ''vmars.latency.50'', hdr_value_at_percentile api histogram 5000),
       (bytes_of ''vmars.latency.99'', hdr_value_at_percentile api histogram 9900),
       (bytes_of ''vmars.latency.9999'', hdr_value_at_percentile api histogram 9999),
       (bytes_of ''vmars.latency.mean'', mean)])"

text \<open>The report, when the clock has passed to the next second.\<close>

definition latency_report ::
    "'h hdr_api \<Rightarrow> (nat \<Rightarrow> byte list \<Rightarrow> bool) \<Rightarrow> int \<Rightarrow> int \<Rightarrow> 'h latency_thread \<Rightarrow> 'h latency_thread res" where
  "latency_report api sendto now curr_sec st =
     (if curr_sec > lt_last_sec st then
        and_then (c_long (lt_completed_requests st + hdr_total_count api (lt_histogram st))) (\<lambda>completed_requests.
        and_then (c_long (curr_sec * 1000)) (\<lambda>timestamp_ms.
        and_then (log_all (log_gauge sendto now timestamp_ms) (lt_jodie st)
            (latency_gauges api (lt_histogram st) completed_requests)) (\<lambda>j1.
        and_then (flush_gauges sendto j1) (\<lambda>j2.
        Inr (st\<lparr>lt_completed_requests := completed_requests, lt_jodie := j2, lt_last_sec := curr_sec,
                lt_histogram := hdr_reset api (lt_histogram st)\<rparr>)))))
      else Inr st)"

definition poll_ring_buffers ::
    "'h hdr_api \<Rightarrow> (nat \<Rightarrow> byte list \<Rightarrow> bool) \<Rightarrow> int \<Rightarrow> int \<Rightarrow> 'h latency_thread \<Rightarrow> 'h latency_thread res" where
  "poll_ring_buffers api sendto now curr_sec st =
     and_then (latency_report api sendto now curr_sec st) (\<lambda>st1.
     and_then (drain_rings (hdr_record_value api) (lt_rings st1) (lt_table st1, lt_histogram st1))
       (\<lambda>(rbs, t, h). Inr (st1\<lparr>lt_rings := rbs, lt_table := t, lt_histogram := h\<rparr>)))"

subsection \<open>Specification: matching requests with responses\<close>

type_synonym event = "byte list \<times> latency_record"

definition elapsed :: "latency_record \<Rightarrow> latency_record \<Rightarrow> int" where
  "elapsed a b = (lr_tv_sec b - lr_tv_sec a) * 1000000000 + (lr_tv_nsec b - lr_tv_nsec a)"

text \<open>The latency of two records: from the request to the response.\<close>

definition latency_of :: "latency_record \<Rightarrow> latency_record \<Rightarrow> int" where
  "latency_of a b = (if is_begin (lr_msg_type a) then elapsed a b else elapsed b a)"

definition complements :: "latency_record \<Rightarrow> latency_record \<Rightarrow> bool" where
  "complements a b \<longleftrightarrow> is_complement (lr_msg_type a) (lr_msg_type b)"

definition match_step :: "latency_table \<Rightarrow> event \<Rightarrow> latency_table \<times> int list" where
  "match_step T e =
     (case T (fst e) of
        None \<Rightarrow> (T(fst e \<mapsto> snd e), [])
      | Some r \<Rightarrow> if complements (snd e) r then (T(fst e := None), [latency_of (snd e) r]) else (T, []))"

fun match_all :: "latency_table \<Rightarrow> event list \<Rightarrow> latency_table \<times> int list" where
  "match_all T [] = (T, [])"
| "match_all T (e # es) =
     (let (T1, ls1) = match_step T e; (T2, ls2) = match_all T1 es in (T2, ls1 @ ls2))"

lemma match_all_append:
  "match_all T (es @ fs) = (let (T1, ls1) = match_all T es; (T2, ls2) = match_all T1 fs in (T2, ls1 @ ls2))"
  by (induction es arbitrary: T) (auto simp: split_beta Let_def)

lemma is_complement_sym: "is_complement a b \<longleftrightarrow> is_complement b a"
  by (auto simp: is_complement_def msg_types trace_types)

lemma complement_begin: "is_complement a b \<Longrightarrow> is_begin a \<longleftrightarrow> \<not> is_begin b"
  by (auto simp: is_complement_def is_begin_def msg_types trace_types split: if_splits)

lemma latency_of_sym: "complements a b \<Longrightarrow> latency_of a b = latency_of b a"
  using complement_begin[of "lr_msg_type a" "lr_msg_type b"] by (auto simp: complements_def latency_of_def)

lemma complements_sym: "complements a b \<longleftrightarrow> complements b a"
  by (simp add: complements_def is_complement_sym)

lemma complements_irrefl [simp]: "\<not> complements a a"
  using complement_begin[of "lr_msg_type a" "lr_msg_type a"] by (auto simp: complements_def)

text \<open>Messages with other keys neither see nor change the entry of a key.\<close>

lemma match_all_other_keys:
  "k \<notin> fst ` set es \<Longrightarrow>
     match_all (T(k := v)) es = ((fst (match_all T es))(k := v), snd (match_all T es))"
proof (induction es arbitrary: T)
  case (Cons e es)
  have "match_step (T(k := v)) e = ((fst (match_step T e))(k := v), snd (match_step T e))"
    using Cons.prems by (auto simp: match_step_def fun_upd_twist split: option.split)
  moreover have "match_all (T'(k := v)) es = ((fst (match_all T' es))(k := v), snd (match_all T' es))" for T'
    by (rule Cons.IH) (use Cons.prems in simp)
  ultimately show ?case by (simp only: match_all.simps Let_def split_beta fst_conv snd_conv)
qed simp

lemma match_all_keeps_key: "k \<notin> fst ` set es \<Longrightarrow> fst (match_all T es) k = T k"
  using match_all_other_keys[of k es T "T k"] by (metis fst_conv fun_upd_same fun_upd_triv)

subsection \<open>The code follows the specification\<close>

text \<open>An event as the capture threads write it; its bytes in the ring.\<close>

definition good_record :: "latency_record \<Rightarrow> bool" where
  "good_record r \<longleftrightarrow> 0 \<le> lr_tv_sec r \<and> lr_tv_sec r < 2 ^ 32 \<and> 0 \<le> lr_tv_nsec r \<and> lr_tv_nsec r < 2 ^ 32 \<and>
     - (2 ^ 31) \<le> lr_msg_type r \<and> lr_msg_type r < 2 ^ 31"

definition good_event :: "event \<Rightarrow> bool" where
  "good_event e \<longleftrightarrow> 0 \<notin> set (fst e) \<and> length (fst e) < 2 ^ 31 \<and> good_record (snd e)"

definition good_table :: "latency_table \<Rightarrow> bool" where
  "good_table T \<longleftrightarrow> (\<forall>k r. T k = Some r \<longrightarrow> good_record r)"

definition event_bytes :: "event \<Rightarrow> byte list" where
  "event_bytes e = le_bytes 8 (lr_tv_sec (snd e)) @ le_bytes 8 (lr_tv_nsec (snd e)) @
     le_bytes 4 (lr_msg_type (snd e)) @ le_bytes 4 (int (length (fst e))) @ fst e @ [0]"

lemma event_bytes_summary:
  "event_bytes (key, \<lparr>lr_msg_type = t, lr_tv_sec = uint s, lr_tv_nsec = uint ns\<rparr>) = summary_bytes s ns t key"
  by (simp add: event_bytes_def summary_bytes_def)

lemma good_table_empty [simp]: "good_table Map.empty"
  by (simp add: good_table_def)

lemma good_table_step: "good_table T \<Longrightarrow> good_event e \<Longrightarrow> good_table (fst (match_step T e))"
  by (auto simp: good_table_def good_event_def match_step_def split: option.split if_splits)

lemma c_long_in: "- 9223372036854775808 \<le> x \<Longrightarrow> x < 9223372036854775808 \<Longrightarrow> c_long x = Inr x"
  by (simp add: c_long_def)

lemma diff_elapsed:
  assumes "good_record a" and "good_record b"
  shows "diff (lr_tv_sec a) (lr_tv_nsec a) (lr_tv_sec b) (lr_tv_nsec b) = Inr (elapsed a b)"
proof -
  define x where "x = lr_tv_sec b - lr_tv_sec a"
  define y where "y = lr_tv_nsec b - lr_tv_nsec a"
  have "x < 4294967296" "- 4294967296 < x" "y < 4294967296" "- 4294967296 < y"
    using assms by (auto simp: good_record_def x_def y_def)
  then have "c_long x = Inr x" "c_long y = Inr y" "c_long (x * 1000000000) = Inr (x * 1000000000)"
    "c_long (x * 1000000000 + y) = Inr (x * 1000000000 + y)"
    by (simp_all add: c_long_in)
  then show ?thesis by (simp add: diff_def elapsed_def flip: x_def y_def)
qed

lemma read_summary_event:
  assumes "good_event e" and "prefix (event_bytes e) m"
  obtains z where "read_summary m = Inr \<lparr>sm_tv_sec = lr_tv_sec (snd e), sm_tv_nsec = lr_tv_nsec (snd e),
    sm_msg_type = lr_msg_type (snd e), sm_key_len = int (length (fst e)), sm_key = fst e @ 0 # z\<rparr>"
proof -
  obtain z where m: "m = event_bytes e @ z" using assms(2) by (auto simp: prefix_def)
  have "le_signed (le_bytes 8 (lr_tv_sec (snd e))) = lr_tv_sec (snd e)"
    "le_signed (le_bytes 8 (lr_tv_nsec (snd e))) = lr_tv_nsec (snd e)"
    "le_signed (le_bytes 4 (lr_msg_type (snd e))) = lr_msg_type (snd e)"
    "le_signed (le_bytes 4 (int (length (fst e)))) = int (length (fst e))"
    using assms(1) by (auto simp: good_event_def good_record_def intro!: le_signed_bytes)
  then show ?thesis using that by (simp add: m read_summary_def event_bytes_def SIZEOF_SUMMARY_def)
qed

lemma calculate_latency_event:
  assumes e: "good_event e" and T: "good_table T"
  shows "calculate_latency hdr (T, h) \<lparr>sm_tv_sec = lr_tv_sec (snd e), sm_tv_nsec = lr_tv_nsec (snd e),
      sm_msg_type = lr_msg_type (snd e), sm_key_len = int (length (fst e)), sm_key = fst e @ 0 # z\<rparr> =
    Inr (fst (match_step T e), foldl hdr h (snd (match_step T e)))"
proof -
  have key: "c_string (fst e @ 0 # z) = Inr (fst e)" "c_string (fst e @ [0]) = Inr (fst e)"
    "c_strncpy (fst e @ 0 # z) (length (fst e)) = Inr (fst e)"
    using e by (simp_all add: good_event_def c_string_def c_strlen_append c_strncpy_take)
  show ?thesis
  proof (cases "T (fst e)")
    case None
    obtain k t sc ns where "e = (k, \<lparr>lr_msg_type = t, lr_tv_sec = sc, lr_tv_nsec = ns\<rparr>)"
      by (metis latency_record.cases surj_pair)
    with None key show ?thesis by (simp add: calculate_latency_def match_step_def copy_key_def)
  next
    case (Some r)
    have "good_record r" "good_record (snd e)" using e T Some by (auto simp: good_table_def good_event_def)
    with Some key show ?thesis
      by (simp add: calculate_latency_def match_step_def diff_elapsed latency_of_def complements_def)
  qed
qed

text \<open>One record of the ring, from the poll to the release.\<close>

lemma record_data_prefix:
  assumes "rb_holds n rb (r # rs) q" and "a = unat (head_position rb) mod 2 ^ n"
  obtains m where "record_data rb a = Inr m" "prefix r m"
proof -
  let ?L = "2 * length (rb_buffer rb)"
  from consumer_reads(2)[OF assms] have len: "a + SIZEOF_RECORD + length r \<le> ?L"
    and r: "ring_load (rb_buffer rb) (a + SIZEOF_RECORD) (length r) = r"
    by (auto simp: rb_read_def split: if_splits)
  let ?m = "ring_load (rb_buffer rb) (a + SIZEOF_RECORD) (length r + (?L - (a + SIZEOF_RECORD + length r)))"
  have "length r + (?L - (a + SIZEOF_RECORD + length r)) = ?L - (a + SIZEOF_RECORD)"
    and "a + SIZEOF_RECORD + (?L - (a + SIZEOF_RECORD)) \<le> ?L" using len by simp_all
  then have "record_data rb a = Inr ?m" by (simp add: record_data_def rb_read_def)
  moreover have "prefix r ?m" unfolding ring_load_append r by simp
  ultimately show ?thesis by (rule that)
qed

lemma drain_ring_events:
  assumes "rb_holds n rb (map event_bytes es) q" and "\<forall>e\<in>set es. good_event e" and "good_table T"
  shows "\<exists>rb'. drain_ring hdr (Suc k) rb (T, h) =
      Inr (rb', fst (match_all T (take k es)), foldl hdr h (snd (match_all T (take k es)))) \<and>
    rb_holds n rb' (map event_bytes (drop k es)) q \<and> good_table (fst (match_all T (take k es)))"
  using assms
proof (induction k arbitrary: rb es T h)
  case 0
  from poll_ok[OF "0.prems"(1)] "0.prems" show ?case by (cases es) auto
next
  case (Suc k)
  show ?case
  proof (cases es)
    case Nil
    with poll_ok[OF Suc.prems(1)] Suc.prems show ?thesis by auto
  next
    case (Cons e fs)
    let ?a = "unat (head_position rb) mod 2 ^ n"
    have e: "good_event e" using Suc.prems(2) Cons by simp
    obtain rb1 where p: "vmars_spsc_rb_poll rb = (Some ?a, rb1)" "rb_holds n rb1 (event_bytes e # map event_bytes fs) q"
      "rb_polled rb1" and same: "rb1 = rb\<lparr>tail_cache_position := tail_cache_position rb1\<rparr>"
      using poll_ok[OF Suc.prems(1)] Cons by auto
    have p4: "head_position rb1 = head_position rb" using arg_cong[OF same, of head_position] by simp
    have a: "?a = unat (head_position rb1) mod 2 ^ n" using p4 by simp
    obtain m where m: "record_data rb1 ?a = Inr m" "prefix (event_bytes e) m"
      using record_data_prefix[OF p(2) a] .
    obtain z where z: "read_summary m = Inr \<lparr>sm_tv_sec = lr_tv_sec (snd e), sm_tv_nsec = lr_tv_nsec (snd e),
        sm_msg_type = lr_msg_type (snd e), sm_key_len = int (length (fst e)), sm_key = fst e @ 0 # z\<rparr>"
      using read_summary_event[OF e m(2)] .
    obtain rb2 where rel: "vmars_spsc_rb_release rb1 ?a = Inr (0, rb2)" "rb_holds n rb2 (map event_bytes fs) q"
      using release_ok[OF p(2,3) a] by blast
    have "\<exists>rb'. drain_ring hdr (Suc k) rb2 (fst (match_step T e), foldl hdr h (snd (match_step T e))) =
        Inr (rb', fst (match_all (fst (match_step T e)) (take k fs)),
          foldl hdr (foldl hdr h (snd (match_step T e))) (snd (match_all (fst (match_step T e)) (take k fs)))) \<and>
      rb_holds n rb' (map event_bytes (drop k fs)) q \<and> good_table (fst (match_all (fst (match_step T e)) (take k fs)))"
      using Suc.IH[OF rel(2) _ good_table_step[OF Suc.prems(3) e]] Suc.prems(2) Cons by auto
    moreover have "drain_ring hdr (Suc (Suc k)) rb (T, h) =
        drain_ring hdr (Suc k) rb2 (fst (match_step T e), foldl hdr h (snd (match_step T e)))"
      by (subst drain_ring.simps(2))
         (simp only: p(1) m(1) z rel(1) calculate_latency_event[OF e Suc.prems(3)] prod.case option.case
           and_then_Inr zero_less_Suc not_True_eq_False if_False)
    ultimately show ?thesis by (simp add: Cons split_beta Let_def del: drain_ring.simps)
  qed
qed

subsection \<open>Any order of arrival\<close>

lemma match_pair:
  assumes "fst e = fst e'" and "complements (snd e) (snd e')" and "T (fst e) = None" and "fst e \<notin> fst ` set xs"
  shows "match_all T (e # xs @ [e']) =
    (fst (match_all T xs), snd (match_all T xs) @ [latency_of (snd e) (snd e')])"
proof -
  have s: "match_step T e = (T(fst e \<mapsto> snd e), [])" using assms(3) by (simp add: match_step_def)
  have "fst (match_all T xs) (fst e) = None" using match_all_keeps_key[OF assms(4)] assms(3) by simp
  then have "match_step ((fst (match_all T xs))(fst e \<mapsto> snd e)) e' =
      (fst (match_all T xs), [latency_of (snd e) (snd e')])"
    using assms(1,2) complements_sym latency_of_sym[of "snd e" "snd e'"]
    by (auto simp: match_step_def fun_upd_idem)
  then show ?thesis
    by (simp only: match_all.simps match_all_append s match_all_other_keys[OF assms(4)] Let_def split_beta
        fst_conv snd_conv append_Nil append_Nil2)
qed

definition pair_events :: "(event \<times> event) list \<Rightarrow> event list" where
  "pair_events ps = concat (map (\<lambda>(a, b). [a, b]) ps)"

text \<open>Requests with their responses, each pair under a key of its own.\<close>

definition paired :: "(event \<times> event) list \<Rightarrow> bool" where
  "paired ps \<longleftrightarrow> distinct (map (\<lambda>p. fst (fst p)) ps) \<and>
     (\<forall>(a, b)\<in>set ps. fst a = fst b \<and> complements (snd a) (snd b))"

lemma paired_keys: "paired ps \<Longrightarrow> fst ` set (pair_events ps) = (\<lambda>p. fst (fst p)) ` set ps"
  by (force simp: paired_def pair_events_def)

lemma mset_pair_split:
  assumes "mset (e # rest) = mset (pair_events ps)" and "paired ps"
  obtains e' xs ys ps' where "rest = xs @ e' # ys" "fst e = fst e'" "complements (snd e) (snd e')"
    "mset (xs @ ys) = mset (pair_events ps')" "paired ps'" "fst e \<notin> fst ` set (xs @ ys)"
    "mset (map (\<lambda>(a, b). latency_of (snd a) (snd b)) ps) =
       add_mset (latency_of (snd e) (snd e')) (mset (map (\<lambda>(a, b). latency_of (snd a) (snd b)) ps'))"
    "length ps' < length ps"
proof -
  have "e \<in> set (pair_events ps)" using assms(1) by (metis list.set_intros(1) mset_eq_setD)
  then obtain a b where ab: "(a, b) \<in> set ps" "e = a \<or> e = b" by (auto simp: pair_events_def)
  then obtain ps1 ps2 where ps: "ps = ps1 @ (a, b) # ps2" by (meson split_list)
  define e' where "e' = (if e = a then b else a)"
  let ?ps = "ps1 @ ps2"
  have c: "fst a = fst b" "complements (snd a) (snd b)" using assms(2) ab(1) by (auto simp: paired_def)
  have p': "paired ?ps" using assms(2) by (auto simp: paired_def ps)
  have ee: "{#e, e'#} = {#a, b#}" using ab(2) by (auto simp: e'_def)
  have m: "mset rest = add_mset e' (mset (pair_events ?ps))"
  proof -
    have "add_mset e (mset rest) = {#a, b#} + mset (pair_events ?ps)"
      using assms(1) by (simp add: ps pair_events_def ac_simps)
    also have "\<dots> = add_mset e (add_mset e' (mset (pair_events ?ps)))" unfolding ee[symmetric] by simp
    finally show ?thesis by simp
  qed
  then have "e' \<in> set rest" by (metis set_mset_mset union_single_eq_member)
  then obtain xs ys where rest: "rest = xs @ e' # ys" by (meson split_list)
  have xy: "mset (xs @ ys) = mset (pair_events ?ps)" using m by (simp add: rest)
  have "fst e \<notin> fst ` set (pair_events ?ps)"
  proof -
    have "distinct (map (\<lambda>p. fst (fst p)) ps)" using assms(2) by (simp add: paired_def)
    then have "fst a \<notin> (\<lambda>p. fst (fst p)) ` set ?ps" by (simp add: ps image_Un)
    moreover have "fst e = fst a" using ab(2) c(1) by auto
    ultimately show ?thesis using paired_keys[OF p'] by (simp only: not_False_eq_True)
  qed
  then have k: "fst e \<notin> fst ` set (xs @ ys)" using mset_eq_setD[OF xy] by simp
  have l: "latency_of (snd e) (snd e') = latency_of (snd a) (snd b)"
    using ab(2) latency_of_sym[OF c(2)] by (auto simp: e'_def)
  have f: "fst e = fst e'" and cc: "complements (snd e) (snd e')"
    using c ab(2) complements_sym[of "snd b" "snd a"] by (auto simp: e'_def)
  have "mset (map (\<lambda>(a, b). latency_of (snd a) (snd b)) ps) =
      add_mset (latency_of (snd e) (snd e')) (mset (map (\<lambda>(a, b). latency_of (snd a) (snd b)) ?ps))"
    by (simp add: ps l)
  from that[OF rest f cc xy p' k this] show ?thesis by (simp add: ps)
qed

lemma match_all_pairs:
  "mset es = mset (pair_events ps) \<Longrightarrow> paired ps \<Longrightarrow>
     fst (match_all Map.empty es) = Map.empty \<and>
     mset (snd (match_all Map.empty es)) = mset (map (\<lambda>(a, b). latency_of (snd a) (snd b)) ps)"
proof (induction "length ps" arbitrary: es ps rule: less_induct)
  case less
  show ?case
  proof (cases es)
    case Nil
    with less.prems(1) have "ps = []" by (cases ps) (auto simp: pair_events_def)
    with Nil show ?thesis by simp
  next
    case (Cons e rest)
    obtain e' xs ys ps' where s: "rest = xs @ e' # ys" "fst e = fst e'" "complements (snd e) (snd e')"
      "mset (xs @ ys) = mset (pair_events ps')" "paired ps'" "fst e \<notin> fst ` set (xs @ ys)"
      "mset (map (\<lambda>(a, b). latency_of (snd a) (snd b)) ps) =
        add_mset (latency_of (snd e) (snd e')) (mset (map (\<lambda>(a, b). latency_of (snd a) (snd b)) ps'))"
      "length ps' < length ps" by (rule mset_pair_split[OF less.prems(1)[unfolded Cons] less.prems(2)])
    have "es = (e # xs @ [e']) @ ys" by (simp add: Cons s(1))
    moreover have "match_all Map.empty (e # xs @ [e']) =
        (fst (match_all Map.empty xs), snd (match_all Map.empty xs) @ [latency_of (snd e) (snd e')])"
      using s(6) by (intro match_pair[OF s(2,3)]) auto
    ultimately show ?thesis using less.hyps[OF s(8,4,5)] s(7)
      by (simp only: match_all_append Let_def split_beta fst_conv snd_conv) simp
  qed
qed

subsection \<open>Turns without new records\<close>

fun drain_turns ::
    "('h \<Rightarrow> int \<Rightarrow> 'h) \<Rightarrow> nat \<Rightarrow> vmars_spsc_rb \<Rightarrow> latency_table \<times> 'h \<Rightarrow>
     (vmars_spsc_rb \<times> latency_table \<times> 'h) res" where
  "drain_turns hdr 0 rb st = Inr (rb, st)"
| "drain_turns hdr (Suc m) rb st = and_then (drain_ring hdr MAX_POLLS rb st) (\<lambda>(rb', st'). drain_turns hdr m rb' st')"

lemma drain_max:
  assumes "rb_holds n rb (map event_bytes es) q" and "\<forall>e\<in>set es. good_event e" and "good_table T"
  shows "\<exists>rb'. drain_ring hdr MAX_POLLS rb (T, h) =
      Inr (rb', fst (match_all T (take 19 es)), foldl hdr h (snd (match_all T (take 19 es)))) \<and>
    rb_holds n rb' (map event_bytes (drop 19 es)) q \<and> good_table (fst (match_all T (take 19 es)))"
proof -
  have "MAX_POLLS = Suc 19" by (simp add: MAX_POLLS_def)
  then show ?thesis using drain_ring_events[OF assms, of hdr 19 h] by simp
qed

lemma drain_turns_events:
  "rb_holds n rb (map event_bytes es) q \<Longrightarrow> \<forall>e\<in>set es. good_event e \<Longrightarrow> good_table T \<Longrightarrow> length es \<le> m * 19 \<Longrightarrow>
     \<exists>rb'. drain_turns hdr m rb (T, h) = Inr (rb', fst (match_all T es), foldl hdr h (snd (match_all T es))) \<and>
       rb_holds n rb' [] q"
proof (induction m arbitrary: rb es T h)
  case (Suc m)
  let ?T = "fst (match_all T (take 19 es))" and ?h = "foldl hdr h (snd (match_all T (take 19 es)))"
  obtain rb1 where d: "drain_ring hdr MAX_POLLS rb (T, h) = Inr (rb1, ?T, ?h)"
    "rb_holds n rb1 (map event_bytes (drop 19 es)) q" "good_table ?T"
    using drain_max[OF Suc.prems(1-3), of hdr h] by blast
  have g: "\<forall>e\<in>set (drop 19 es). good_event e" using Suc.prems(2) by (auto dest: in_set_dropD)
  have "length (drop 19 es) \<le> m * 19" using Suc.prems(4) by simp
  from Suc.IH[OF d(2) g d(3) this, of ?h] obtain rb' where
    "drain_turns hdr m rb1 (?T, ?h) =
       Inr (rb', fst (match_all ?T (drop 19 es)), foldl hdr ?h (snd (match_all ?T (drop 19 es))))"
    "rb_holds n rb' [] q" by blast
  moreover have "match_all T es = (fst (match_all ?T (drop 19 es)),
      snd (match_all T (take 19 es)) @ snd (match_all ?T (drop 19 es)))"
    using match_all_append[of T "take 19 es" "drop 19 es"] by (simp add: split_beta Let_def)
  ultimately show ?case using d(1)
    by (simp only: drain_turns.simps and_then_Inr prod.case fst_conv snd_conv foldl_append) blast
qed simp

subsection \<open>The state of the thread\<close>

text \<open>
  \<open>latency_ok st ess\<close>: the client's buffer is empty, the table holds records of messages, and the
  rings hold the summaries of the events \<open>ess\<close>.
\<close>

definition ring_events :: "vmars_spsc_rb \<Rightarrow> event list \<Rightarrow> bool" where
  "ring_events rb es \<longleftrightarrow> (\<exists>n. rb_holds n rb (map event_bytes es) 0) \<and> (\<forall>e\<in>set es. good_event e)"

definition latency_ok :: "'h latency_thread \<Rightarrow> event list list \<Rightarrow> bool" where
  "latency_ok st ess \<longleftrightarrow> jodie_state (lt_jodie st) (jd_sent (lt_jodie st), []) \<and> good_table (lt_table st) \<and>
     list_all2 ring_events (lt_rings st) ess"

lemma drain_rings_events:
  "list_all2 ring_events rbs ess \<Longrightarrow> good_table T \<Longrightarrow>
     \<exists>rbs'. drain_rings hdr rbs (T, h) =
       Inr (rbs', fst (match_all T (concat (map (take 19) ess))),
            foldl hdr h (snd (match_all T (concat (map (take 19) ess))))) \<and>
     list_all2 ring_events rbs' (map (drop 19) ess) \<and> good_table (fst (match_all T (concat (map (take 19) ess))))"
proof (induction rbs ess arbitrary: T h rule: list_all2_induct)
  case (Cons rb rbs es ess)
  let ?T = "fst (match_all T (take 19 es))" and ?h = "foldl hdr h (snd (match_all T (take 19 es)))"
  from Cons.hyps(1) obtain n where r: "rb_holds n rb (map event_bytes es) 0" "\<forall>e\<in>set es. good_event e"
    by (auto simp: ring_events_def)
  obtain rb' where d: "drain_ring hdr MAX_POLLS rb (T, h) = Inr (rb', ?T, ?h)"
    "rb_holds n rb' (map event_bytes (drop 19 es)) 0" "good_table ?T"
    using drain_max[OF r Cons.prems, of hdr h] by blast
  have rb': "ring_events rb' (drop 19 es)" using d(2) r(2) by (auto simp: ring_events_def dest: in_set_dropD)
  obtain rbs' where i: "drain_rings hdr rbs (?T, ?h) =
      Inr (rbs', fst (match_all ?T (concat (map (take 19) ess))),
        foldl hdr ?h (snd (match_all ?T (concat (map (take 19) ess)))))"
    "list_all2 ring_events rbs' (map (drop 19) ess)" "good_table (fst (match_all ?T (concat (map (take 19) ess))))"
    using Cons.IH[OF d(3), of ?h] by blast
  have m: "match_all T (concat (map (take 19) (es # ess))) =
      (fst (match_all ?T (concat (map (take 19) ess))),
       snd (match_all T (take 19 es)) @ snd (match_all ?T (concat (map (take 19) ess))))"
    by (simp add: match_all_append split_beta Let_def)
  show ?case using d(1) i rb' unfolding m fst_conv snd_conv
    by (intro exI[of _ "rb' # rbs'"]) simp
qed simp

lemma latency_gauges_fit: "gauges_fit (map fst (latency_gauges api h c))"
proof -
  have "map fst (latency_gauges api h c) = map bytes_of
    [''vmars.latency.completedRequests'', ''vmars.latency.max'', ''vmars.latency.50'', ''vmars.latency.99'',
     ''vmars.latency.9999'', ''vmars.latency.mean'']"
    by (simp add: latency_gauges_def Let_def)
  moreover have "gauges_fit \<dots>" by code_simp
  ultimately show ?thesis by simp
qed

lemma latency_report_sends:
  assumes ok: "latency_ok st ess" and due: "lt_last_sec st < curr_sec"
    and completed: "completed = lt_completed_requests st + hdr_total_count api (lt_histogram st)"
    and range: "- (2 ^ 63) \<le> completed" "completed < 2 ^ 63" "- (2 ^ 63) \<le> curr_sec * 1000" "curr_sec * 1000 < 2 ^ 63"
  shows "\<exists>j'. latency_report api reliable now curr_sec st =
      Inr (st\<lparr>lt_completed_requests := completed, lt_jodie := j', lt_last_sec := curr_sec,
              lt_histogram := hdr_reset api (lt_histogram st)\<rparr>) \<and>
    jodie_state j' (jd_sent (lt_jodie st) @
      [concat (map (gauge_text now (curr_sec * 1000)) (latency_gauges api (lt_histogram st) completed))], [])"
proof -
  have j: "jodie_state (lt_jodie st) (jd_sent (lt_jodie st), [])" using ok by (simp add: latency_ok_def)
  have "c_long completed = Inr completed" "c_long (curr_sec * 1000) = Inr (curr_sec * 1000)"
    using range by (simp_all add: c_long_in)
  with gauge_report_sends[OF j latency_gauges_fit, of now "curr_sec * 1000" api "lt_histogram st" completed] due
  show ?thesis by (auto simp: latency_report_def and_then_eq_Inr simp flip: completed)
qed

subsection \<open>Samples\<close>

lemma ring_of_records: "recs_size rs \<le> 2 ^ n \<Longrightarrow> n \<le> 30 \<Longrightarrow> \<exists>rb. rb_holds n rb rs 0"
proof (induction rs rule: rev_induct)
  case Nil
  then show ?case using init_ok[of n] by blast
next
  case (snoc r rs)
  then obtain rb where rb: "rb_holds n rb rs 0" by (auto simp: recs_size_def)
  have room: "rb_room n rs r" using snoc.prems(1) by (simp add: rb_room_def)
  have "rec_size r \<le> 2 ^ n" using snoc.prems(1) by simp
  then have "length r \<le> 2 ^ 30" using pow_30[OF snoc.prems(2)] by (simp add: rec_size_def)
  then have "length r < 2 ^ 64" by simp
  from rb_offer_ok[OF rb this] room show ?case by auto
qed

text \<open>A request and its response, \<open>2\<close> seconds and \<open>5\<close> nanoseconds later.\<close>

definition sample_request :: event where
  "sample_request = (bytes_of ''A|B|X1|Y'', \<lparr>lr_msg_type = MSG_TYPE_NEW_ORDER_SINGLE, lr_tv_sec = 10, lr_tv_nsec = 20\<rparr>)"

definition sample_response :: event where
  "sample_response = (bytes_of ''A|B|X1|Y'', \<lparr>lr_msg_type = MSG_TYPE_EXECUTION_REPORT, lr_tv_sec = 12, lr_tv_nsec = 25\<rparr>)"

lemma sample_events:
  "good_event sample_request" "good_event sample_response" "paired [(sample_request, sample_response)]"
  "latency_of (snd sample_request) (snd sample_response) = 2000000005"
  by (simp_all add: good_event_def good_record_def sample_request_def sample_response_def bytes_of_def msg_types
      trace_types paired_def complements_def is_complement_def latency_of_def is_begin_def elapsed_def)

lemma sample_event_ring: "\<exists>rb. rb_holds 10 rb (map event_bytes [sample_response, sample_request]) 0"
proof (rule ring_of_records)
  show "recs_size (map event_bytes [sample_response, sample_request]) \<le> 2 ^ 10"
    by (simp add: recs_size_def rec_size_def SIZEOF_RECORD_def event_bytes_def sample_request_def sample_response_def)
qed simp

definition list_api :: "int list hdr_api" where
  "list_api = \<lparr>hdr_record_value = (\<lambda>h x. h @ [x]), hdr_total_count = (\<lambda>h. int (length h)),
     hdr_mean = (\<lambda>h. sum_list h div int (length h)), hdr_max = (\<lambda>h. fold max h 0),
     hdr_value_at_percentile = (\<lambda>h p. fold max h 0), hdr_reset = (\<lambda>h. [])\<rparr>"

subsection \<open>Properties\<close>

text \<open>
  C27: a turn of the latency thread, with its invariant \<open>latency_ok\<close> and a \<open>sendto\<close> that succeeds,
  does not fault and keeps the invariant. Of each ring it takes the first 19 records, in the order of the
  rings, and the table and the histogram are those of the specification \<open>match_all\<close>. When the clock
  has moved on by a second it has before that sent one datagram with the six gauges of the histogram and
  cleared the histogram; otherwise it sends nothing.
\<close>
theorem latency_turn:
  assumes ok: "latency_ok st ess" and es: "es = concat (map (take 19) ess)"
    and due: "due \<longleftrightarrow> lt_last_sec st < curr_sec"
    and completed: "completed = lt_completed_requests st + hdr_total_count api (lt_histogram st)"
    and range: "- (2 ^ 63) \<le> completed" "completed < 2 ^ 63" "- (2 ^ 63) \<le> curr_sec * 1000" "curr_sec * 1000 < 2 ^ 63"
  shows "\<exists>st'. poll_ring_buffers api reliable now curr_sec st = Inr st' \<and> latency_ok st' (map (drop 19) ess) \<and>
    lt_table st' = fst (match_all (lt_table st) es) \<and>
    lt_histogram st' = foldl (hdr_record_value api)
      (if due then hdr_reset api (lt_histogram st) else lt_histogram st) (snd (match_all (lt_table st) es)) \<and>
    lt_completed_requests st' = (if due then completed else lt_completed_requests st) \<and>
    jd_sent (lt_jodie st') = jd_sent (lt_jodie st) @ (if due
      then [concat (map (gauge_text now (curr_sec * 1000)) (latency_gauges api (lt_histogram st) completed))] else [])"
proof -
  have r: "list_all2 ring_events (lt_rings st) ess" "good_table (lt_table st)" using ok by (simp_all add: latency_ok_def)
  have drained: "\<exists>rbs'. drain_rings (hdr_record_value api) (lt_rings st) (lt_table st, h) =
      Inr (rbs', fst (match_all (lt_table st) es), foldl (hdr_record_value api) h (snd (match_all (lt_table st) es))) \<and>
    list_all2 ring_events rbs' (map (drop 19) ess) \<and> good_table (fst (match_all (lt_table st) es))" for h
    unfolding es by (rule drain_rings_events[OF r])
  show ?thesis
  proof (cases due)
    case True
    obtain j' where j': "latency_report api reliable now curr_sec st =
        Inr (st\<lparr>lt_completed_requests := completed, lt_jodie := j', lt_last_sec := curr_sec,
                lt_histogram := hdr_reset api (lt_histogram st)\<rparr>)"
      "jodie_state j' (jd_sent (lt_jodie st) @
        [concat (map (gauge_text now (curr_sec * 1000)) (latency_gauges api (lt_histogram st) completed))], [])"
      using latency_report_sends[OF ok _ completed range] True due by blast
    have sent: "jd_sent j' = jd_sent (lt_jodie st) @
        [concat (map (gauge_text now (curr_sec * 1000)) (latency_gauges api (lt_histogram st) completed))]"
      using j'(2) by (simp add: jodie_state_def)
    obtain rbs' where d: "drain_rings (hdr_record_value api) (lt_rings st) (lt_table st, hdr_reset api (lt_histogram st)) =
      Inr (rbs', fst (match_all (lt_table st) es),
        foldl (hdr_record_value api) (hdr_reset api (lt_histogram st)) (snd (match_all (lt_table st) es)))"
      "list_all2 ring_events rbs' (map (drop 19) ess)" "good_table (fst (match_all (lt_table st) es))"
      using drained by blast
    show ?thesis using j' d True
      by (simp add: poll_ring_buffers_def latency_ok_def sent)
  next
    case False
    then have "latency_report api reliable now curr_sec st = Inr st" using due by (simp add: latency_report_def)
    moreover obtain rbs' where d: "drain_rings (hdr_record_value api) (lt_rings st) (lt_table st, lt_histogram st) =
      Inr (rbs', fst (match_all (lt_table st) es),
        foldl (hdr_record_value api) (lt_histogram st) (snd (match_all (lt_table st) es)))"
      "list_all2 ring_events rbs' (map (drop 19) ess)" "good_table (fst (match_all (lt_table st) es))"
      using drained by blast
    ultimately show ?thesis using False ok by (simp add: poll_ring_buffers_def latency_ok_def)
  qed
qed

theorem latency_turn_witness:
  "\<exists>st st'. lt_histogram st = [7 :: int] \<and> poll_ring_buffers list_api reliable 0 5 st = Inr st' \<and>
     lt_table st' = Map.empty \<and> lt_histogram st' = [2000000005] \<and> lt_completed_requests st' = 1"
proof -
  obtain rb where rb: "rb_holds 10 rb (map event_bytes [sample_response, sample_request]) 0"
    using sample_event_ring by blast
  define st where "st = \<lparr>lt_table = Map.empty, lt_histogram = [7::int], lt_completed_requests = 0, lt_last_sec = 4,
    lt_rings = [rb], lt_jodie = fresh_jodie\<rparr>"
  let ?es = "[sample_response, sample_request]"
  have "ring_events rb ?es" using rb sample_events by (auto simp: ring_events_def)
  then have ok: "latency_ok st [?es]" by (simp add: latency_ok_def st_def jodie_state_def BUFFER_SIZE_def)
  have m: "match_all Map.empty ?es = (Map.empty, [2000000005])"
    by (simp add: match_step_def sample_request_def sample_response_def complements_def is_complement_def msg_types
        latency_of_def is_begin_def elapsed_def trace_types)
  have es: "?es = concat (map (take 19) [?es])" by simp
  from latency_turn[OF ok es refl refl, where curr_sec = 5 and api = list_api and now = 0] obtain st' where
    "poll_ring_buffers list_api reliable 0 5 st = Inr st'" "lt_table st' = Map.empty"
    "lt_histogram st' = [2000000005]" "lt_completed_requests st' = 1"
    by (auto simp: st_def m list_api_def simp del: match_all.simps)
  moreover have "lt_histogram st = [7]" by (simp add: st_def)
  ultimately show ?thesis by blast
qed

text \<open>
  In whatever order the messages reach the latency thread, requests before or after their responses
  and interleaved with other pairs, it records for each pair exactly the time from the request to the
  response, and no pair leaves an entry in the table. The pairs have distinct keys, and at most 19
  messages wait in the ring.
\<close>
theorem latency_any_order:
  assumes "rb_holds n rb (map event_bytes es) q" and "\<forall>e\<in>set es. good_event e" and "length es < MAX_POLLS"
    and "mset es = mset (pair_events ps)" and "paired ps"
  shows "\<exists>rb' ls. drain_ring (\<lambda>h x. h @ [x]) MAX_POLLS rb (Map.empty, []) = Inr (rb', Map.empty, ls) \<and>
    rb_holds n rb' [] q \<and> mset ls = mset (map (\<lambda>(a, b). latency_of (snd a) (snd b)) ps)"
proof -
  have "take 19 es = es" "drop 19 es = []" using assms(3) by (simp_all add: MAX_POLLS_def)
  moreover have "foldl (\<lambda>h x. h @ [x]) hs ls = hs @ ls" for hs ls :: "int list"
    by (induction ls arbitrary: hs) simp_all
  ultimately show ?thesis
    using drain_max[OF assms(1,2) good_table_empty, of "\<lambda>h x. h @ [x]" "[]"] match_all_pairs[OF assms(4,5)] by auto
qed

theorem latency_any_order_witness:
  "\<exists>rb rb'. rb_holds 10 rb (map event_bytes [sample_response, sample_request]) 0 \<and>
     drain_ring (\<lambda>h x. h @ [x]) MAX_POLLS rb (Map.empty, []) = Inr (rb', Map.empty, [2000000005 :: int]) \<and>
     rb_holds 10 rb' [] 0"
proof -
  obtain rb where rb: "rb_holds 10 rb (map event_bytes [sample_response, sample_request]) 0"
    using sample_event_ring by blast
  have "mset [sample_response, sample_request] = mset (pair_events [(sample_request, sample_response)])"
    by (simp add: pair_events_def)
  from latency_any_order[OF rb _ _ this sample_events(3)] sample_events rb show ?thesis
    by (auto simp: MAX_POLLS_def)
qed

text \<open>
  C29: a ring of any number of records is drained: while nothing is added, \<open>m\<close> turns empty a ring of up to
  \<open>19 * m\<close> records, and have handled every message in its order.
\<close>
theorem ring_drained:
  assumes "rb_holds n rb (map event_bytes es) q" and "\<forall>e\<in>set es. good_event e" and "good_table T"
    and "length es \<le> m * 19"
  shows "\<exists>rb'. drain_turns hdr m rb (T, h) = Inr (rb', fst (match_all T es), foldl hdr h (snd (match_all T es))) \<and>
    vmars_spsc_rb_poll rb' = (None, rb')"
proof -
  from drain_turns_events[OF assms, of hdr h] obtain rb' where
    "drain_turns hdr m rb (T, h) = Inr (rb', fst (match_all T es), foldl hdr h (snd (match_all T es)))"
    "rb_holds n rb' [] q" by blast
  with poll_ok[OF this(2)] show ?thesis by auto
qed

theorem ring_drained_witness:
  "\<exists>rb rb'. rb_holds 10 rb (map event_bytes [sample_response, sample_request]) 0 \<and>
     drain_turns (\<lambda>h x. h @ [x]) 1 rb (Map.empty, []) =
       Inr (rb', fst (match_all Map.empty [sample_response, sample_request]),
         foldl (\<lambda>h x. h @ [x]) [] (snd (match_all Map.empty [sample_response, sample_request]))) \<and>
     vmars_spsc_rb_poll rb' = (None, rb')"
proof -
  obtain rb where rb: "rb_holds 10 rb (map event_bytes [sample_response, sample_request]) 0"
    using sample_event_ring by blast
  have g: "\<forall>e\<in>set [sample_response, sample_request]. good_event e" using sample_events by simp
  from ring_drained[OF rb g good_table_empty, of 1 "\<lambda>h x. h @ [x]" "[]"] rb show ?thesis by auto
qed

end
