(* ===== verification/Latency_Path.thy ===== *)
theory Latency_Path
  imports Fix_Properties Latency_Handler
begin

text \<open>
  From the packet to the latency: the extractor of a capture thread (\<^verbatim>\<open>src/fix.c\<close>), the ring
  (\<^verbatim>\<open>src/spsc_rb.c\<close>) and the latency thread (\<^verbatim>\<open>src/latency_handler.c\<close>) composed.
\<close>

subsection \<open>Captured messages\<close>

text \<open>A packet that holds one message: its stream, its time and the message.\<close>

record capture =
  cap_saddr :: "32 word"
  cap_sport :: "16 word"
  cap_daddr :: "32 word"
  cap_dport :: "16 word"
  cap_sec :: "32 word"
  cap_nsec :: "32 word"
  cap_message :: fix_message

definition cap_stream :: "capture \<Rightarrow> ipv4_stream" where
  "cap_stream c = sid_of (cap_saddr c) (cap_sport c) (cap_daddr c) (cap_dport c)"

fun run_captures :: "capture list \<Rightarrow> vmars_capture_context \<Rightarrow> vmars_capture_context res" where
  "run_captures [] ctx = Inr ctx"
| "run_captures (c # cs) ctx =
     and_then (vmars_extract_fix_messages ctx (cap_saddr c) (cap_sport c) (cap_daddr c) (cap_dport c)
       (cap_sec c) (cap_nsec c) (msg_bytes (cap_message c)) (length (msg_bytes (cap_message c)))) (run_captures cs)"

text \<open>The event of a captured message, from its fields and its packet's time.\<close>

definition capture_event :: "capture \<Rightarrow> event" where
  "capture_event c = (let fs = snd (snd (cap_message c)) in
     (key_of_fields fs, \<lparr>lr_msg_type = type_of_fields fs, lr_tv_sec = uint (cap_sec c), lr_tv_nsec = uint (cap_nsec c)\<rparr>))"

definition measured :: "fix_message \<Rightarrow> bool" where
  "measured m \<longleftrightarrow> good_message m \<and> (\<exists>d. message_details m = Inr d \<and> fst (latency_ids d))"

lemma last_value_no_nul:
  "0 \<notin> set (fields_bytes fs) \<Longrightarrow> 0 \<notin> set b \<Longrightarrow> 0 \<notin> set (last_value T fs b)"
proof (induction fs arbitrary: b)
  case (Cons f fs)
  then show ?case by (cases f) (auto simp: field_bytes_def)
qed simp

lemma key_no_nul:
  assumes "good_message (h, ld, fs)"
  shows "0 \<notin> set (key_of_fields fs)"
proof -
  have "0 \<notin> set (fields_bytes fs)" using assms by (simp add: message_bytes_def)
  then have v: "0 \<notin> set (last_value T fs [])" for T using last_value_no_nul by simp
  show ?thesis using v
    by (auto simp: key_of_fields_def latency_key_def sender_of_def target_of_def instruction_of_def
        instrument_of_def Let_def BAR_def)
qed

lemma measured_type:
  assumes "measured (h, ld, fs)"
  shows "- (2 ^ 31) \<le> type_of_fields fs \<and> type_of_fields fs < 2 ^ 31"
proof -
  obtain d where d: "good_message (h, ld, fs)" "message_details (h, ld, fs) = Inr d" "fst (latency_ids d)"
    using assms by (auto simp: measured_def)
  have "message_type d = type_of_fields fs" by (rule details_of_message(1)[OF d(1,2)])
  with d(3) show ?thesis by (auto simp: latency_ids_def msg_types trace_types split: if_splits)
qed

lemma capture_event_good:
  assumes "measured (cap_message c)"
  shows "good_event (capture_event c)"
proof -
  obtain h ld fs where m: "cap_message c = (h, ld, fs)" by (cases "cap_message c")
  have u: "uint (w :: 32 word) < 4294967296" for w using uint_lt2p[of w] by simp
  have "good_message (h, ld, fs)" using assms m by (simp add: measured_def)
  with key_no_nul key_length[of h ld fs] measured_type[of h ld fs] assms u show ?thesis
    by (simp add: good_event_def good_record_def capture_event_def m del: good_message.simps)
qed

lemma run_captures_publishes:
  "rb_holds n (ctx_rb ctx) (map event_bytes es) 0 \<Longrightarrow> ctx_matcher ctx = fix_matcher \<Longrightarrow>
     \<forall>c\<in>set cs. measured (cap_message c) \<and> get_fragment ctx (cap_stream c) = None \<Longrightarrow>
     recs_size (map event_bytes (es @ map capture_event cs)) \<le> 2 ^ n \<Longrightarrow>
     \<exists>ctx'. run_captures cs ctx = Inr ctx' \<and> rb_holds n (ctx_rb ctx') (map event_bytes (es @ map capture_event cs)) 0"
proof (induction cs arbitrary: ctx es)
  case (Cons c cs)
  obtain h ld fs where m: "cap_message c = (h, ld, fs)" by (cases "cap_message c")
  have c: "measured (h, ld, fs)" "get_fragment ctx (cap_stream c) = None" using Cons.prems(3) m by auto
  then obtain d where d: "good_message (h, ld, fs)" "message_details (h, ld, fs) = Inr d" "fst (latency_ids d)"
    by (auto simp: measured_def)
  have p: "event_bytes (capture_event c) = summary_bytes (cap_sec c) (cap_nsec c) (type_of_fields fs) (key_of_fields fs)"
    by (simp add: capture_event_def m event_bytes_summary)
  obtain ctx1 where x: "vmars_extract_fix_messages ctx (cap_saddr c) (cap_sport c) (cap_daddr c) (cap_dport c)
      (cap_sec c) (cap_nsec c) (msg_bytes (h, ld, fs)) (length (msg_bytes (h, ld, fs))) = Inr ctx1"
    "rb_holds n (ctx_rb ctx1) (if rb_room n (map event_bytes es) (event_bytes (capture_event c))
       then map event_bytes es @ [event_bytes (capture_event c)] else map event_bytes es) 0"
    "ctx_matcher ctx1 = fix_matcher" "ctx_state ctx1 = ctx_state ctx"
  proof -
    from deliver_publishes[OF Cons.prems(1) d p] obtain rb' where
      r: "deliver (cap_sec c) (cap_nsec c) (h, ld, fs) ctx = Inr ((count_valid ctx)
        \<lparr>ctx_counters := record_message_type_counter (ctx_counters (count_valid ctx)) (type_of_fields fs), ctx_rb := rb'\<rparr>)"
      "rb_holds n rb' (if rb_room n (map event_bytes es) (event_bytes (capture_event c))
       then map event_bytes es @ [event_bytes (capture_event c)] else map event_bytes es) 0" by blast
    from that extract_single[OF d(1) Cons.prems(2), of "cap_saddr c" "cap_sport c" "cap_daddr c" "cap_dport c"
        "cap_sec c" "cap_nsec c"] r c(2) deliver_frame[OF r(1)] Cons.prems(2)
    show ?thesis unfolding cap_stream_def by (simp del: good_message.simps)
  qed
  have room: "rb_room n (map event_bytes es) (event_bytes (capture_event c))"
    using Cons.prems(4) by (simp add: rb_room_def)
  have h1: "rb_holds n (ctx_rb ctx1) (map event_bytes (es @ [capture_event c])) 0" using x(2) room by simp
  have fr: "\<forall>c\<in>set cs. measured (cap_message c) \<and> get_fragment ctx1 (cap_stream c) = None"
    using Cons.prems(3) x(4) by (auto simp: get_fragment_def)
  have sz: "recs_size (map event_bytes ((es @ [capture_event c]) @ map capture_event cs)) \<le> 2 ^ n"
    using Cons.prems(4) by simp
  from Cons.IH[OF h1 x(3) fr sz] show ?case using x(1) by (simp add: m)
qed auto

subsection \<open>Property\<close>

text \<open>
  Requests and responses that a capture thread sees, each whole in a packet, on any streams and in any
  order, come out of the latency thread as exactly one latency per pair: the time between the packets
  of the request and of the response. The summaries fit in the ring together, at most 19 are waiting, and
  the pairs have distinct keys.
\<close>
theorem packets_to_latencies:
  assumes "rb_holds n (ctx_rb ctx) [] 0" and "ctx_matcher ctx = fix_matcher"
    and "\<forall>c\<in>set cs. measured (cap_message c) \<and> get_fragment ctx (cap_stream c) = None"
    and "recs_size (map event_bytes (map capture_event cs)) \<le> 2 ^ n" and "length cs < MAX_POLLS"
    and "mset (map capture_event cs) = mset (pair_events ps)" and "paired ps"
  shows "\<exists>ctx' rb' ls. run_captures cs ctx = Inr ctx' \<and>
    drain_ring (\<lambda>h x. h @ [x]) MAX_POLLS (ctx_rb ctx') (Map.empty, []) = Inr (rb', Map.empty, ls) \<and>
    vmars_spsc_rb_poll rb' = (None, rb') \<and>
    mset ls = mset (map (\<lambda>(a, b). latency_of (snd a) (snd b)) ps)"
proof -
  let ?es = "map capture_event cs"
  obtain ctx' where c: "run_captures cs ctx = Inr ctx'" "rb_holds n (ctx_rb ctx') (map event_bytes ?es) 0"
    using run_captures_publishes[of n ctx "[]" cs] assms(1-4) by auto
  have g: "\<forall>e\<in>set ?es. good_event e" using assms(3) capture_event_good by auto
  have "take 19 ?es = ?es" "drop 19 ?es = []" using assms(5) by (simp_all add: MAX_POLLS_def)
  then obtain rb' where d: "drain_ring (\<lambda>h x. h @ [x]) MAX_POLLS (ctx_rb ctx') (Map.empty, []) =
      Inr (rb', fst (match_all Map.empty ?es), foldl (\<lambda>h x. h @ [x]) [] (snd (match_all Map.empty ?es)))"
    "rb_holds n rb' [] 0"
    using drain_max[OF c(2) g good_table_empty, of "\<lambda>h x. h @ [x]" "[]"] by auto
  have "foldl (\<lambda>h x. h @ [x]) hs ls = hs @ ls" for hs ls :: "int list" by (induction ls arbitrary: hs) simp_all
  with match_all_pairs[OF assms(6,7)] d poll_ok[OF d(2)] c(1) show ?thesis by auto
qed

text \<open>A report that accepts the sample order, and the capture of both, the report first.\<close>

definition sample_report :: "field list" where
  "sample_report = [([51, 53], [56]), ([52, 57], [66, 66]), ([53, 54], [65]), ([49, 49], [88, 49]),
     ([49, 53, 48], [48]), ([53, 53], [89])]"

lemma report_message_good: "good_message (sample_message sample_report)"
proof (rule sample_message_good)
  show "sample_report \<noteq> []" "\<forall>f\<in>set sample_report. wf_field f" "length (fields_bytes sample_report) < 2 ^ 31"
    by (auto simp: sample_report_def wf_field_def is_digit_def SOH_def)
qed code_simp+

definition sample_captures :: "capture list" where
  "sample_captures =
     [\<lparr>cap_saddr = 3, cap_sport = 4, cap_daddr = 1, cap_dport = 2, cap_sec = 12, cap_nsec = 25,
       cap_message = sample_message sample_report\<rparr>,
      \<lparr>cap_saddr = 1, cap_sport = 2, cap_daddr = 3, cap_dport = 4, cap_sec = 10, cap_nsec = 20,
       cap_message = order_message\<rparr>]"

lemma sample_captures_measured: "\<forall>c\<in>set sample_captures. measured (cap_message c)"
proof -
  have "map_sum id (\<lambda>d. fst (latency_ids d)) (message_details (sample_message sample_report)) = Inr True" by code_simp
  then have "\<exists>d. message_details (sample_message sample_report) = Inr d \<and> fst (latency_ids d)"
    by (cases "message_details (sample_message sample_report)") auto
  with order_details show ?thesis
    by (simp add: sample_captures_def measured_def order_message_good report_message_good del: good_message.simps)
qed

lemma sample_captures_events:
  "map capture_event sample_captures =
     [(bytes_of ''A|BB|X1|Y'', \<lparr>lr_msg_type = 56, lr_tv_sec = 12, lr_tv_nsec = 25\<rparr>),
      (bytes_of ''A|BB|X1|Y'', \<lparr>lr_msg_type = 68, lr_tv_sec = 10, lr_tv_nsec = 20\<rparr>)]"
  by code_simp

theorem packets_to_latencies_witness:
  "\<exists>ctx' rb'. run_captures sample_captures sample_ctx = Inr ctx' \<and>
     drain_ring (\<lambda>h x. h @ [x]) MAX_POLLS (ctx_rb ctx') (Map.empty, []) = Inr (rb', Map.empty, [2000000005 :: int])"
proof -
  let ?rsp = "(bytes_of ''A|BB|X1|Y'', \<lparr>lr_msg_type = 56, lr_tv_sec = 12, lr_tv_nsec = 25\<rparr>)"
  let ?req = "(bytes_of ''A|BB|X1|Y'', \<lparr>lr_msg_type = 68, lr_tv_sec = 10, lr_tv_nsec = 20\<rparr>)"
  have pair: "paired [(?req, ?rsp)]" "latency_of (snd ?req) (snd ?rsp) = 2000000005"
    by (simp_all add: paired_def complements_def is_complement_def msg_types trace_types latency_of_def
        is_begin_def elapsed_def)
  have m: "mset (map capture_event sample_captures) = mset (pair_events [(?req, ?rsp)])"
    by (simp add: sample_captures_events pair_events_def)
  have s: "recs_size (map event_bytes (map capture_event sample_captures)) \<le> 2 ^ 12"
    by (simp add: sample_captures_events recs_size_def rec_size_def SIZEOF_RECORD_def event_bytes_def)
  have "\<forall>c\<in>set sample_captures. measured (cap_message c) \<and> get_fragment sample_ctx (cap_stream c) = None"
    using sample_captures_measured by simp
  from packets_to_latencies[OF sample_ctx_ring _ this s _ m pair(1)] pair(2) show ?thesis
    by (auto simp: MAX_POLLS_def sample_captures_def)
qed

end
