(* ===== verification/Packet_Streams.thy ===== *)
theory Packet_Streams
  imports Packet More_Memory Latency_Path
begin

text \<open>
  From the blocks of captured frames to the latencies: the capture thread (\<^verbatim>\<open>src/packet.c\<close>), the extractor
  (\<^verbatim>\<open>src/fix.c\<close>), the ring (\<^verbatim>\<open>src/spsc_rb.c\<close>) and the latency thread (\<^verbatim>\<open>src/latency_handler.c\<close>) composed,
  for any number of TCP streams that are cut into segments and interleaved on the wire.
\<close>

subsection \<open>Counting a block and handling a message commute\<close>

definition count_blocks :: "nat \<Rightarrow> vmars_capture_context \<Rightarrow> vmars_capture_context" where
  "count_blocks k ctx =
     ctx\<lparr>ctx_counters := (ctx_counters ctx)\<lparr>bytes_total := bytes_total (ctx_counters ctx) + of_nat k\<rparr>\<rparr>"

lemma count_blocks_simps [simp]:
  "ctx_port (count_blocks k ctx) = ctx_port ctx" "ctx_matcher (count_blocks k ctx) = ctx_matcher ctx"
  "ctx_rb (count_blocks k ctx) = ctx_rb ctx" "ctx_state (count_blocks k ctx) = ctx_state ctx"
  by (simp_all add: count_blocks_def)

lemma count_blocks_0 [simp]: "count_blocks 0 ctx = ctx"
  by (simp add: count_blocks_def)

lemma count_block_blocks: "count_block (count_blocks k ctx) = count_blocks (Suc k) ctx"
  by (simp add: count_block_def count_blocks_def algebra_simps)

lemma record_message_type_bytes:
  "record_message_type_counter (c\<lparr>bytes_total := b\<rparr>) t = (record_message_type_counter c t)\<lparr>bytes_total := b\<rparr>"
  "bytes_total (record_message_type_counter c t) = bytes_total c"
  by (simp_all add: record_message_type_counter_def Let_def)

lemma process_count:
  "process_for_latency_measurement (count_blocks k ctx) s ns d =
     and_then (process_for_latency_measurement ctx s ns d) (\<lambda>c. Inr (count_blocks k c))"
proof -
  obtain b r l i where ids: "latency_ids d = (b, r, l, i)" by (metis prod_cases4)
  show ?thesis
  proof (cases b)
    case True
    then show ?thesis
      unfolding process_for_latency_measurement_def ids Let_def split_conv count_blocks_def
      by (simp add: record_message_type_bytes, intro and_then_pull)
        (auto intro!: and_then_pull split: option.splits simp: record_message_type_bytes)
  qed (simp add: process_for_latency_measurement_def ids)
qed

lemma deliver_count:
  "deliver s ns m (count_blocks k ctx) = and_then (deliver s ns m ctx) (\<lambda>c. Inr (count_blocks k c))"
proof -
  have "count_valid (count_blocks k ctx) = count_blocks k (count_valid ctx)"
    by (simp add: count_valid_def count_blocks_def)
  then show ?thesis by (cases "message_details m") (simp_all add: deliver_def process_count)
qed

lemma deliver_all_count:
  "deliver_all s ns ms (count_blocks k ctx) = and_then (deliver_all s ns ms ctx) (\<lambda>c. Inr (count_blocks k c))"
  by (induction ms arbitrary: ctx) (simp_all add: deliver_count and_then_assoc)

lemma deliver_stream_count:
  "deliver_stream out (count_blocks k ctx) = and_then (deliver_stream out ctx) (\<lambda>c. Inr (count_blocks k c))"
proof (induction out arbitrary: ctx)
  case (Cons x out)
  obtain s ns ms where "x = (s, ns, ms)" by (cases x)
  with Cons.IH show ?case by (simp add: deliver_all_count and_then_assoc)
qed simp

lemma deliver_stream_append:
  "deliver_stream (xs @ ys) ctx = and_then (deliver_stream xs ctx) (deliver_stream ys)"
proof (induction xs arbitrary: ctx)
  case (Cons x xs)
  obtain s ns ms where "x = (s, ns, ms)" by (cases x)
  moreover have "deliver_stream (xs @ ys) = (\<lambda>c. and_then (deliver_stream xs c) (deliver_stream ys))"
    using Cons.IH by (intro ext)
  ultimately show ?case by (simp add: and_then_assoc)
qed simp

lemma deliver_stream_port:
  "deliver_stream out ctx = Inr ctx' \<Longrightarrow> ctx_port ctx' = ctx_port ctx \<and> ctx_matcher ctx' = ctx_matcher ctx"
proof (induction out arbitrary: ctx)
  case (Cons x out)
  obtain s ns ms where x: "x = (s, ns, ms)" by (cases x)
  have all: "deliver_all s ns ms ctx = Inr c \<Longrightarrow> ctx_port c = ctx_port ctx" for c
    by (induction ms arbitrary: ctx)
      (force simp: and_then_eq_Inr deliver_def count_valid_def dest!: process_port)+
  from Cons.prems obtain c where "deliver_all s ns ms ctx = Inr c" "deliver_stream out c = Inr ctx'"
    by (auto simp: x and_then_eq_Inr)
  with all[of c] Cons.IH[of c] deliver_all_frame[of s ns ms ctx c] show ?case by simp
qed simp


subsection \<open>The streams that frames carry\<close>

text \<open>
  \<open>carried port Q fs out Q'\<close>: \<open>Q\<close> gives for each stream the start of a message that has been
  received so far. The frames \<open>fs\<close> carry the rest and further messages, the segments of the streams in any
  interleaving and among other traffic; \<open>out\<close> lists, segment by segment, the messages that end in it, and \<open>Q'\<close>
  is what is left at the end. One cut is excluded, that of C16, on which the code loses a message: a segment that
  completes a pending message, ends in no other one, and has fewer than eight bytes of the next.
\<close>

definition frame_stream :: "frame \<Rightarrow> ipv4_stream" where
  "frame_stream f = sid_of (fr_saddr f) (word_of_int (ntohs (fr_sport f))) (fr_daddr f)
     (word_of_int (ntohs (fr_dport f)))"

inductive carried :: "int \<Rightarrow> (ipv4_stream \<Rightarrow> byte list) \<Rightarrow> captured list \<Rightarrow> fix_message list stamped list \<Rightarrow>
    (ipv4_stream \<Rightarrow> byte list) \<Rightarrow> bool" for port where
  carried_end: "carried port Q [] [] Q"
| carried_raw: "carried port Q fs out Q' \<Longrightarrow> carried port Q (Raw_Frame r # fs) out Q'"
| carried_other: "\<not> (for_port port f \<and> fr_payload f \<noteq> []) \<Longrightarrow> carried port Q fs out Q' \<Longrightarrow>
     carried port Q (Tcp_Frame f # fs) out Q'"
| carried_segment: "for_port port f \<Longrightarrow> fr_payload f \<noteq> [] \<Longrightarrow> sid = frame_stream f \<Longrightarrow> q = Q sid \<Longrightarrow>
     \<forall>m\<in>set ms. good_message m \<Longrightarrow> unfinished q' \<Longrightarrow> q @ fr_payload f = msgs_bytes ms @ q' \<Longrightarrow>
     q = [] \<or> q' = [] \<or> 8 \<le> length q' \<or> length ms \<noteq> 1 \<Longrightarrow>
     carried port (Q(sid := q')) fs out Q' \<Longrightarrow>
     carried port Q (Tcp_Frame f # fs) ((fr_sec f, fr_nsec f, ms) # out) Q'"

inductive_cases carried_ConsE: "carried port Q (c # fs) out Q'"
inductive_simps carried_Nil [simp]: "carried port Q [] out Q'"

lemma carried_append:
  "carried port Q (fs @ gs) out Q' \<Longrightarrow>
     \<exists>xs ys P. out = xs @ ys \<and> carried port Q fs xs P \<and> carried port P gs ys Q'"
proof (induction fs arbitrary: Q out)
  case Nil
  then show ?case by (intro exI [of _ "[]"] exI [of _ out] exI [of _ Q]) simp
next
  case (Cons c fs)
  from Cons.prems have "carried port Q (c # (fs @ gs)) out Q'" by simp
  then show ?case
  proof (rule carried_ConsE)
    fix r assume "c = Raw_Frame r" and rest: "carried port Q (fs @ gs) out Q'"
    with Cons.IH [OF rest] show ?thesis by (blast intro: carried_raw)
  next
    fix f assume c: "c = Tcp_Frame f" and other: "for_port port f \<longrightarrow> fr_payload f = []" and rest: "carried port Q (fs @ gs) out Q'"
    from other have "\<not> (for_port port f \<and> fr_payload f \<noteq> [])" by simp
    with c Cons.IH [OF rest] show ?thesis by (blast intro: carried_other)
  next
    fix f ms q' out'
    let ?sid = "frame_stream f"
    assume c: "c = Tcp_Frame f" and out: "out = (fr_sec f, fr_nsec f, ms) # out'"
      and rest: "carried port (Q(?sid := q')) (fs @ gs) out' Q'"
      and port: "for_port port f" "fr_payload f \<noteq> []"
      and hyps: "\<forall>m\<in>set ms. good_message m" "unfinished q'" "Q ?sid @ fr_payload f = msgs_bytes ms @ q'"
        "Q ?sid = [] \<or> q' = [] \<or> 8 \<le> length q' \<or> length ms \<noteq> Suc 0"
    from Cons.IH [OF rest] obtain xs ys P
      where "out' = xs @ ys" "carried port (Q(?sid := q')) fs xs P" "carried port P gs ys Q'" by blast
    with carried_segment [where Q = Q and sid = "?sid" and q = "Q ?sid", OF port refl refl hyps(1-3)] hyps(4) out c
    show ?thesis by (metis One_nat_def append_Cons)
  qed
qed

text \<open>The streams whose pending bytes a table of fragments keeps.\<close>

definition keeps :: "vmars_capture_context \<Rightarrow> (ipv4_stream \<Rightarrow> byte list) \<Rightarrow> bool" where
  "keeps ctx Q \<longleftrightarrow> (\<forall>sid. unfinished (Q sid) \<and> pending (ctx_state ctx) sid (Q sid))"

lemma keeps_update:
  assumes "keeps ctx Q" and "unfinished q'" and "pending st sid q'" and "same_others (ctx_state ctx) st sid"
  shows "keeps (x\<lparr>ctx_state := st\<rparr>) (Q(sid := q'))"
  using assms by (auto simp: keeps_def same_others_def pending_def)

lemma payload_small: "frame_ok f \<Longrightarrow> length_ok f \<Longrightarrow> length (fr_payload f) < 65536"
  by (auto simp: frame_ok_def length_ok_def)

lemma frames_deliver:
  assumes "carried port Q fs out Q'" and "port = ctx_port ctx" and "ctx_matcher ctx = fix_matcher" and "keeps ctx Q"
    and "\<forall>c\<in>set fs. captured_shape c \<and> captured_ok port c" and "length ds = length fs"
    and "\<forall>i<length fs. prefix (captured_payload (fs ! i)) (ds ! i)" and "deliver_stream out ctx = Inr x"
  shows "\<exists>st. extract_frames (zip fs ds) ctx = Inr (x\<lparr>ctx_state := st\<rparr>) \<and> keeps (x\<lparr>ctx_state := st\<rparr>) Q'"
  using assms
proof (induction arbitrary: ctx ds x)
  case (carried_end Q)
  then show ?case by (intro exI [of _ "ctx_state ctx"]) simp
next
  case (carried_raw Q fs out Q' r)
  then obtain d ds' where ds: "ds = d # ds'" "length ds' = length fs" by (cases ds) auto
  have "\<forall>i<length fs. prefix (captured_payload (fs ! i)) (ds' ! i)"
    using carried_raw.prems(6) ds by (metis Suc_less_eq length_Cons nth_Cons_Suc)
  from carried_raw.IH [OF carried_raw.prems(1-3) _ ds(2) this carried_raw.prems(7)] carried_raw.prems(4)
  show ?case by (auto simp: ds(1))
next
  case (carried_other f Q fs out Q')
  then obtain d ds' where ds: "ds = d # ds'" "length ds' = length fs" by (cases ds) auto
  have "\<forall>i<length fs. prefix (captured_payload (fs ! i)) (ds' ! i)"
    using carried_other.prems(6) ds by (metis Suc_less_eq length_Cons nth_Cons_Suc)
  from carried_other.IH [OF carried_other.prems(1-3) _ ds(2) this carried_other.prems(7)]
    carried_other.prems(1,4) carried_other.hyps(1)
  show ?case by (auto simp: ds(1))
next
  case (carried_segment f sid q Q ms q' fs out Q')
  then obtain d ds' where ds: "ds = d # ds'" "length ds' = length fs" by (cases ds) auto
  have ds': "\<forall>i<length fs. prefix (captured_payload (fs ! i)) (ds' ! i)"
    using carried_segment.prems(6) ds by (metis Suc_less_eq length_Cons nth_Cons_Suc)
  have "prefix (captured_payload ((Tcp_Frame f # fs) ! 0)) (ds ! 0)" using carried_segment.prems(6) by blast
  then obtain r where d: "d = fr_payload f @ r" using ds(1) by (auto simp: prefix_def)
  let ?run = "\<lambda>b. vmars_extract_fix_messages ctx (fr_saddr f) (word_of_int (ntohs (fr_sport f)))
    (fr_daddr f) (word_of_int (ntohs (fr_dport f))) (fr_sec f) (fr_nsec f) b (length (fr_payload f))"
  obtain c where c: "deliver_all (fr_sec f) (fr_nsec f) ms ctx = Inr c" "deliver_stream out c = Inr x"
    using carried_segment.prems(7) by (auto simp: and_then_eq_Inr)
  have "unfinished q" "pending (ctx_state ctx) (frame_stream f) q"
    using carried_segment.prems(3) carried_segment.hyps(3,4) by (auto simp: keeps_def)
  moreover have "length (fr_payload f) < 65536" using carried_segment.prems(4) by (simp add: payload_small)
  ultimately obtain st where "?run (fr_payload f) =
        and_then (deliver_all (fr_sec f) (fr_nsec f) ms ctx) (\<lambda>x. Inr (x\<lparr>ctx_state := st\<rparr>))"
      and pend: "pending st (frame_stream f) q'" "same_others (ctx_state ctx) st (frame_stream f)"
    using extract_packet [OF carried_segment.hyps(5) _ carried_segment.hyps(6,7,2) _ carried_segment.hyps(8)
      carried_segment.prems(2)] unfolding frame_stream_def by metis
  then have st: "?run (fr_payload f) = Inr (c\<lparr>ctx_state := st\<rparr>)" using c(1) by simp
  have e: "?run d = Inr (c\<lparr>ctx_state := st\<rparr>)" unfolding d by (rule extract_extends [OF st])
  have fr: "ctx_port c = ctx_port ctx" "ctx_matcher c = fix_matcher"
    using deliver_stream_port [of "[(fr_sec f, fr_nsec f, ms)]" ctx c] c(1) carried_segment.prems(2) by auto
  have k: "keeps (c\<lparr>ctx_state := st\<rparr>) (Q(sid := q'))"
    using keeps_update [OF carried_segment.prems(3) carried_segment.hyps(6)] pend carried_segment.hyps(3) by simp
  have "deliver_stream out (c\<lparr>ctx_state := st\<rparr>) = Inr (x\<lparr>ctx_state := st\<rparr>)" by (simp add: deliver_stream_state c(2))
  from carried_segment.IH [OF _ _ k _ ds(2) ds' this] fr carried_segment.prems(1,4)
  obtain st' where "extract_frames (zip fs ds') (c\<lparr>ctx_state := st\<rparr>) = Inr (x\<lparr>ctx_state := st'\<rparr>)"
      "keeps (x\<lparr>ctx_state := st'\<rparr>) Q'" by auto
  with e carried_segment.hyps(1,2) carried_segment.prems(1) show ?case by (auto simp: ds(1))
qed


subsection \<open>Blocks of frames\<close>

text \<open>A sequence of blocks and the frames they hold, in order, for a thread that captures on \<open>port\<close>.\<close>

inductive blocks_hold :: "int \<Rightarrow> byte list list \<Rightarrow> captured list \<Rightarrow> bool" for port where
  no_block: "blocks_hold port [] []"
| one_block: "block_holds b first fs \<Longrightarrow> \<forall>c\<in>set fs. captured_ok port c \<Longrightarrow> blocks_hold port bs gs \<Longrightarrow>
     blocks_hold port (b # bs) (fs @ gs)"

lemma frames_at_ok: "frames_at blk off fs \<Longrightarrow> \<forall>c\<in>set fs. captured_shape c"
  by (induction fs arbitrary: off) auto

lemma walk_block_deliver:
  assumes "block_holds b first fs" and "\<forall>c\<in>set fs. captured_ok (ctx_port ctx) c"
    and "carried (ctx_port ctx) Q fs out Q'" and "ctx_matcher ctx = fix_matcher" and "keeps ctx Q"
    and "deliver_stream out ctx = Inr x"
  shows "\<exists>st. walk_block ctx b = Inr (count_block (x\<lparr>ctx_state := st\<rparr>)) \<and> keeps (x\<lparr>ctx_state := st\<rparr>) Q'"
proof -
  have "frames_at b first fs" using assms(1) by (simp add: block_holds_def)
  with frames_at_ok assms(2) have ok: "\<forall>c\<in>set fs. captured_shape c \<and> captured_ok (ctx_port ctx) c" by blast
  have passed: "\<forall>c\<in>set fs. raw_passed (ctx_port ctx) c" using assms(2) captured_ok_passed by blast
  obtain ds where ds: "length ds = length fs" "\<forall>i<length fs. prefix (captured_payload (fs ! i)) (ds ! i)"
      "handle_frames b first fs = extract_frames (zip fs ds)"
    using handle_frames_extract [OF \<open>frames_at b first fs\<close> assms(2)] by blast
  from frames_deliver [OF assms(3) refl assms(4,5) ok ds(1,2) assms(6)] show ?thesis
    by (auto simp: walk_block_frames [OF assms(1) passed] ds(3))
qed

lemma keeps_count [simp]: "keeps (count_blocks k ctx) Q = keeps ctx Q" "keeps (count_block ctx) Q = keeps ctx Q"
  by (simp_all add: keeps_def count_block_def)

lemma walk_blocks_deliver:
  assumes "blocks_hold port bs fs" and "port = ctx_port ctx" and "carried port Q fs out Q'" and "ctx_matcher ctx = fix_matcher"
    and "keeps ctx Q" and "deliver_stream out ctx = Inr x"
  shows "\<exists>st. walk_blocks bs ctx = Inr (count_blocks (length bs) (x\<lparr>ctx_state := st\<rparr>)) \<and> keeps (x\<lparr>ctx_state := st\<rparr>) Q'"
  using assms
proof (induction arbitrary: ctx Q out x rule: blocks_hold.induct)
  case no_block
  then show ?case by (intro exI [of _ "ctx_state ctx"]) simp
next
  case (one_block b first fs bs gs)
  obtain xs ys P where split: "out = xs @ ys" "carried port Q fs xs P" "carried port P gs ys Q'"
    using carried_append [OF one_block.prems(2)] by blast
  obtain y where y: "deliver_stream xs ctx = Inr y" "deliver_stream ys y = Inr x"
    using one_block.prems(5) split(1) by (auto simp: deliver_stream_append and_then_eq_Inr)
  obtain st where st: "walk_block ctx b = Inr (count_block (y\<lparr>ctx_state := st\<rparr>))" "keeps (y\<lparr>ctx_state := st\<rparr>) P"
    using walk_block_deliver [of b first fs ctx Q xs P y] one_block.hyps(1,2) split(2) one_block.prems(1,3,4) y(1) by blast
  let ?c = "count_blocks 1 (y\<lparr>ctx_state := st\<rparr>)"
  have c: "count_block (y\<lparr>ctx_state := st\<rparr>) = ?c" using count_block_blocks [of 0 "y\<lparr>ctx_state := st\<rparr>"] by simp
  have "deliver_stream ys ?c = Inr (count_blocks 1 (x\<lparr>ctx_state := st\<rparr>))"
    by (simp add: deliver_stream_count deliver_stream_state y(2))
  moreover have "ctx_port ?c = ctx_port ctx" "ctx_matcher ?c = fix_matcher"
    using deliver_stream_port [OF y(1)] one_block.prems(3) by simp_all
  ultimately obtain st' where
    "walk_blocks bs ?c = Inr (count_blocks (length bs) (count_blocks 1 (x\<lparr>ctx_state := st\<rparr>)\<lparr>ctx_state := st'\<rparr>))"
    "keeps (count_blocks 1 (x\<lparr>ctx_state := st\<rparr>)\<lparr>ctx_state := st'\<rparr>) Q'"
    using one_block.IH [of ?c P ys] split(3) st(2) one_block.prems(1) by auto
  with st(1) show ?case
    by (intro exI [of _ st']) (simp add: c count_blocks_def keeps_def algebra_simps)
qed

text \<open>
  C35: any number of TCP streams of good messages, cut into segments, interleaved with each other and with other
  traffic, of whatever protocol, and laid out in blocks of frames: the capture thread handles every message whole and
  once, in the order and with the capture time of the frames in which they end, whatever lies behind a payload in
  its block. For each stream it keeps just the start of a message that is not complete yet, and the counter of
  bytes goes up by the number of blocks. The cut of C16 is excluded, on which the code loses a message, and the frames for the port
  have well-formed headers with right lengths, against C33.
\<close>
theorem blocks_deliver_streams:
  assumes "blocks_hold (ctx_port ctx) bs fs" and "carried (ctx_port ctx) Q fs out Q'" and "ctx_matcher ctx = fix_matcher"
    and "\<forall>sid. unfinished (Q sid) \<and> pending (ctx_state ctx) sid (Q sid)" and "deliver_stream out ctx = Inr x"
  shows "\<exists>st. walk_blocks bs ctx = Inr (x\<lparr>ctx_state := st, ctx_counters := (ctx_counters x)
      \<lparr>bytes_total := bytes_total (ctx_counters x) + of_nat (length bs)\<rparr>\<rparr>) \<and>
    (\<forall>sid. pending st sid (Q' sid))"
  using walk_blocks_deliver [OF assms(1) refl assms(2,3) _ assms(5)] assms(4) by (auto simp: keeps_def count_blocks_def)


subsection \<open>The summaries of the delivered messages\<close>

definition message_event :: "32 word \<Rightarrow> 32 word \<Rightarrow> fix_message \<Rightarrow> event" where
  "message_event s ns m = (let fs = snd (snd m) in
     (key_of_fields fs, \<lparr>lr_msg_type = type_of_fields fs, lr_tv_sec = uint s, lr_tv_nsec = uint ns\<rparr>))"

text \<open>A message whose fields can be read; only the measured ones make an event.\<close>

definition understood :: "fix_message \<Rightarrow> bool" where
  "understood m \<longleftrightarrow> good_message m \<and> (\<exists>d. message_details m = Inr d)"

definition packet_events :: "fix_message list stamped \<Rightarrow> event list" where
  "packet_events p = (case p of (s, ns, ms) \<Rightarrow> map (message_event s ns) (filter measured ms))"

definition stream_events :: "fix_message list stamped list \<Rightarrow> event list" where
  "stream_events out = concat (map packet_events out)"

lemma stream_events_simps [simp]:
  "stream_events [] = []" "stream_events (p # out) = packet_events p @ stream_events out"
  by (simp_all add: stream_events_def)

lemma deliver_quiet:
  assumes "understood m" and "\<not> measured m"
  shows "deliver s ns m ctx = Inr (count_valid ctx)"
proof -
  obtain d where d: "message_details m = Inr d" using assms(1) by (auto simp: understood_def)
  with assms have "\<not> fst (latency_ids d)" by (auto simp: understood_def measured_def)
  then show ?thesis
    by (auto simp: deliver_def d process_for_latency_measurement_def split: prod.split)
qed

lemma deliver_event:
  assumes "understood m" and "rb_holds n (ctx_rb ctx) (map event_bytes es) 0"
    and "recs_size (map event_bytes (es @ packet_events (s, ns, [m]))) \<le> 2 ^ n"
  shows "\<exists>x. deliver s ns m ctx = Inr x \<and> rb_holds n (ctx_rb x) (map event_bytes (es @ packet_events (s, ns, [m]))) 0"
proof (cases "measured m")
  case True
  obtain h ld fs where m: "m = (h, ld, fs)" by (cases m)
  with True obtain d where d: "good_message (h, ld, fs)" "message_details (h, ld, fs) = Inr d" "fst (latency_ids d)"
    by (auto simp: measured_def)
  have p: "event_bytes (message_event s ns m) = summary_bytes s ns (type_of_fields fs) (key_of_fields fs)"
    by (simp add: m message_event_def event_bytes_summary)
  have "rb_room n (map event_bytes es) (event_bytes (message_event s ns m))"
    using assms(3) True by (simp add: rb_room_def packet_events_def)
  with deliver_publishes [OF assms(2) d p] True show ?thesis by (auto simp: m packet_events_def)
next
  case False
  then show ?thesis using deliver_quiet [OF assms(1)] assms(2) by (simp add: packet_events_def count_valid_def)
qed

lemma recs_size_append: "recs_size (xs @ ys) = recs_size xs + recs_size ys"
  by (simp add: recs_size_def)

lemma packet_events_Cons: "packet_events (s, ns, m # ms) = packet_events (s, ns, [m]) @ packet_events (s, ns, ms)"
  by (simp add: packet_events_def)

lemma deliver_all_events:
  "\<forall>m\<in>set ms. understood m \<Longrightarrow> rb_holds n (ctx_rb ctx) (map event_bytes es) 0 \<Longrightarrow>
     recs_size (map event_bytes (es @ packet_events (s, ns, ms))) \<le> 2 ^ n \<Longrightarrow>
     \<exists>x. deliver_all s ns ms ctx = Inr x \<and> rb_holds n (ctx_rb x) (map event_bytes (es @ packet_events (s, ns, ms))) 0"
proof (induction ms arbitrary: ctx es)
  case Nil
  then show ?case by (simp add: packet_events_def)
next
  case (Cons m ms)
  let ?e = "packet_events (s, ns, [m])"
  have size: "recs_size (map event_bytes ((es @ ?e) @ packet_events (s, ns, ms))) \<le> 2 ^ n"
    using Cons.prems(3) by (simp add: packet_events_Cons [of s ns m ms])
  then have "recs_size (map event_bytes (es @ ?e)) \<le> 2 ^ n" by (simp add: recs_size_append)
  with deliver_event [of m n ctx es s ns] Cons.prems(1,2) obtain c
    where c: "deliver s ns m ctx = Inr c" "rb_holds n (ctx_rb c) (map event_bytes (es @ ?e)) 0" by auto
  from Cons.IH [OF _ c(2) size] Cons.prems(1) c(1) show ?case
    by (simp add: packet_events_Cons [of s ns m ms])
qed

lemma deliver_stream_events:
  "\<forall>p\<in>set out. \<forall>m\<in>set (snd (snd p)). understood m \<Longrightarrow> rb_holds n (ctx_rb ctx) (map event_bytes es) 0 \<Longrightarrow>
     recs_size (map event_bytes (es @ stream_events out)) \<le> 2 ^ n \<Longrightarrow>
     \<exists>x. deliver_stream out ctx = Inr x \<and> rb_holds n (ctx_rb x) (map event_bytes (es @ stream_events out)) 0"
proof (induction out arbitrary: ctx es)
  case (Cons p out)
  obtain s ns ms where p: "p = (s, ns, ms)" by (cases p)
  have size: "recs_size (map event_bytes ((es @ packet_events p) @ stream_events out)) \<le> 2 ^ n"
    using Cons.prems(3) by simp
  then have "recs_size (map event_bytes (es @ packet_events p)) \<le> 2 ^ n" by (simp add: recs_size_append)
  with deliver_all_events [of ms n ctx es s ns] Cons.prems(1,2) obtain c
    where c: "deliver_all s ns ms ctx = Inr c" "rb_holds n (ctx_rb c) (map event_bytes (es @ packet_events p)) 0"
    by (auto simp: p)
  from Cons.IH [OF _ c(2) size] Cons.prems(1) c(1) show ?case by (simp add: p)
qed simp

lemma message_event_good: "measured m \<Longrightarrow> good_event (message_event s ns m)"
  using capture_event_good [of "\<lparr>cap_saddr = 0, cap_sport = 0, cap_daddr = 0, cap_dport = 0, cap_sec = s,
      cap_nsec = ns, cap_message = m\<rparr>"]
  by (simp add: capture_event_def message_event_def)

lemma stream_events_good: "\<forall>e\<in>set (stream_events out). good_event e"
  by (auto simp: stream_events_def packet_events_def message_event_good)


text \<open>
  C32: from the wire to the histogram. Requests and responses that arrive on any streams, cut into segments (but for
  the cut of C16, on which a message is lost) and interleaved in blocks of frames, in any order and among other messages and
  other traffic, come out of the latency thread as exactly one latency per pair: the time between the frames in
  which the request and the response end. The messages are good ones, shorter than a fragment, that can be
  read, the frames for the port are well formed as in C35, the summaries all fit in the ring before the
  latency thread drains it, and the pairs have distinct keys.
\<close>
theorem blocks_to_latencies:
  assumes "blocks_hold (ctx_port ctx) bs fs" and "carried (ctx_port ctx) Q fs out Q'" and "ctx_matcher ctx = fix_matcher"
    and "\<forall>sid. unfinished (Q sid) \<and> pending (ctx_state ctx) sid (Q sid)" and "rb_holds n (ctx_rb ctx) [] 0"
    and "\<forall>p\<in>set out. \<forall>m\<in>set (snd (snd p)). understood m"
    and "recs_size (map event_bytes (stream_events out)) \<le> 2 ^ n" and "length (stream_events out) \<le> turns * 19"
    and "mset (stream_events out) = mset (pair_events ps)" and "paired ps"
  shows "\<exists>ctx' rb' ls. walk_blocks bs ctx = Inr ctx' \<and>
    drain_turns (\<lambda>h x. h @ [x]) turns (ctx_rb ctx') (Map.empty, []) = Inr (rb', Map.empty, ls) \<and>
    vmars_spsc_rb_poll rb' = (None, rb') \<and>
    mset ls = mset (map (\<lambda>(a, b). latency_of (snd a) (snd b)) ps)"
proof -
  let ?es = "stream_events out"
  obtain x where x: "deliver_stream out ctx = Inr x" "rb_holds n (ctx_rb x) (map event_bytes ?es) 0"
    using deliver_stream_events [OF assms(6), of n ctx "[]"] assms(5,7) by auto
  have "keeps ctx Q" using assms(4) by (simp add: keeps_def)
  from walk_blocks_deliver [OF assms(1) refl assms(2,3) this x(1)] obtain st
    where w: "walk_blocks bs ctx = Inr (count_blocks (length bs) (x\<lparr>ctx_state := st\<rparr>))" by blast
  obtain rb' where d: "drain_turns (\<lambda>h x. h @ [x]) turns (ctx_rb x) (Map.empty, []) =
      Inr (rb', fst (match_all Map.empty ?es), foldl (\<lambda>h x. h @ [x]) [] (snd (match_all Map.empty ?es)))"
    "rb_holds n rb' [] 0"
    using drain_turns_events [OF x(2) stream_events_good good_table_empty assms(8), of "\<lambda>h x. h @ [x]" "[]"] by blast
  have "foldl (\<lambda>h x. h @ [x]) hs ls = hs @ ls" for hs ls :: "int list" by (induction ls arbitrary: hs) simp_all
  with match_all_pairs [OF assms(9,10)] d poll_ok [OF d(2)] w show ?thesis by auto
qed

subsection \<open>Witnesses\<close>

text \<open>
  Five blocks of a frame each: the start of an order, a frame of ARP, one for another port, the report on the
  order on the stream of the other direction, and the rest of the order.
\<close>

definition report_message :: fix_message where
  "report_message = sample_message sample_report"

definition sample_frames :: "captured list" where
  "sample_frames =
     [Tcp_Frame (sample_frame (take 20 (msg_bytes order_message))),
      Raw_Frame sample_arp,
      Tcp_Frame (sample_frame [1, 2, 3]\<lparr>fr_sport := 22\<rparr>),
      Tcp_Frame (sample_frame (msg_bytes report_message)
        \<lparr>fr_saddr := 2, fr_daddr := 1, fr_sport := 4000, fr_dport := 9880, fr_sec := 102, fr_nsec := 9\<rparr>),
      Tcp_Frame (sample_frame (drop 20 (msg_bytes order_message))\<lparr>fr_sec := 101\<rparr>)]"

definition sample_blocks :: "byte list list" where
  "sample_blocks = map (\<lambda>c. sample_block [c]) sample_frames"

definition sample_out :: "fix_message list stamped list" where
  "sample_out = [(100, 7, []), (102, 9, [report_message]), (101, 7, [order_message])]"

lemma sample_frames_ok: "\<forall>c\<in>set sample_frames. captured_shape c \<and> captured_ok port c"
proof -
  have len: "length (msg_bytes order_message) = 49" "length (msg_bytes report_message) < 60000"
    using good_length [OF report_message_good] by (code_simp, simp add: report_message_def)
  then show ?thesis
    by (simp add: sample_frames_def frame_ok_def sample_frame_def length_ok_def headers_len_def ETH_P_IP_def sample_arp_ok)
qed

lemma sample_blocks_hold: "blocks_hold port sample_blocks sample_frames"
proof -
  have "blocks_hold port (map (\<lambda>c. sample_block [c]) fs) fs" if "\<forall>c\<in>set fs. captured_shape c \<and> captured_ok port c" for fs
    using that
  proof (induction fs)
    case (Cons c fs)
    then have "blocks_hold port (sample_block [c] # map (\<lambda>c. sample_block [c]) fs) ([c] @ fs)"
      by (intro one_block [OF sample_block_holds]) auto
    then show ?case by simp
  qed (simp add: no_block)
  then show ?thesis unfolding sample_blocks_def using sample_frames_ok by blast
qed

lemma sample_carried: "carried 9880 (\<lambda>_. []) sample_frames sample_out (\<lambda>_. [])"
proof -
  let ?b = "msg_bytes order_message"
  define f1 where "f1 = sample_frame (take 20 ?b)"
  define f2 where "f2 = sample_frame [1, 2, 3]\<lparr>fr_sport := 22\<rparr>"
  define f3 where "f3 = sample_frame (msg_bytes report_message)
        \<lparr>fr_saddr := 2, fr_daddr := 1, fr_sport := 4000, fr_dport := 9880, fr_sec := 102, fr_nsec := 9\<rparr>"
  define f4 where "f4 = sample_frame (drop 20 ?b)\<lparr>fr_sec := 101\<rparr>"
  note defs = f1_def f2_def f3_def f4_def
  have good: "good_message report_message" "good_message order_message"
    by (simp_all only: report_message_def report_message_good order_message_good)
  have len: "length ?b = 49" "?b \<noteq> []" "msg_bytes report_message \<noteq> []"
    using good_length [OF good(1)] good_length [OF good(2)] by (code_simp, auto)
  have port: "for_port 9880 f1" "\<not> for_port 9880 f2" "for_port 9880 f3" "for_port 9880 f4"
    by (simp_all add: defs for_port_def sample_frame_def ETH_P_IP_def)
  have payload: "fr_payload f1 = take 20 ?b" "fr_payload f3 = msg_bytes report_message" "fr_payload f4 = drop 20 ?b"
    by (simp_all add: defs sample_frame_def)
  have times: "fr_sec f1 = 100" "fr_nsec f1 = 7" "fr_sec f3 = 102" "fr_nsec f3 = 9" "fr_sec f4 = 101" "fr_nsec f4 = 7"
    by (simp_all add: defs sample_frame_def)
  have sid: "frame_stream f4 = frame_stream f1" "frame_stream f3 \<noteq> frame_stream f1"
    by (simp_all add: defs frame_stream_def sample_frame_def sid_of_def)
  have unf: "unfinished []" "unfinished (take 20 ?b)" using order_unfinished [of 20] len by (simp_all add: unfinished_def)
  let ?Q = "(\<lambda>_. [])(frame_stream f1 := take 20 ?b)"
  have "carried 9880 (?Q(frame_stream f1 := [])) [] [] (\<lambda>_. [])" by auto
  from carried_segment [OF port(4) _ sid(1) [symmetric] refl _ unf(1) _ _ this, of "[order_message]"]
  have "carried 9880 ?Q [Tcp_Frame f4] [(101, 7, [order_message])] (\<lambda>_. [])" using good(2) len by (simp add: payload times)
  moreover have "?Q = ?Q(frame_stream f3 := [])" using sid(2) by auto
  ultimately have "carried 9880 (?Q(frame_stream f3 := [])) [Tcp_Frame f4] [(101, 7, [order_message])] (\<lambda>_. [])" by simp
  from carried_segment [OF port(3) _ refl refl _ unf(1) _ _ this, of "[report_message]"]
  have "carried 9880 ?Q [Tcp_Frame f3, Tcp_Frame f4] [(102, 9, [report_message]), (101, 7, [order_message])] (\<lambda>_. [])"
    using good(1) len sid(2) by (simp add: payload times)
  then have "carried 9880 ?Q [Raw_Frame sample_arp, Tcp_Frame f2, Tcp_Frame f3, Tcp_Frame f4]
      [(102, 9, [report_message]), (101, 7, [order_message])] (\<lambda>_. [])"
    by (rule carried_raw [OF carried_other [rotated]]) (simp add: port(2))
  from carried_segment [OF port(1) _ refl refl _ unf(2) _ _ this, of "[]"]
  show ?thesis using len by (simp add: sample_frames_def sample_out_def payload times flip: defs)
qed


lemma sample_understood: "\<forall>p\<in>set sample_out. \<forall>m\<in>set (snd (snd p)). measured m \<and> understood m"
proof -
  have "measured report_message" "measured order_message"
    using sample_captures_measured by (simp_all add: sample_captures_def report_message_def)
  then show ?thesis by (auto simp: sample_out_def understood_def measured_def)
qed

lemma sample_stream_events:
  "stream_events sample_out =
     [(bytes_of ''A|BB|X1|Y'', \<lparr>lr_msg_type = 56, lr_tv_sec = 102, lr_tv_nsec = 9\<rparr>),
      (bytes_of ''A|BB|X1|Y'', \<lparr>lr_msg_type = 68, lr_tv_sec = 101, lr_tv_nsec = 7\<rparr>)]"
proof -
  have "filter measured [order_message] = [order_message]" "filter measured [report_message] = [report_message]"
    using sample_understood by (simp_all add: sample_out_def)
  then have "stream_events sample_out = [message_event 102 9 report_message, message_event 101 7 order_message]"
    by (simp only: sample_out_def stream_events_simps packet_events_def prod.case filter.simps list.map append.simps)
  also have "\<dots> = [(bytes_of ''A|BB|X1|Y'', \<lparr>lr_msg_type = 56, lr_tv_sec = 102, lr_tv_nsec = 9\<rparr>),
      (bytes_of ''A|BB|X1|Y'', \<lparr>lr_msg_type = 68, lr_tv_sec = 101, lr_tv_nsec = 7\<rparr>)]"
    by code_simp
  finally show ?thesis .
qed

lemma sample_events_fit: "recs_size (map event_bytes (stream_events sample_out)) \<le> 2 ^ 12"
  by (simp add: sample_stream_events recs_size_def rec_size_def SIZEOF_RECORD_def event_bytes_def)

lemma sample_start: "\<forall>sid. unfinished [] \<and> pending (ctx_state sample_ctx) sid []"
proof -
  have "get_fragment sample_ctx sid = None" for sid by simp
  then show ?thesis by (simp add: pending_nil unfinished_def flip: get_fragment_at)
qed

lemma sample_port: "ctx_port sample_ctx = 9880"
  by (simp add: sample_ctx_def)

theorem blocks_deliver_streams_witness:
  "\<exists>x st. deliver_stream sample_out sample_ctx = Inr x \<and>
     walk_blocks sample_blocks sample_ctx = Inr (x\<lparr>ctx_state := st, ctx_counters := (ctx_counters x)
       \<lparr>bytes_total := bytes_total (ctx_counters x) + 5\<rparr>\<rparr>) \<and> (\<forall>sid. pending st sid [])"
proof -
  obtain x where x: "deliver_stream sample_out sample_ctx = Inr x"
    using deliver_stream_events [of sample_out 12 sample_ctx "[]"] sample_understood sample_ctx_ring sample_events_fit
    by auto
  have "length sample_blocks = 5" by (simp add: sample_blocks_def sample_frames_def)
  with blocks_deliver_streams [OF sample_blocks_hold sample_carried [folded sample_port] _ sample_start x] x
  show ?thesis by auto
qed

theorem blocks_to_latencies_witness:
  "\<exists>ctx' rb'. walk_blocks sample_blocks sample_ctx = Inr ctx' \<and>
     drain_turns (\<lambda>h x. h @ [x]) 1 (ctx_rb ctx') (Map.empty, []) = Inr (rb', Map.empty, [1000000002 :: int])"
proof -
  let ?rsp = "(bytes_of ''A|BB|X1|Y'', \<lparr>lr_msg_type = 56, lr_tv_sec = 102, lr_tv_nsec = 9\<rparr>)"
  let ?req = "(bytes_of ''A|BB|X1|Y'', \<lparr>lr_msg_type = 68, lr_tv_sec = 101, lr_tv_nsec = 7\<rparr>)"
  have pair: "paired [(?req, ?rsp)]" "latency_of (snd ?req) (snd ?rsp) = 1000000002"
    by (simp_all add: paired_def complements_def is_complement_def msg_types trace_types latency_of_def
        is_begin_def elapsed_def)
  have m: "mset (stream_events sample_out) = mset (pair_events [(?req, ?rsp)])"
    by (simp add: sample_stream_events pair_events_def)
  have n: "length (stream_events sample_out) \<le> 1 * 19" by (simp add: sample_stream_events)
  have u: "\<forall>p\<in>set sample_out. \<forall>m\<in>set (snd (snd p)). understood m" using sample_understood by blast
  from blocks_to_latencies [OF sample_blocks_hold sample_carried [folded sample_port] _ sample_start sample_ctx_ring u
      sample_events_fit n m pair(1)] pair(2) show ?thesis by auto
qed

end
