(* ===== verification/Vmars_System.thy ===== *)
theory Vmars_System
  imports Packet_Streams
begin

text \<open>
  Several capture threads, each with a ring of its own, and the latency thread that drains the rings, in any
  interleaving: every pair of a request and a response gives one latency, whichever threads capture the two
  and in whatever order their summaries are taken.
\<close>

subsection \<open>The system\<close>

text \<open>\<open>vs_published\<close> is a ghost: the events written to the rings so far, of all threads.\<close>

record vmars_system =
  vs_captures :: "vmars_capture_context list"
  vs_table :: latency_table
  vs_histogram :: "int list"
  vs_published :: "event list"

text \<open>
  What a thread publishes while it handles the messages of a packet: the events of the messages with whose
  summary the tail of its ring has moved.
\<close>

definition published_by :: "32 word \<Rightarrow> 32 word \<Rightarrow> fix_message \<Rightarrow> vmars_capture_context \<Rightarrow> vmars_capture_context \<Rightarrow> event list" where
  "published_by tv_sec tv_nsec m ctx ctx' =
     (if tail_position (ctx_rb ctx') = tail_position (ctx_rb ctx) then [] else [message_event tv_sec tv_nsec m])"

fun published_all :: "32 word \<Rightarrow> 32 word \<Rightarrow> fix_message list \<Rightarrow> vmars_capture_context \<Rightarrow> event list" where
  "published_all tv_sec tv_nsec [] ctx = []"
| "published_all tv_sec tv_nsec (m # ms) ctx =
     (case deliver tv_sec tv_nsec m ctx of
        Inl _ \<Rightarrow> []
      | Inr ctx' \<Rightarrow> published_by tv_sec tv_nsec m ctx ctx' @ published_all tv_sec tv_nsec ms ctx')"

fun published_stream :: "fix_message list stamped list \<Rightarrow> vmars_capture_context \<Rightarrow> event list" where
  "published_stream [] ctx = []"
| "published_stream ((s, ns, ms) # out) ctx =
     published_all s ns ms ctx @
     (case deliver_all s ns ms ctx of Inl _ \<Rightarrow> [] | Inr ctx' \<Rightarrow> published_stream out ctx')"

text \<open>The block \<open>b\<close> carries on the streams of the thread \<open>ctx\<close> with the messages \<open>out\<close>.\<close>

definition block_carries :: "vmars_capture_context \<Rightarrow> byte list \<Rightarrow> fix_message list stamped list \<Rightarrow> bool" where
  "block_carries ctx b out \<longleftrightarrow> ctx_matcher ctx = fix_matcher \<and>
     (\<forall>p\<in>set out. \<forall>m\<in>set (snd (snd p)). understood m) \<and>
     (\<exists>first fs Q Q'. block_holds b first fs \<and> (\<forall>c\<in>set fs. captured_ok (ctx_port ctx) c) \<and>
        carried (ctx_port ctx) Q fs out Q' \<and> keeps ctx Q)"

text \<open>
  A capture thread handles a whole block, or a single message, so that the latency thread can run
  between the messages of a block; the handling of a message moves the tail of its ring when its summary has been published; a
  message that is not measured, or a full ring, leaves the tail alone. The latency thread drains a ring, with
  any limit: with 20 as in the code, or with 2, for a single record, so that the capture threads can run between
  any two records.
\<close>

inductive system_step :: "vmars_system \<Rightarrow> vmars_system \<Rightarrow> bool" where
  message_captured: "i < length (vs_captures s) \<Longrightarrow> ctx = vs_captures s ! i \<Longrightarrow> understood m \<Longrightarrow>
     deliver tv_sec tv_nsec m ctx = Inr ctx' \<Longrightarrow>
     system_step s (s\<lparr>vs_captures := (vs_captures s)[i := ctx'],
       vs_published := vs_published s @ published_by tv_sec tv_nsec m ctx ctx'\<rparr>)"
| block_captured: "i < length (vs_captures s) \<Longrightarrow> ctx = vs_captures s ! i \<Longrightarrow> block_carries ctx b out \<Longrightarrow>
     walk_block ctx b = Inr ctx' \<Longrightarrow>
     system_step s (s\<lparr>vs_captures := (vs_captures s)[i := ctx'],
       vs_published := vs_published s @ published_stream out ctx\<rparr>)"
| ring_drained_by: "i < length (vs_captures s) \<Longrightarrow> ctx = vs_captures s ! i \<Longrightarrow>
     drain_ring (\<lambda>h x. h @ [x]) (Suc limit) (ctx_rb ctx) (vs_table s, vs_histogram s) = Inr (rb, table, histogram) \<Longrightarrow>
     system_step s (s\<lparr>vs_captures := (vs_captures s)[i := ctx\<lparr>ctx_rb := rb\<rparr>], vs_table := table, vs_histogram := histogram\<rparr>)"

definition system_start :: "nat \<Rightarrow> vmars_system \<Rightarrow> bool" where
  "system_start n s \<longleftrightarrow> (\<forall>ctx\<in>set (vs_captures s). rb_holds n (ctx_rb ctx) [] 0) \<and>
     vs_table s = Map.empty \<and> vs_histogram s = [] \<and> vs_published s = []"

inductive system_reach :: "nat \<Rightarrow> vmars_system \<Rightarrow> bool" for n where
  system_init: "system_start n s \<Longrightarrow> system_reach n s"
| system_more: "system_reach n s \<Longrightarrow> system_step s t \<Longrightarrow> system_reach n t"

subsection \<open>The invariant\<close>

text \<open>
  The rings hold the events \<open>ess\<close>, those taken so far are \<open>es\<close>, and together they are the published
  ones.
\<close>

definition system_inv :: "nat \<Rightarrow> vmars_system \<Rightarrow> event list list \<Rightarrow> event list \<Rightarrow> bool" where
  "system_inv n s ess es \<longleftrightarrow>
     list_all2 (\<lambda>ctx es. rb_holds n (ctx_rb ctx) (map event_bytes es) 0 \<and> (\<forall>e\<in>set es. good_event e))
       (vs_captures s) ess \<and>
     (vs_table s, vs_histogram s) = match_all Map.empty es \<and> good_table (vs_table s) \<and>
     mset (vs_published s) = mset es + (\<Sum>es\<leftarrow>ess. mset es)"

lemma mset_update:
  "i < length ess \<Longrightarrow> (\<Sum>es\<leftarrow>ess. mset es) = mset (ess ! i) + (\<Sum>es\<leftarrow>take i ess @ drop (Suc i) ess. mset es)"
  by (subst id_take_nth_drop [of i ess]) (simp_all add: ac_simps)

lemma mset_of_empty: "\<forall>es\<in>set ess. es = [] \<Longrightarrow> (\<Sum>es\<leftarrow>ess. mset es) = {#}"
  by (induction ess) simp_all

lemma mset_replace:
  "i < length ess \<Longrightarrow> (\<Sum>es\<leftarrow>ess[i := fs]. mset es) = mset fs + (\<Sum>es\<leftarrow>take i ess @ drop (Suc i) ess. mset es)"
  using mset_update [of i "ess[i := fs]"] by simp

lemma write_head: "rb_write rb a bs = Inr rb' \<Longrightarrow> head_position rb' = head_position rb"
  by (auto simp: rb_write_def split: if_splits)

lemma strncpy_head: "rb_strncpy rb a str = Inr rb' \<Longrightarrow> head_position rb' = head_position rb"
  by (auto simp: rb_strncpy_def and_then_eq_Inr dest: write_head)

lemma claim_head: "vmars_spsc_rb_claim rb len = Inr (p, rb') \<Longrightarrow> head_position rb' = head_position rb"
  by (auto simp: vmars_spsc_rb_claim_def Let_def and_then_eq_Inr dest: write_head split: if_splits)

lemma publish_head: "vmars_spsc_rb_publish rb a = Inr (c, rb') \<Longrightarrow> head_position rb' = head_position rb"
  by (auto simp: vmars_spsc_rb_publish_def Let_def and_then_eq_Inr split: if_splits)

lemma process_head:
  "process_for_latency_measurement ctx s ns d = Inr ctx' \<Longrightarrow> head_position (ctx_rb ctx') = head_position (ctx_rb ctx)"
  by (auto simp: process_for_latency_measurement_def and_then_eq_Inr Let_def
      dest!: write_head strncpy_head claim_head publish_head split: prod.splits if_splits option.splits)

lemma deliver_head: "deliver s ns m ctx = Inr ctx' \<Longrightarrow> head_position (ctx_rb ctx') = head_position (ctx_rb ctx)"
  by (auto simp: deliver_def and_then_eq_Inr count_valid_def dest!: process_head)

lemma tail_moves:
  assumes "rb_holds n rb rs 0" and "rb_holds n rb' (rs @ qs) 0" and "head_position rb' = head_position rb"
  shows "tail_position rb' = tail_position rb \<longleftrightarrow> qs = []"
proof -
  from assms(1) have t: "tail_position rb = head_position rb + of_nat (recs_size rs)"
    by (rule rb_holdsE)
  from assms(2) obtain k where t': "tail_position rb' = head_position rb' + of_nat (recs_size (rs @ qs))"
    and n: "n \<le> 30" "k + recs_size (rs @ qs) + 0 \<le> 2 ^ n" by (rule rb_holdsE)
  have "(of_nat (recs_size (rs @ qs)) :: size_word) = of_nat (recs_size rs) \<longleftrightarrow> recs_size (rs @ qs) = recs_size rs"
    using of_nat_small [OF n(1), of "recs_size (rs @ qs)"] of_nat_small [OF n(1), of "recs_size rs"] n(2)
    by (metis add_leD1 add_leD2 add_0_right recs_size_simps(3))
  then show ?thesis by (simp add: t t' assms(3))
qed

lemma deliver_outcome:
  assumes "understood m" and "rb_holds n (ctx_rb ctx) (map event_bytes es) 0"
  shows "\<exists>x fs. deliver s ns m ctx = Inr x \<and> rb_holds n (ctx_rb x) (map event_bytes (es @ fs)) 0 \<and>
    (\<forall>e\<in>set fs. good_event e) \<and>
    fs = published_by s ns m ctx x"
proof -
  have "\<exists>x fs. deliver s ns m ctx = Inr x \<and> rb_holds n (ctx_rb x) (map event_bytes (es @ fs)) 0 \<and>
      (fs = [] \<or> measured m \<and> fs = [message_event s ns m])"
  proof (cases "measured m")
    case True
    obtain h ld fs where m: "m = (h, ld, fs)" by (cases m)
    with True obtain d where d: "good_message (h, ld, fs)" "message_details (h, ld, fs) = Inr d" "fst (latency_ids d)"
      by (auto simp: measured_def)
    have p: "event_bytes (message_event s ns m) = summary_bytes s ns (type_of_fields fs) (key_of_fields fs)"
      by (simp add: m message_event_def event_bytes_summary)
    from deliver_publishes [OF assms(2) d p] obtain rb' x where x: "deliver s ns m ctx = Inr x" "ctx_rb x = rb'"
      "rb_holds n rb' (if rb_room n (map event_bytes es) (event_bytes (message_event s ns m))
        then map event_bytes es @ [event_bytes (message_event s ns m)] else map event_bytes es) 0"
      by (auto simp: m)
    show ?thesis
    proof (cases "rb_room n (map event_bytes es) (event_bytes (message_event s ns m))")
      case True
      with x \<open>measured m\<close> show ?thesis by (intro exI [of _ x] exI [of _ "[message_event s ns m]"]) simp
    next
      case False
      with x show ?thesis by (intro exI [of _ x] exI [of _ "[]"]) simp
    qed
  next
    case False
    then show ?thesis using deliver_quiet [OF assms(1)] assms(2)
      by (intro exI [of _ "count_valid ctx"] exI [of _ "[]"]) (simp add: count_valid_def)
  qed
  then obtain x fs where x: "deliver s ns m ctx = Inr x" "rb_holds n (ctx_rb x) (map event_bytes (es @ fs)) 0"
    "fs = [] \<or> measured m \<and> fs = [message_event s ns m]" by blast
  have "tail_position (ctx_rb x) = tail_position (ctx_rb ctx) \<longleftrightarrow> fs = []"
    using tail_moves [OF assms(2), of "ctx_rb x" "map event_bytes fs"] x(2) deliver_head [OF x(1)] by simp
  with x show ?thesis by (intro exI [of _ x] exI [of _ fs]) (auto simp: message_event_good published_by_def)
qed

lemma deliver_all_outcome:
  "\<forall>m\<in>set ms. understood m \<Longrightarrow> rb_holds n (ctx_rb ctx) (map event_bytes es) 0 \<Longrightarrow>
     \<exists>x. deliver_all s ns ms ctx = Inr x \<and> rb_holds n (ctx_rb x) (map event_bytes (es @ published_all s ns ms ctx)) 0 \<and>
       (\<forall>e\<in>set (published_all s ns ms ctx). good_event e)"
proof (induction ms arbitrary: ctx es)
  case (Cons m ms)
  obtain c where c: "deliver s ns m ctx = Inr c" "rb_holds n (ctx_rb c) (map event_bytes (es @ published_by s ns m ctx c)) 0"
      "\<forall>e\<in>set (published_by s ns m ctx c). good_event e"
    using deliver_outcome [of m n ctx es s ns] Cons.prems by auto
  from Cons.IH [OF _ c(2)] Cons.prems(1) c(1,3) show ?case by auto
qed simp

lemma deliver_stream_outcome:
  "\<forall>p\<in>set out. \<forall>m\<in>set (snd (snd p)). understood m \<Longrightarrow> rb_holds n (ctx_rb ctx) (map event_bytes es) 0 \<Longrightarrow>
     \<exists>x. deliver_stream out ctx = Inr x \<and> rb_holds n (ctx_rb x) (map event_bytes (es @ published_stream out ctx)) 0 \<and>
       (\<forall>e\<in>set (published_stream out ctx). good_event e)"
proof (induction out arbitrary: ctx es)
  case (Cons p out)
  obtain s ns ms where p: "p = (s, ns, ms)" by (cases p)
  obtain c where c: "deliver_all s ns ms ctx = Inr c"
      "rb_holds n (ctx_rb c) (map event_bytes (es @ published_all s ns ms ctx)) 0"
      "\<forall>e\<in>set (published_all s ns ms ctx). good_event e"
    using deliver_all_outcome [of ms n ctx es s ns] Cons.prems by (auto simp: p)
  from Cons.IH [OF _ c(2)] Cons.prems(1) c(1,3) show ?case by (auto simp: p)
qed simp

lemma block_outcome:
  assumes "block_carries ctx b out" and "rb_holds n (ctx_rb ctx) (map event_bytes es) 0"
  shows "\<exists>x. walk_block ctx b = Inr x \<and> rb_holds n (ctx_rb x) (map event_bytes (es @ published_stream out ctx)) 0 \<and>
    (\<forall>e\<in>set (published_stream out ctx). good_event e)"
proof -
  obtain first fs Q Q' where b: "block_holds b first fs" "\<forall>c\<in>set fs. captured_ok (ctx_port ctx) c" "carried (ctx_port ctx) Q fs out Q'"
      "keeps ctx Q" "ctx_matcher ctx = fix_matcher" "\<forall>p\<in>set out. \<forall>m\<in>set (snd (snd p)). understood m"
    using assms(1) by (auto simp: block_carries_def)
  obtain x where x: "deliver_stream out ctx = Inr x"
      "rb_holds n (ctx_rb x) (map event_bytes (es @ published_stream out ctx)) 0"
      "\<forall>e\<in>set (published_stream out ctx). good_event e"
    using deliver_stream_outcome [OF b(6) assms(2)] by blast
  obtain st where "walk_block ctx b = Inr (count_block (x\<lparr>ctx_state := st\<rparr>))"
    using walk_block_deliver [OF b(1-3,5,4) x(1)] by blast
  with x show ?thesis by (simp add: count_block_def)
qed

lemma published_inv:
  assumes inv: "system_inv n s ess es" and i: "i < length (vs_captures s)"
    and h: "rb_holds n (ctx_rb ctx') (map event_bytes (ess ! i @ fs)) 0" "\<forall>e\<in>set fs. good_event e"
  shows "system_inv n (s\<lparr>vs_captures := (vs_captures s)[i := ctx'], vs_published := vs_published s @ fs\<rparr>)
    (ess[i := ess ! i @ fs]) es"
proof -
  let ?ess = "ess[i := ess ! i @ fs]"
  have len: "i < length ess" and good: "\<forall>e\<in>set (ess ! i). good_event e"
    using inv i by (auto simp: system_inv_def list_all2_conv_all_nth)
  have "(\<Sum>es\<leftarrow>?ess. mset es) = mset fs + (\<Sum>es\<leftarrow>ess. mset es)"
    using len by (simp add: mset_replace mset_update [of i ess] ac_simps)
  moreover have "list_all2 (\<lambda>ctx es. rb_holds n (ctx_rb ctx) (map event_bytes es) 0 \<and> (\<forall>e\<in>set es. good_event e))
      ((vs_captures s)[i := ctx']) ?ess"
    using inv h good by (intro list_all2_update_cong) (auto simp: system_inv_def)
  ultimately show ?thesis using inv by (simp add: system_inv_def ac_simps)
qed

lemma system_step_inv:
  assumes step: "system_step s t" and inv: "system_inv n s ess es"
  shows "\<exists>ess' es'. system_inv n t ess' es'"
  using step
proof cases
  case (message_captured i ctx m tv_sec tv_nsec ctx')
  have h: "rb_holds n (ctx_rb ctx) (map event_bytes (ess ! i)) 0"
    using inv message_captured(2,3) by (auto simp: system_inv_def list_all2_conv_all_nth)
  from deliver_outcome [OF message_captured(4) h, of tv_sec tv_nsec] message_captured(5)
    published_inv [OF inv message_captured(2)] show ?thesis unfolding message_captured(1) by auto
next
  case (block_captured i ctx b out ctx')
  have h: "rb_holds n (ctx_rb ctx) (map event_bytes (ess ! i)) 0"
    using inv block_captured(2,3) by (auto simp: system_inv_def list_all2_conv_all_nth)
  from block_outcome [OF block_captured(4) h] block_captured(5)
    published_inv [OF inv block_captured(2)] show ?thesis unfolding block_captured(1) by auto
next
  case (ring_drained_by i ctx limit rb table histogram)
  let ?ess = "ess[i := drop limit (ess ! i)]" and ?new = "take limit (ess ! i)"
  have len: "i < length ess" and h: "rb_holds n (ctx_rb ctx) (map event_bytes (ess ! i)) 0"
      "\<forall>e\<in>set (ess ! i). good_event e"
    using inv ring_drained_by(2,3) by (auto simp: system_inv_def list_all2_conv_all_nth)
  have T: "good_table (vs_table s)" "(vs_table s, vs_histogram s) = match_all Map.empty es"
    using inv by (simp_all add: system_inv_def)
  have app: "foldl (\<lambda>h x. h @ [x]) hs ls = hs @ ls" for hs ls :: "int list" by (induction ls arbitrary: hs) simp_all
  from drain_ring_events [OF h(1,2) T(1), of "\<lambda>h x. h @ [x]" limit "vs_histogram s"] ring_drained_by(4)
  have d: "table = fst (match_all (vs_table s) ?new)" "histogram = vs_histogram s @ snd (match_all (vs_table s) ?new)"
    "rb_holds n rb (map event_bytes (drop limit (ess ! i))) 0" "good_table table" by (auto simp: app)
  have m: "(table, histogram) = match_all Map.empty (es @ ?new)"
    using T(2) d(1,2) by (simp add: match_all_append split_beta Let_def prod_eq_iff)
  have "mset ?new + mset (drop limit (ess ! i)) = mset (ess ! i)" by (metis append_take_drop_id mset_append)
  then have "mset es + (\<Sum>es\<leftarrow>ess. mset es) = mset (es @ ?new) + (\<Sum>es\<leftarrow>?ess. mset es)"
    using len by (simp add: mset_replace mset_update [of i ess] ac_simps)
  moreover have "list_all2 (\<lambda>ctx es. rb_holds n (ctx_rb ctx) (map event_bytes es) 0 \<and> (\<forall>e\<in>set es. good_event e))
      ((vs_captures s)[i := ctx\<lparr>ctx_rb := rb\<rparr>]) ?ess"
    using inv h d(3) by (intro list_all2_update_cong) (auto simp: system_inv_def dest: in_set_dropD)
  ultimately have "system_inv n t ?ess (es @ ?new)"
    using inv m d(4) by (simp add: system_inv_def ring_drained_by(1))
  then show ?thesis by blast
qed

lemma system_reach_inv: "system_reach n s \<Longrightarrow> \<exists>ess es. system_inv n s ess es"
proof (induction rule: system_reach.induct)
  case (system_init s)
  let ?ess = "replicate (length (vs_captures s)) ([] :: event list)"
  have "(\<Sum>es\<leftarrow>?ess. mset es) = {#}" by (rule mset_of_empty) simp
  with system_init have "system_inv n s ?ess []"
    by (simp add: system_inv_def system_start_def list_all2_conv_all_nth good_table_empty)
  then show ?case by blast
next
  case (system_more s t)
  then show ?case using system_step_inv by blast
qed


subsection \<open>Property\<close>

text \<open>
  C28: any number of capture threads, each with its ring, and the latency thread run in any interleaving, the
  summaries of a request and of its response in different rings perhaps and taken in any order. In every state a
  capture thread handles a next block that carries on its streams (\<open>block_carries\<close>) without a fault, whether or not its
  ring is full, and the latency thread drains every ring without one; and when the rings are empty and the summaries published so far are those of pairs
  with distinct keys, the latency thread has recorded exactly one latency per pair, the time between the two
  messages, and keeps no entry. A block carries on the streams when the segments of its TCP frames for the port are the next ones of streams of good messages
  that can be read, not cut as in C16, and the headers of these frames are well formed and tell their lengths; C16, C18
  and C33 say what happens otherwise.
\<close>
theorem system_latencies:
  assumes reach: "system_reach n s"
  shows "(\<forall>ctx\<in>set (vs_captures s). block_carries ctx b out \<longrightarrow> (\<exists>ctx'. walk_block ctx b = Inr ctx')) \<and>
    (\<forall>ctx\<in>set (vs_captures s). \<exists>r. drain_ring (\<lambda>h x. h @ [x]) MAX_POLLS (ctx_rb ctx) (vs_table s, vs_histogram s) = Inr r) \<and>
    ((\<forall>ctx\<in>set (vs_captures s). fst (vmars_spsc_rb_poll (ctx_rb ctx)) = None) \<and>
       mset (vs_published s) = mset (pair_events ps) \<and> paired ps \<longrightarrow>
     vs_table s = Map.empty \<and> mset (vs_histogram s) = mset (map (\<lambda>(a, b). latency_of (snd a) (snd b)) ps))"
proof (intro conjI ballI impI)
  obtain ess es where inv: "system_inv n s ess es" using system_reach_inv [OF reach] by blast
  have rings: "\<exists>es. rb_holds n (ctx_rb ctx) (map event_bytes es) 0 \<and> (\<forall>e\<in>set es. good_event e)"
    if "ctx \<in> set (vs_captures s)" for ctx
    using inv that by (auto simp: system_inv_def list_all2_conv_all_nth in_set_conv_nth)
  show "\<exists>ctx'. walk_block ctx b = Inr ctx'" if "ctx \<in> set (vs_captures s)" "block_carries ctx b out" for ctx
    using block_outcome [OF that(2)] rings [OF that(1)] by blast
  show "\<exists>r. drain_ring (\<lambda>h x. h @ [x]) MAX_POLLS (ctx_rb ctx) (vs_table s, vs_histogram s) = Inr r"
    if ctx: "ctx \<in> set (vs_captures s)" for ctx
  proof -
    obtain fs where fs: "rb_holds n (ctx_rb ctx) (map event_bytes fs) 0" "\<forall>e\<in>set fs. good_event e"
      using rings [OF ctx] by blast
    have "good_table (vs_table s)" using inv by (simp add: system_inv_def)
    from drain_max [OF fs this, of "\<lambda>h x. h @ [x]" "vs_histogram s"] show ?thesis by blast
  qed
  assume fin: "(\<forall>ctx\<in>set (vs_captures s). fst (vmars_spsc_rb_poll (ctx_rb ctx)) = None) \<and>
       mset (vs_published s) = mset (pair_events ps) \<and> paired ps"
  have "ess ! i = []" if "i < length ess" for i
  proof -
    have i: "i < length (vs_captures s)" "rb_holds n (ctx_rb (vs_captures s ! i)) (map event_bytes (ess ! i)) 0"
      using inv that by (auto simp: system_inv_def list_all2_conv_all_nth)
    have "fst (vmars_spsc_rb_poll (ctx_rb (vs_captures s ! i))) = None" using fin i(1) by simp
    then show ?thesis using poll_ok [OF i(2)] by (auto split: if_splits)
  qed
  then have "\<forall>es\<in>set ess. es = []" by (metis in_set_conv_nth)
  then have "(\<Sum>es\<leftarrow>ess. mset es) = {#}" by (rule mset_of_empty)
  then have es: "mset es = mset (pair_events ps)" using inv fin by (simp add: system_inv_def)
  have m: "(vs_table s, vs_histogram s) = match_all Map.empty es" using inv by (simp add: system_inv_def)
  from match_all_pairs [OF es] fin show "vs_table s = Map.empty"
    "mset (vs_histogram s) = mset (map (\<lambda>(a, b). latency_of (snd a) (snd b)) ps)" by (simp_all flip: m)
qed


text \<open>Two capture threads: the first captures the report, the second the order; then both rings are drained.\<close>

definition sample_system :: vmars_system where
  "sample_system = \<lparr>vs_captures = [sample_ctx, sample_ctx], vs_table = Map.empty, vs_histogram = [], vs_published = []\<rparr>"

lemma captured_step:
  assumes "i < length (vs_captures s)" and "rb_holds n (ctx_rb (vs_captures s ! i)) [] 0" and "measured m"
    and "rec_size (event_bytes (message_event tv_sec tv_nsec m)) \<le> 2 ^ n"
  shows "\<exists>ctx'. system_step s (s\<lparr>vs_captures := (vs_captures s)[i := ctx'],
      vs_published := vs_published s @ [message_event tv_sec tv_nsec m]\<rparr>) \<and>
    rb_holds n (ctx_rb ctx') (map event_bytes [message_event tv_sec tv_nsec m]) 0"
proof -
  have u: "understood m" using assms(3) by (auto simp: understood_def measured_def)
  have e: "packet_events (tv_sec, tv_nsec, [m]) = [message_event tv_sec tv_nsec m]"
    using assms(3) by (simp add: packet_events_def)
  have h: "rb_holds n (ctx_rb (vs_captures s ! i)) (map event_bytes []) 0" using assms(2) by simp
  obtain x where x: "deliver tv_sec tv_nsec m (vs_captures s ! i) = Inr x"
      "rb_holds n (ctx_rb x) (map event_bytes [message_event tv_sec tv_nsec m]) 0"
    using deliver_event [OF u h, of tv_sec tv_nsec] assms(4) by (auto simp: e)
  have "tail_position (ctx_rb x) \<noteq> tail_position (ctx_rb (vs_captures s ! i))"
    using tail_moves [OF assms(2), of "ctx_rb x"] x(2) deliver_head [OF x(1)] by simp
  with message_captured [OF assms(1) refl u x(1)] x(2) show ?thesis by (auto simp: published_by_def)
qed

lemma drained_step:
  assumes "i < length (vs_captures s)" and "rb_holds n (ctx_rb (vs_captures s ! i)) (map event_bytes [e]) 0"
    and "good_event e" and "good_table (vs_table s)"
  shows "\<exists>rb table histogram. system_step s (s\<lparr>vs_captures := (vs_captures s)[i := (vs_captures s ! i)\<lparr>ctx_rb := rb\<rparr>],
      vs_table := table, vs_histogram := histogram\<rparr>) \<and> rb_holds n rb [] 0 \<and> good_table table"
  using drain_ring_events [OF assms(2) _ assms(4), of "\<lambda>h x. h @ [x]" 1 "vs_histogram s"] assms(3)
    ring_drained_by [OF assms(1) refl, of 1] by fastforce

lemma sample_system_run:
  "\<exists>s. system_reach 12 s \<and> (\<forall>ctx\<in>set (vs_captures s). rb_holds 12 (ctx_rb ctx) [] 0) \<and> length (vs_captures s) = 2 \<and>
     vs_published s = stream_events sample_out"
proof -
  let ?report = "message_event 102 9 report_message" and ?order = "message_event 101 7 order_message"
  have m: "measured report_message" "measured order_message" using sample_understood by (simp_all add: sample_out_def)
  have ev: "stream_events sample_out = [?report, ?order]"
    using m by (simp add: sample_out_def packet_events_def)
  have size: "rec_size (event_bytes ?report) \<le> 2 ^ 12" "rec_size (event_bytes ?order) \<le> 2 ^ 12"
    using sample_events_fit by (simp_all add: ev)
  have good: "good_event ?report" "good_event ?order" using m by (simp_all add: message_event_good)
  have r0: "system_reach 12 sample_system"
    by (rule system_init) (simp add: system_start_def sample_system_def sample_ctx_ring)
  obtain c0 where c0: "system_step sample_system (sample_system\<lparr>vs_captures := [c0, sample_ctx], vs_published := [?report]\<rparr>)"
      "rb_holds 12 (ctx_rb c0) (map event_bytes [?report]) 0"
    using captured_step [of 0 sample_system 12 report_message 102 9] m(1) size(1) sample_ctx_ring
    by (auto simp: sample_system_def)
  let ?s1 = "sample_system\<lparr>vs_captures := [c0, sample_ctx], vs_published := [?report]\<rparr>"
  obtain c1 where c1: "system_step ?s1 (?s1\<lparr>vs_captures := [c0, c1], vs_published := [?report, ?order]\<rparr>)"
      "rb_holds 12 (ctx_rb c1) (map event_bytes [?order]) 0"
    using captured_step [of 1 ?s1 12 order_message 101 7] m(2) size(2) sample_ctx_ring by auto
  let ?s2 = "?s1\<lparr>vs_captures := [c0, c1], vs_published := [?report, ?order]\<rparr>"
  obtain rb0 T0 h0 where d0: "system_step ?s2 (?s2\<lparr>vs_captures := [c0\<lparr>ctx_rb := rb0\<rparr>, c1], vs_table := T0, vs_histogram := h0\<rparr>)"
      "rb_holds 12 rb0 [] 0" "good_table T0"
    using drained_step [of 0 ?s2 12 ?report] c0(2) good(1) good_table_empty by (auto simp: sample_system_def)
  let ?s3 = "?s2\<lparr>vs_captures := [c0\<lparr>ctx_rb := rb0\<rparr>, c1], vs_table := T0, vs_histogram := h0\<rparr>"
  obtain rb1 T1 h1 where d1: "system_step ?s3 (?s3\<lparr>vs_captures := [c0\<lparr>ctx_rb := rb0\<rparr>, c1\<lparr>ctx_rb := rb1\<rparr>],
      vs_table := T1, vs_histogram := h1\<rparr>)" "rb_holds 12 rb1 [] 0"
    using drained_step [of 1 ?s3 12 ?order] c1(2) good(2) d0(3) by auto
  from system_more [OF system_more [OF system_more [OF system_more [OF r0 c0(1)] c1(1)] d0(1)] d1(1)] d0(2) d1(2)
  show ?thesis by (intro exI conjI) (auto simp: ev)
qed

theorem system_latencies_witness:
  "\<exists>s. system_reach 12 s \<and> length (vs_captures s) = 2 \<and> vs_table s = Map.empty \<and> vs_histogram s = [1000000002]"
proof -
  let ?rsp = "(bytes_of ''A|BB|X1|Y'', \<lparr>lr_msg_type = 56, lr_tv_sec = 102, lr_tv_nsec = 9\<rparr>)"
  let ?req = "(bytes_of ''A|BB|X1|Y'', \<lparr>lr_msg_type = 68, lr_tv_sec = 101, lr_tv_nsec = 7\<rparr>)"
  have pair: "paired [(?req, ?rsp)]" "latency_of (snd ?req) (snd ?rsp) = 1000000002"
    by (simp_all add: paired_def complements_def is_complement_def msg_types trace_types latency_of_def
        is_begin_def elapsed_def)
  obtain s where s: "system_reach 12 s" "\<forall>ctx\<in>set (vs_captures s). rb_holds 12 (ctx_rb ctx) [] 0"
      "length (vs_captures s) = 2" "vs_published s = stream_events sample_out"
    using sample_system_run by blast
  have m: "mset (vs_published s) = mset (pair_events [(?req, ?rsp)])"
    by (simp add: s(4) sample_stream_events pair_events_def)
  have "\<forall>ctx\<in>set (vs_captures s). fst (vmars_spsc_rb_poll (ctx_rb ctx)) = None"
    using s(2) poll_ok [where rs = "[]"] by fastforce
  with system_latencies [OF s(1), where ps = "[(?req, ?rsp)]"] m pair s(1,3) show ?thesis by auto
qed

end
