(* ===== verification/Main_Config.thy ===== *)
theory Main_Config
  imports Spsc_Ring
begin

text \<open>
  The start of the program, \<^verbatim>\<open>src/main.c\<close> with the types of \<^verbatim>\<open>src/common.h\<close>: the options, their checks, and
  the contexts of the capture threads. The pairs that \<open>getopt_long\<close> returns (\<^verbatim>\<open>Command_Line\<close>) are a list of option characters
  with their arguments; a string is its bytes in front of its NUL. The threads themselves are in
  \<^verbatim>\<open>Vmars_Threads\<close>; the printing of messages is not modelled.
\<close>

subsection \<open>Configuration\<close>

record vmars_config =
  udp_host :: "byte list option"
  udp_port :: int
  capture_port :: int
  interfaces :: "byte list option"
  num_threads :: int
  affinity :: "byte list"
  use_hw_timestamps :: int

definition set_default_config :: vmars_config where
  "set_default_config = \<lparr>udp_host = None, udp_port = 0, capture_port = 0, interfaces = None, num_threads = 0,
     affinity = [], use_hw_timestamps = 0\<rparr>"

text \<open>The outcome of the start: a fault, an exit with a failure, or a value.\<close>

datatype 'a outcome = Exit | Go 'a

abbreviation atoi :: "byte list \<Rightarrow> int res" where
  "atoi s \<equiv> c_atoi (s @ [0])"

text \<open>The \<open>switch\<close>; the case of \<open>'a'\<close> has no \<open>break\<close> and goes on with the case of \<open>'c'\<close>.\<close>

definition apply_option :: "vmars_config \<Rightarrow> char \<times> byte list \<Rightarrow> vmars_config outcome res" where
  "apply_option config oa =
     (let (opt, optarg) = oa in
      if opt = CHR ''i'' then Inr (Go (config\<lparr>interfaces := Some optarg\<rparr>))
      else if opt = CHR ''t'' then and_then (atoi optarg) (\<lambda>n. Inr (Go (config\<lparr>num_threads := n\<rparr>)))
      else if opt = CHR ''a'' then
        (let config1 = config\<lparr>affinity := optarg\<rparr> in
         and_then (atoi optarg) (\<lambda>n. Inr (Go (config1\<lparr>capture_port := n\<rparr>))))
      else if opt = CHR ''c'' then and_then (atoi optarg) (\<lambda>n. Inr (Go (config\<lparr>capture_port := n\<rparr>)))
      else if opt = CHR ''h'' then Inr (Go (config\<lparr>udp_host := Some optarg\<rparr>))
      else if opt = CHR ''p'' then and_then (atoi optarg) (\<lambda>n. Inr (Go (config\<lparr>udp_port := n\<rparr>)))
      else if opt = CHR ''H'' then Inr (Go (config\<lparr>use_hw_timestamps := 1\<rparr>))
      else Inr Exit)"

fun apply_options :: "vmars_config \<Rightarrow> (char \<times> byte list) list \<Rightarrow> vmars_config outcome res" where
  "apply_options config [] = Inr (Go config)"
| "apply_options config (oa # oas) =
     and_then (apply_option config oa) (\<lambda>r. case r of Exit \<Rightarrow> Inr Exit | Go c \<Rightarrow> apply_options c oas)"

definition validate_config :: "vmars_config \<Rightarrow> vmars_config outcome" where
  "validate_config config =
     (if num_threads config < 1 then Exit
      else if interfaces config = None then Exit
      else if -1 = capture_port config then Exit
      else if udp_host config = None then Exit
      else if 0 = udp_port config then Exit
      else Go config)"

subsection \<open>Lists of names\<close>

definition COMMA :: byte where "COMMA = 44"

text \<open>One call of \<open>strtok (s, ",")\<close>: the token and the rest of the string.\<close>

definition strtok :: "byte list \<Rightarrow> (byte list \<times> byte list) option" where
  "strtok s = (let t = dropWhile (\<lambda>c. c = COMMA) s in
     if t = [] then None else Some (takeWhile (\<lambda>c. c \<noteq> COMMA) t, drop 1 (dropWhile (\<lambda>c. c \<noteq> COMMA) t)))"

lemma strtok_shorter: "strtok s = Some (t, r) \<Longrightarrow> length r < length s"
proof -
  assume a: "strtok s = Some (t, r)"
  let ?t = "dropWhile (\<lambda>c. c = COMMA) s"
  have "?t \<noteq> []" "r = drop 1 (dropWhile (\<lambda>c. c \<noteq> COMMA) ?t)" using a by (auto simp: strtok_def Let_def split: if_splits)
  moreover have "length (drop 1 (dropWhile (\<lambda>c. c \<noteq> COMMA) ?t)) \<le> length ?t - 1"
    using length_dropWhile_le[of "\<lambda>c. c \<noteq> COMMA" ?t] by simp
  moreover have "length ?t \<le> length s" by (rule length_dropWhile_le)
  ultimately show ?thesis by (cases ?t) auto
qed

function count_tokens :: "nat \<Rightarrow> byte list \<Rightarrow> nat" where
  "count_tokens n s = (case strtok s of None \<Rightarrow> n | Some (token, r) \<Rightarrow> count_tokens (n + 1) r)"
  by auto
termination
  by (relation "measure (\<lambda>(n, s). length s)") (auto dest: strtok_shorter)

function store_tokens :: "byte list list \<Rightarrow> nat \<Rightarrow> byte list \<Rightarrow> byte list list res" where
  "store_tokens strings i s =
     (case strtok s of
        None \<Rightarrow> Inr strings
      | Some (token, r) \<Rightarrow>
          if i < length strings then store_tokens (strings[i := token]) (i + 1) r else Inl OutOfBounds)"
  by auto
termination
  by (relation "measure (\<lambda>(strings, i, s). length s)") (auto dest: strtok_shorter)

declare count_tokens.simps [simp del] store_tokens.simps [simp del]

record vmars_str_vec =
  vec_strings :: "byte list list"
  vec_len :: nat

text \<open>
  The first pass counts the tokens, the second stores them in a vector of this size. The string is an argument of the
  program, far too short for its tokens to overflow the \<open>int\<close> that counts them; \<open>strdup\<close> and \<open>malloc\<close> succeed.
\<close>

definition split_string :: "byte list \<Rightarrow> vmars_str_vec res" where
  "split_string s =
     (let n = count_tokens 0 s in
      and_then (store_tokens (replicate n []) 0 s) (\<lambda>strings. Inr \<lparr>vec_strings = strings, vec_len = n\<rparr>))"

text \<open>
  \<open>strtol (s, &endptr, 10)\<close>, which saturates: its value and what is left of the string; without a digit
  this is all of the string.
\<close>

definition strtol :: "byte list \<Rightarrow> int \<times> byte list" where
  "strtol s =
     (let t = skip_space s;
          (neg, u) = (case t of [] \<Rightarrow> (False, []) | c # t' \<Rightarrow> if c = 45 then (True, t') else if c = 43 then (False, t') else (False, t));
          ds = takeWhile is_digit u;
          v = num_value 0 ds in
      if ds = [] then (0, s)
      else (max (- (2 ^ 63)) (min (2 ^ 63 - 1) (if neg then - v else v)), dropWhile is_digit u))"

definition parse_cpu_id :: "byte list \<Rightarrow> int" where
  "parse_cpu_id s =
     (let (cpu_id, endptr) = strtol s in
      if endptr \<noteq> [] then -1 else sint (word_of_int cpu_id :: 32 word))"

subsection \<open>The capture threads\<close>

record thread_context =
  tc_thread_num :: int
  tc_fanout_id :: int
  tc_interface :: "byte list"
  tc_port :: int
  tc_rb :: vmars_spsc_rb
  tc_cpu_num :: int

text \<open>
  What the system gives: whether the \<open>calloc\<close> of each of the four vectors over all threads succeeds, and for the thread
  of an index, whether the \<open>calloc\<close> of its ring, the mapping of the ring's buffer and the \<open>calloc\<close> of its descriptor do.
\<close>

datatype main_vector = Polling_Threads | Thread_Contexts | Ring_Buffers | Counters

record system =
  sys_pagesize :: size_word
  sys_calloc :: "main_vector \<Rightarrow> bool"
  sys_ring :: "int \<Rightarrow> bool"
  sys_mapped :: "int \<Rightarrow> bool"
  sys_descriptor :: "int \<Rightarrow> bool"

text \<open>A store to the element \<open>idx\<close> of a vector of \<open>len\<close> elements; the results of these calls of \<open>calloc\<close> are not looked at.\<close>

definition vector_store :: "system \<Rightarrow> main_vector \<Rightarrow> int \<Rightarrow> int \<Rightarrow> unit res" where
  "vector_store sys v len idx = (if sys_calloc sys v \<and> 0 \<le> idx \<and> idx < len then Inr () else Inl OutOfBounds)"

definition zero_ring :: vmars_spsc_rb where
  "zero_ring = \<lparr>rb_buffer = [], rb_capacity = 0, tail_cache_position = 0, tail_position = 0,
     head_cache_position = 0, head_position = 0\<rparr>"

text \<open>The body of the loop over the threads of an interface; \<open>pthread_create\<close> stores the identifier of the thread.\<close>

definition setup_thread ::
    "system \<Rightarrow> vmars_config \<Rightarrow> int \<Rightarrow> vmars_str_vec \<Rightarrow> vmars_str_vec \<Rightarrow> nat \<Rightarrow> nat \<Rightarrow> thread_context outcome res" where
  "setup_thread sys config total_threads ifs aff j i =
     and_then (c_read (vec_strings ifs) (int j)) (\<lambda>interface.
     and_then (c_int (int j * num_threads config)) (\<lambda>base.
     and_then (c_int (base + int i)) (\<lambda>idx.
     and_then (if i < vec_len aff
               then and_then (c_read (vec_strings aff) (int i)) (\<lambda>s. Inr (parse_cpu_id s)) else Inr (-1)) (\<lambda>cpu_id.
     and_then (vector_store sys Thread_Contexts total_threads idx) (\<lambda>u.
     and_then (c_int (int j + 1)) (\<lambda>j1.
     and_then (c_int (1111 * j1)) (\<lambda>fanout_id.
     if \<not> sys_ring sys idx then Inr Exit
     else
       let (code, rb) = vmars_spsc_rb_init (sys_pagesize sys) (sys_mapped sys idx) (sys_descriptor sys idx) zero_ring 4096 in
       if code < 0 then Inr Exit
       else
         and_then (vector_store sys Ring_Buffers total_threads idx) (\<lambda>u.
         and_then (vector_store sys Counters total_threads idx) (\<lambda>u.
         and_then (vector_store sys Polling_Threads total_threads idx) (\<lambda>u.
           Inr (Go \<lparr>tc_thread_num = idx, tc_fanout_id = fanout_id, tc_interface = interface,
                     tc_port = capture_port config, tc_rb = rb, tc_cpu_num = cpu_id\<rparr>)))))))))))"

text \<open>The two loops, as the list of the bodies in their order.\<close>

fun run_setups :: "'a outcome res list \<Rightarrow> 'a list outcome res" where
  "run_setups [] = Inr (Go [])"
| "run_setups (m # ms) =
     and_then m (\<lambda>r. case r of
       Exit \<Rightarrow> Inr Exit
     | Go x \<Rightarrow> and_then (run_setups ms) (\<lambda>q. case q of Exit \<Rightarrow> Inr Exit | Go xs \<Rightarrow> Inr (Go (x # xs))))"

definition setup_threads :: "system \<Rightarrow> vmars_config \<Rightarrow> thread_context list outcome res" where
  "setup_threads sys config =
     and_then (case interfaces config of None \<Rightarrow> Inl OutOfBounds | Some s \<Rightarrow> split_string s) (\<lambda>ifs.
     and_then (split_string (affinity config)) (\<lambda>aff.
     and_then (c_int (int (vec_len ifs) * num_threads config)) (\<lambda>total_threads.
     run_setups (concat (map (\<lambda>j. map (setup_thread sys config total_threads ifs aff j) [0..<nat (num_threads config)])
       [0..<vec_len ifs])))))"

definition main_setup :: "system \<Rightarrow> (char \<times> byte list) list \<Rightarrow> thread_context list outcome res" where
  "main_setup sys oas =
     and_then (apply_options set_default_config oas) (\<lambda>r.
       case r of
         Exit \<Rightarrow> Inr Exit
       | Go config \<Rightarrow>
           (case validate_config config of
              Exit \<Rightarrow> Inr Exit
            | Go c \<Rightarrow> setup_threads sys c))"

subsection \<open>Splitting\<close>

text \<open>The names of a list: not empty and without a comma; the list with commas between them.\<close>

definition list_name :: "byte list \<Rightarrow> bool" where
  "list_name t \<longleftrightarrow> t \<noteq> [] \<and> COMMA \<notin> set t"

fun join_names :: "byte list list \<Rightarrow> byte list" where
  "join_names [] = []"
| "join_names [t] = t"
| "join_names (t # ts) = t @ COMMA # join_names ts"

function tokens :: "byte list \<Rightarrow> byte list list" where
  "tokens s = (case strtok s of None \<Rightarrow> [] | Some (t, r) \<Rightarrow> t # tokens r)"
  by auto
termination
  by (relation "measure length") (auto dest: strtok_shorter)

declare tokens.simps [simp del]

lemma count_tokens_length: "count_tokens n s = n + length (tokens s)"
  by (induction n s rule: count_tokens.induct)
     (subst count_tokens.simps, subst tokens.simps, auto split: option.split)

lemma store_tokens_vector:
  "length strings = i + length (tokens s) \<Longrightarrow> store_tokens strings i s = Inr (take i strings @ tokens s)"
proof (induction strings i s rule: store_tokens.induct)
  case (1 strings i s)
  show ?case
  proof (cases "strtok s")
    case None
    with 1(2) show ?thesis by (subst store_tokens.simps, subst tokens.simps) (simp add: tokens.simps[of s])
  next
    case (Some tr)
    obtain t r where tr: "tr = (t, r)" by (cases tr)
    have tok: "tokens s = t # tokens r" using Some tr by (simp add: tokens.simps[of s])
    have i: "i < length strings" and len: "length (strings[i := t]) = i + 1 + length (tokens r)"
      using 1(2) tok by simp_all
    have "store_tokens strings i s = store_tokens (strings[i := t]) (i + 1) r"
      using Some tr i by (subst store_tokens.simps) simp
    also have "\<dots> = Inr (take (i + 1) (strings[i := t]) @ tokens r)"
      using "1.IH"[OF Some tr[symmetric] i len] by simp
    also have "take (i + 1) (strings[i := t]) = take i strings @ [t]"
      using i by (simp add: take_Suc_conv_app_nth)
    finally show ?thesis using tok by simp
  qed
qed

lemma split_string_tokens: "split_string s = Inr \<lparr>vec_strings = tokens s, vec_len = length (tokens s)\<rparr>"
  using store_tokens_vector[of "replicate (length (tokens s)) []" 0 s]
  by (simp add: split_string_def count_tokens_length)

lemma strtok_name: "list_name t \<Longrightarrow> strtok (t @ COMMA # s) = Some (t, s) \<and> strtok t = Some (t, [])"
proof -
  assume t: "list_name t"
  then obtain c u where c: "t = c # u" "c \<noteq> COMMA" by (cases t) (auto simp: list_name_def)
  then have d: "dropWhile (\<lambda>c. c = COMMA) (t @ x) = t @ x" for x by simp
  have "\<And>x. x \<in> set t \<Longrightarrow> x \<noteq> COMMA" using t by (auto simp: list_name_def)
  then have w: "takeWhile (\<lambda>c. c \<noteq> COMMA) (t @ COMMA # s) = t" "dropWhile (\<lambda>c. c \<noteq> COMMA) (t @ COMMA # s) = COMMA # s"
    "takeWhile (\<lambda>c. c \<noteq> COMMA) t = t" "dropWhile (\<lambda>c. c \<noteq> COMMA) t = []"
    by (simp_all add: takeWhile_append2 dropWhile_append2 takeWhile_eq_all_conv dropWhile_eq_Nil_conv)
  show ?thesis using d[of "COMMA # s"] d[of "[]"] w c(1) by (simp add: strtok_def Let_def)
qed

lemma tokens_join: "\<forall>t\<in>set ts. list_name t \<Longrightarrow> tokens (join_names ts) = ts"
proof (induction ts rule: join_names.induct)
  case 1
  then show ?case by (subst tokens.simps) (simp add: strtok_def)
next
  case (2 t)
  have "tokens [] = []" by (subst tokens.simps) (simp add: strtok_def)
  with 2 strtok_name[of t "[]"] show ?case by (subst tokens.simps) simp
next
  case (3 t u ts)
  with strtok_name[of t "join_names (u # ts)"] show ?case by (subst tokens.simps) simp
qed

subsection \<open>The threads of a configuration\<close>

definition context_of :: "system \<Rightarrow> vmars_config \<Rightarrow> byte list list \<Rightarrow> byte list list \<Rightarrow> nat \<Rightarrow> nat \<Rightarrow> thread_context" where
  "context_of sys config ifs aff j i = (let idx = int j * num_threads config + int i in
     \<lparr>tc_thread_num = idx, tc_fanout_id = 1111 * (int j + 1), tc_interface = ifs ! j, tc_port = capture_port config,
      tc_rb = snd (vmars_spsc_rb_init (sys_pagesize sys) (sys_mapped sys idx) (sys_descriptor sys idx) zero_ring 4096),
      tc_cpu_num = (if i < length aff then parse_cpu_id (aff ! i) else -1)\<rparr>)"

lemma init_code: "\<not> fst (vmars_spsc_rb_init pagesize mapped allocated rb capacity) < 0"
  by (simp add: vmars_spsc_rb_init_def EINVAL_def ENOMEM_def Let_def)

lemma thread_index:
  assumes "j < n" and "i < t" and "int n * int t < 2 ^ 31"
  shows "int j * int t + int i < int n * int t" and "int j * int t < 2 ^ 31" and "int j * int t + int i < 2 ^ 31"
proof -
  have "(int j + 1) * int t \<le> int n * int t" using assms(1) by (intro mult_right_mono) simp_all
  then show "int j * int t + int i < int n * int t" using assms(2) by (simp add: algebra_simps)
  then show "int j * int t < 2 ^ 31" "int j * int t + int i < 2 ^ 31" using assms(3) by linarith+
qed

lemma c_int_nonneg: "0 \<le> x \<Longrightarrow> x < 2 ^ 31 \<Longrightarrow> c_int x = Inr x"
  by (simp add: c_int_def)

text \<open>The vectors of \<open>main\<close> when all memory for them is there, and one thread.\<close>

lemma setup_thread_eq:
  assumes j: "j < length ifs" and i: "i < t" and fits: "int (length ifs) * int t < 2 ^ 31" "1111 * int (length ifs) < 2 ^ 31"
    and n: "num_threads config = int t" and idx: "idx = int j * int t + int i"
  shows "setup_thread sys config (int (length ifs) * int t) \<lparr>vec_strings = ifs, vec_len = length ifs\<rparr>
      \<lparr>vec_strings = aff, vec_len = length aff\<rparr> j i =
    (if \<not> sys_calloc sys Thread_Contexts then Inl OutOfBounds
     else if \<not> sys_ring sys idx then Inr Exit
     else if \<exists>v. \<not> sys_calloc sys v then Inl OutOfBounds
     else Inr (Go (context_of sys config ifs aff j i)))"
proof -
  note b = thread_index[OF j i fits(1)]
  have ints: "c_int (int j * int t) = Inr (int j * int t)" "c_int idx = Inr idx"
    "c_int (int j + 1) = Inr (int j + 1)" "c_int (1111 * int j + 1111) = Inr (1111 * int j + 1111)"
    using b j fits(2) by (simp_all add: c_int_nonneg idx)
  have store: "vector_store sys v (int (length ifs) * int t) idx = (if sys_calloc sys v then Inr () else Inl OutOfBounds)" for v
    using b(1) by (simp add: vector_store_def idx)
  have vs: "(\<exists>v. \<not> sys_calloc sys v) \<longleftrightarrow> \<not> sys_calloc sys Thread_Contexts \<or> \<not> sys_calloc sys Ring_Buffers \<or>
      \<not> sys_calloc sys Counters \<or> \<not> sys_calloc sys Polling_Threads" by (metis main_vector.exhaust)
  obtain code rb where rb: "vmars_spsc_rb_init (sys_pagesize sys) (sys_mapped sys idx) (sys_descriptor sys idx) zero_ring 4096 = (code, rb)"
    by (rule prod.exhaust)
  then have "\<not> code < 0" using init_code by (metis fst_conv)
  then show ?thesis unfolding vs
    using j rb by (simp add: setup_thread_def n ints store c_read_def context_of_def flip: idx)
qed

lemma run_setups_map:
  "run_setups (map (\<lambda>x. Inr (if ok x then Go (f x) else Exit)) xs) = Inr (if \<forall>x\<in>set xs. ok x then Go (map f xs) else Exit)"
  by (induction xs) simp_all

lemma nth_product_upt: "j < n \<Longrightarrow> i < t \<Longrightarrow> List.product [0..<n] [0..<t] ! (j * t + i) = (j, i)"
proof -
  assume j: "j < n" and i: "i < t"
  then have "(j + 1) * t \<le> n * t" by (intro mult_le_mono1) simp
  then have "j * t + i < n * t" using i by simp
  with i j show ?thesis by (simp add: product_nth)
qed

text \<open>The indices of the threads are the numbers below that of all threads.\<close>

lemma all_thread_indices:
  assumes t: "0 < t" and fits: "int n * int t < 2 ^ 31"
  shows "(\<forall>x\<in>set (List.product [0..<n] [0..<t]). case x of (j, i) \<Rightarrow> P (int j * int t + int i)) \<longleftrightarrow>
    (\<forall>k<n * t. P (int k))"
proof
  assume a: "\<forall>x\<in>set (List.product [0..<n] [0..<t]). case x of (j, i) \<Rightarrow> P (int j * int t + int i)"
  show "\<forall>k<n * t. P (int k)"
  proof (intro allI impI)
    fix k assume "k < n * t"
    then have "k div t < n" "k mod t < t" using t by (simp_all add: less_mult_imp_div_less)
    then have "P (int (k div t) * int t + int (k mod t))" using a by auto
    then show "P (int k)" by (simp flip: of_nat_mult of_nat_add)
  qed
next
  assume a: "\<forall>k<n * t. P (int k)"
  have "P (int j * int t + int i)" if "j < n" "i < t" for j i
  proof -
    have "j * t + i < n * t" using thread_index(1)[OF that fits] by (simp flip: of_nat_mult of_nat_add)
    with a show ?thesis by (simp flip: of_nat_mult of_nat_add)
  qed
  then show "\<forall>x\<in>set (List.product [0..<n] [0..<t]). case x of (j, i) \<Rightarrow> P (int j * int t + int i)" by auto
qed

text \<open>What the two loops make of it, after the multiplication of the number of all threads.\<close>

lemma setup_threads_eq:
  assumes "interfaces config = Some s" and "tokens s = ifs" and "tokens (affinity config) = aff"
    and n: "num_threads config = int t" and t: "0 < t" and "ifs \<noteq> []" and fan: "1111 * int (length ifs) < 2 ^ 31"
  shows "setup_threads sys config =
    (if 2 ^ 31 \<le> length ifs * t then Inl SignedOverflow
     else if \<not> sys_calloc sys Thread_Contexts then Inl OutOfBounds
     else if \<not> sys_ring sys 0 then Inr Exit
     else if \<exists>v. \<not> sys_calloc sys v then Inl OutOfBounds
     else if \<exists>k<length ifs * t. \<not> sys_ring sys (int k) then Inr Exit
     else Inr (Go (map (\<lambda>(j, i). context_of sys config ifs aff j i) (List.product [0..<length ifs] [0..<t]))))"
proof (cases "2 ^ 31 \<le> length ifs * t")
  case True
  then have "2 ^ 31 \<le> int (length ifs) * int t" by (metis of_nat_le_iff of_nat_mult of_nat_numeral of_nat_power)
  with True show ?thesis by (simp add: setup_threads_def assms split_string_tokens c_int_def)
next
  case False
  then have "length ifs * t < 2 ^ 31" by simp
  then have fits: "int (length ifs) * int t < 2 ^ 31" by (metis of_nat_less_iff of_nat_mult of_nat_numeral of_nat_power)
  let ?P = "List.product [0..<length ifs] [0..<t]"
  let ?m = "\<lambda>(j, i). setup_thread sys config (int (length ifs) * int t) \<lparr>vec_strings = ifs, vec_len = length ifs\<rparr>
      \<lparr>vec_strings = aff, vec_len = length aff\<rparr> j i"
  have run: "setup_threads sys config = run_setups (map ?m ?P)"
    using fits by (simp add: setup_threads_def assms split_string_tokens c_int_nonneg product_concat_map map_concat comp_def)
  have m: "?m (j, i) = (if \<not> sys_calloc sys Thread_Contexts then Inl OutOfBounds
     else if \<not> sys_ring sys (int j * int t + int i) then Inr Exit
     else if \<exists>v. \<not> sys_calloc sys v then Inl OutOfBounds
     else Inr (Go (context_of sys config ifs aff j i)))" if "(j, i) \<in> set ?P" for j i
    using setup_thread_eq[OF _ _ fits fan n refl, of j i] that by simp
  show ?thesis
  proof (cases "\<exists>v. \<not> sys_calloc sys v")
    case True
    obtain j ps where P: "?P = (0, 0) # ps"
      using t \<open>ifs \<noteq> []\<close> by (cases "length ifs"; cases t) (simp_all add: upt_conv_Cons del: upt_Suc)
    then have "(0, 0) \<in> set ?P" by simp
    with m[OF this] True False show ?thesis unfolding run P by simp
  next
    case all: False
    let ?ok = "\<lambda>(j, i). sys_ring sys (int j * int t + int i)"
    have "map ?m ?P = map (\<lambda>x. Inr (if ?ok x then Go ((\<lambda>(j, i). context_of sys config ifs aff j i) x) else Exit)) ?P"
      using m all by (intro map_cong refl) auto
    then have eq: "setup_threads sys config = Inr (if \<forall>x\<in>set ?P. ?ok x
        then Go (map (\<lambda>(j, i). context_of sys config ifs aff j i) ?P) else Exit)"
      unfolding run by (simp only: run_setups_map)
    have "(\<forall>x\<in>set ?P. ?ok x) \<longleftrightarrow> (\<forall>k<length ifs * t. sys_ring sys (int k))"
      by (rule all_thread_indices[OF t fits])
    moreover have "0 < length ifs * t" using t \<open>ifs \<noteq> []\<close> by simp
    then have "(\<forall>k<length ifs * t. sys_ring sys (int k)) \<longrightarrow> sys_ring sys 0"
      by (auto dest: spec[of _ 0])
    ultimately show ?thesis using False all unfolding eq by auto
  qed
qed

subsection \<open>Properties\<close>

text \<open>
  Splitting a list of names never faults, and gives the names back when they are not empty and hold no
  comma.
\<close>
theorem split_string_names:
  "split_string s = Inr \<lparr>vec_strings = tokens s, vec_len = length (tokens s)\<rparr> \<and>
   (\<forall>ts. (\<forall>t\<in>set ts. list_name t) \<longrightarrow> split_string (join_names ts) = Inr \<lparr>vec_strings = ts, vec_len = length ts\<rparr>)"
  using split_string_tokens tokens_join by simp

theorem split_string_names_witness:
  "split_string (bytes_of ''eth0,eth1'') = Inr \<lparr>vec_strings = [bytes_of ''eth0'', bytes_of ''eth1''], vec_len = 2\<rparr>"
proof -
  have "\<forall>t\<in>set [bytes_of ''eth0'', bytes_of ''eth1'']. list_name t"
    by (simp add: list_name_def bytes_of_def COMMA_def)
  moreover have "join_names [bytes_of ''eth0'', bytes_of ''eth1''] = bytes_of ''eth0,eth1''"
    by (simp add: bytes_of_def COMMA_def)
  ultimately show ?thesis using split_string_names by fastforce
qed

text \<open>The arguments of the options \<open>-c\<close> and \<open>-a\<close>.\<close>

definition port_args :: "(char \<times> byte list) list \<Rightarrow> byte list list" where
  "port_args oas = map snd (filter (\<lambda>(opt, optarg). opt = CHR ''c'' \<or> opt = CHR ''a'') oas)"

lemma apply_option_port:
  "apply_option config (opt, s) = Inr (Go c) \<Longrightarrow>
     (if opt = CHR ''c'' \<or> opt = CHR ''a'' then atoi s = Inr (capture_port c) else capture_port c = capture_port config)"
  by (auto simp: apply_option_def Let_def and_then_eq_Inr split: if_splits)

lemma apply_options_port:
  "apply_options config oas = Inr (Go c) \<Longrightarrow>
     (if port_args oas = [] then capture_port c = capture_port config
      else atoi (last (port_args oas)) = Inr (capture_port c))"
proof (induction oas arbitrary: config)
  case Nil
  then show ?case by (simp add: port_args_def)
next
  case (Cons oa oas)
  obtain opt s where oa: "oa = (opt, s)" by (cases oa)
  from Cons.prems obtain r where r: "apply_option config oa = Inr r"
    "(case r of Exit \<Rightarrow> Inr Exit | Go c \<Rightarrow> apply_options c oas) = Inr (Go c)" by (auto simp: and_then_eq_Inr)
  then obtain c1 where c1: "apply_option config oa = Inr (Go c1)" "apply_options c1 oas = Inr (Go c)"
    by (cases r) auto
  have p: "port_args (oa # oas) = (if opt = CHR ''c'' \<or> opt = CHR ''a'' then [s] else []) @ port_args oas"
    by (simp add: port_args_def oa)
  from Cons.IH[OF c1(2)] apply_option_port[OF c1(1)[unfolded oa]] show ?case
    unfolding p by (auto split: if_splits)
qed

text \<open>
  C37: the capture port is the number at the start of the argument of the last option \<open>-c\<close> or \<open>-a\<close>, since the
  case of \<open>-a\<close> falls through, and 0 when there is neither; the check for a missing port then finds nothing,
  and the configuration is accepted when the other options are there.
\<close>
theorem capture_port_options:
  assumes "apply_options set_default_config oas = Inr (Go c)"
  shows "if port_args oas = []
    then capture_port c = 0 \<and> (validate_config c = Exit \<longleftrightarrow>
      num_threads c < 1 \<or> interfaces c = None \<or> udp_host c = None \<or> udp_port c = 0)
    else atoi (last (port_args oas)) = Inr (capture_port c)"
  using apply_options_port[OF assms] by (auto simp: set_default_config_def validate_config_def)

theorem capture_port_options_witness:
  "\<exists>c. apply_options set_default_config [(CHR ''c'', bytes_of ''9880''), (CHR ''a'', bytes_of ''3'')] = Inr (Go c) \<and>
     capture_port c = 3"
proof -
  let ?oas = "[(CHR ''c'', bytes_of ''9880''), (CHR ''a'', bytes_of ''3'')]"
  have "case apply_options set_default_config ?oas of Inr (Go c) \<Rightarrow> True | _ \<Rightarrow> False" by code_simp
  then obtain c where c: "apply_options set_default_config ?oas = Inr (Go c)"
    by (auto split: sum.splits outcome.splits)
  have a: "atoi (bytes_of ''3'') = Inr 3" "port_args ?oas = [bytes_of ''9880'', bytes_of ''3'']" by code_simp+
  from capture_port_options[OF c] have "atoi (last (port_args ?oas)) = Inr (capture_port c)" unfolding a(2) by simp
  then have "capture_port c = 3" unfolding a(2) using a(1) by simp
  with c show ?thesis by blast
qed

text \<open>
  C38: what \<open>main\<close> sets up for \<open>t\<close> threads on each interface of a list, in order. A number of all threads that does not fit
  in an \<open>int\<close> overflows; a vector whose \<open>calloc\<close> failed, which it does not check, is written through NULL; a ring whose
  \<open>calloc\<close> failed ends the program. Otherwise every thread has a context under its own index, with the interface,
  fanout group and port it belongs to and a ring of its own, and thread \<open>i\<close> of every interface gets the \<open>i\<close>-th CPU
  of the list; a ring whose memory cannot be mapped is not noticed, since its error code is positive: the thread
  runs with a ring without a buffer. The list is short enough for the fanout groups to be an \<open>int\<close> (1111 times its
  length), as the argument of a process is.
\<close>
theorem threads_set_up:
  assumes "interfaces config = Some (join_names ifs)" and "affinity config = join_names aff"
    and "\<forall>x\<in>set ifs \<union> set aff. list_name x" and "num_threads config = int t" and "0 < t" and "ifs \<noteq> []"
    and "1111 * int (length ifs) < 2 ^ 31"
  shows "if 2 ^ 31 \<le> length ifs * t then setup_threads sys config = Inl SignedOverflow
    else if \<not> sys_calloc sys Thread_Contexts then setup_threads sys config = Inl OutOfBounds
    else if \<not> sys_ring sys 0 then setup_threads sys config = Inr Exit
    else if \<exists>v. \<not> sys_calloc sys v then setup_threads sys config = Inl OutOfBounds
    else if \<exists>k<length ifs * t. \<not> sys_ring sys (int k) then setup_threads sys config = Inr Exit
    else \<exists>ts. setup_threads sys config = Inr (Go ts) \<and> length ts = length ifs * t \<and>
    (\<forall>j<length ifs. \<forall>i<t. \<exists>x. x = ts ! (j * t + i) \<and> tc_thread_num x = int (j * t + i) \<and>
       tc_interface x = ifs ! j \<and> tc_fanout_id x = 1111 * (int j + 1) \<and> tc_port x = capture_port config \<and>
       tc_cpu_num x = (if i < length aff then parse_cpu_id (aff ! i) else -1) \<and>
       (sys_mapped sys (int (j * t + i)) \<and> sys_descriptor sys (int (j * t + i)) \<longrightarrow> rb_holds 12 (tc_rb x) [] 0) \<and>
       (\<not> sys_mapped sys (int (j * t + i)) \<longrightarrow> rb_buffer (tc_rb x) = []))"
proof -
  let ?ts = "map (\<lambda>(j, i). context_of sys config ifs aff j i) (List.product [0..<length ifs] [0..<t])"
  have "tokens (join_names ifs) = ifs" "tokens (affinity config) = aff" using assms(2,3) tokens_join by auto
  note eq = setup_threads_eq[OF assms(1) this assms(4,5,6,7), of sys]
  have len: "length ?ts = length ifs * t" by simp
  have nth: "?ts ! (j * t + i) = context_of sys config ifs aff j i" if "j < length ifs" "i < t" for j i
  proof -
    have "j * t + i < length ifs * t"
      using that mult_le_mono1[of "j + 1" "length ifs" t] by simp
    with nth_product_upt[OF that] show ?thesis by simp
  qed
  have p12: "(4096 :: size_word) = 2 ^ 12" by simp
  have ring: "rb_holds 12 (snd (vmars_spsc_rb_init p True True zero_ring 4096)) [] 0" for p
    using init_ok[of 12 p zero_ring] unfolding p12 by auto
  have pow: "is_power_of_two 4096" using is_power_of_two_pow[of 12] by simp
  have none: "rb_buffer (snd (vmars_spsc_rb_init p False d zero_ring 4096)) = []" for p d
    by (simp add: vmars_spsc_rb_init_def pow Let_def)
  have "length ?ts = length ifs * t \<and>
    (\<forall>j<length ifs. \<forall>i<t. \<exists>x. x = ?ts ! (j * t + i) \<and> tc_thread_num x = int (j * t + i) \<and>
       tc_interface x = ifs ! j \<and> tc_fanout_id x = 1111 * (int j + 1) \<and> tc_port x = capture_port config \<and>
       tc_cpu_num x = (if i < length aff then parse_cpu_id (aff ! i) else -1) \<and>
       (sys_mapped sys (int (j * t + i)) \<and> sys_descriptor sys (int (j * t + i)) \<longrightarrow> rb_holds 12 (tc_rb x) [] 0) \<and>
       (\<not> sys_mapped sys (int (j * t + i)) \<longrightarrow> rb_buffer (tc_rb x) = []))"
    using len nth ring none assms(4) by (auto simp: context_of_def Let_def)
  with eq show ?thesis by (auto split: if_splits)
qed

text \<open>A system without trouble, except that the memory of the ring of thread 3 cannot be mapped.\<close>

definition sample_system :: system where
  "sample_system = \<lparr>sys_pagesize = 4096, sys_calloc = (\<lambda>v. True), sys_ring = (\<lambda>k. True), sys_mapped = (\<lambda>k. k \<noteq> 3),
     sys_descriptor = (\<lambda>k. True)\<rparr>"

definition sample_config :: "nat \<Rightarrow> vmars_config" where
  "sample_config t = set_default_config\<lparr>interfaces := Some (join_names [[101, 49], [101, 50]]),
     affinity := join_names [[48], [50]], num_threads := int t\<rparr>"

theorem threads_set_up_witness:
  "(\<exists>ts. setup_threads sample_system (sample_config 2) = Inr (Go ts) \<and>
     map tc_cpu_num ts = [0, 2, 0, 2] \<and> rb_buffer (tc_rb (ts ! 3)) = [] \<and> rb_holds 12 (tc_rb (ts ! 2)) [] 0) \<and>
   setup_threads sample_system (sample_config (2 ^ 30)) = Inl SignedOverflow \<and>
   setup_threads (sample_system\<lparr>sys_calloc := (\<lambda>v. v \<noteq> Counters)\<rparr>) (sample_config 2) = Inl OutOfBounds"
proof -
  have names: "\<forall>x\<in>set [[101, 49], [101, 50]] \<union> set [[48], [50]]. list_name x" by (simp add: list_name_def COMMA_def)
  have cpu: "parse_cpu_id [48] = 0" "parse_cpu_id [50] = 2" by code_simp+
  have c: "interfaces (sample_config t) = Some (join_names [[101, 49], [101, 50]])"
    "affinity (sample_config t) = join_names [[48], [50]]" "num_threads (sample_config t) = int t" for t
    by (simp_all add: sample_config_def)
  have two: "length [[101, 49], [101, 50 :: byte]] = 2" "length [[48], [50 :: byte]] = 2" by simp_all
  note up = threads_set_up[OF c(1,2) names c(3), unfolded two]
  have "\<exists>ts. setup_threads sample_system (sample_config 2) = Inr (Go ts) \<and> length ts = 4 \<and>
    (\<forall>j<2. \<forall>i<2. \<exists>x. x = ts ! (j * 2 + i) \<and> tc_thread_num x = int (j * 2 + i) \<and>
       tc_interface x = [[101, 49], [101, 50]] ! j \<and> tc_fanout_id x = 1111 * (int j + 1) \<and>
       tc_port x = capture_port (sample_config 2) \<and>
       tc_cpu_num x = (if i < 2 then parse_cpu_id ([[48], [50]] ! i) else -1) \<and>
       (sys_mapped sample_system (int (j * 2 + i)) \<and> sys_descriptor sample_system (int (j * 2 + i)) \<longrightarrow>
         rb_holds 12 (tc_rb x) [] 0) \<and>
       (\<not> sys_mapped sample_system (int (j * 2 + i)) \<longrightarrow> rb_buffer (tc_rb x) = []))"
    using up[of 2 sample_system] by (simp add: sample_system_def)
  then obtain ts where ts: "setup_threads sample_system (sample_config 2) = Inr (Go ts)" "length ts = 4"
    and x: "\<forall>j<2. \<forall>i<2. \<exists>x. x = ts ! (j * 2 + i) \<and> tc_thread_num x = int (j * 2 + i) \<and>
       tc_interface x = [[101, 49], [101, 50]] ! j \<and> tc_fanout_id x = 1111 * (int j + 1) \<and>
       tc_port x = capture_port (sample_config 2) \<and>
       tc_cpu_num x = (if i < 2 then parse_cpu_id ([[48], [50]] ! i) else -1) \<and>
       (sys_mapped sample_system (int (j * 2 + i)) \<and> sys_descriptor sample_system (int (j * 2 + i)) \<longrightarrow>
         rb_holds 12 (tc_rb x) [] 0) \<and>
       (\<not> sys_mapped sample_system (int (j * 2 + i)) \<longrightarrow> rb_buffer (tc_rb x) = [])" by blast
  have s: "sys_mapped sample_system k \<longleftrightarrow> k \<noteq> 3" "sys_descriptor sample_system k" for k
    by (simp_all add: sample_system_def)
  have "tc_cpu_num (ts ! 0) = 0" "tc_cpu_num (ts ! 1) = 2"
    using x[rule_format, of 0 0] x[rule_format, of 0 1] cpu by auto
  moreover have "tc_cpu_num (ts ! 2) = 0" "rb_holds 12 (tc_rb (ts ! 2)) [] 0" using x[rule_format, of 1 0] cpu s by auto
  moreover have "tc_cpu_num (ts ! 3) = 2" "rb_buffer (tc_rb (ts ! 3)) = []" using x[rule_format, of 1 1] cpu s by auto
  moreover obtain a b d e where "ts = [a, b, d, e]" using ts(2) by (auto simp: eval_nat_numeral length_Suc_conv)
  moreover have "setup_threads sample_system (sample_config (2 ^ 30)) = Inl SignedOverflow"
    using up[of "2 ^ 30" sample_system] by simp
  moreover have "setup_threads (sample_system\<lparr>sys_calloc := (\<lambda>v. v \<noteq> Counters)\<rparr>) (sample_config 2) = Inl OutOfBounds"
    using up[of 2 "sample_system\<lparr>sys_calloc := (\<lambda>v. v \<noteq> Counters)\<rparr>"] by (simp add: sample_system_def)
  ultimately show ?thesis using ts(1) by auto
qed

end
