(* ===== verification/Signal_Loop.thy ===== *)
theory Signal_Loop
  imports Vmars_Prelude
begin

text \<open>
  The loop that the capture, the counter and the latency thread share, \<open>while (!sigint) { ... }\<close>, and the signal
  handlers that end it: \<open>root_sighandler\<close> of \<^verbatim>\<open>src/main.c\<close>, which calls those of \<^verbatim>\<open>src/packet.c\<close>,
  \<^verbatim>\<open>src/latency_handler.c\<close> and \<^verbatim>\<open>src/counter_handler.c\<close>.
\<close>

subsection \<open>The flags\<close>

record signal_flags =
  packet_sigint :: int
  latency_sigint :: int
  counters_sigint :: int

definition no_signal :: signal_flags where
  "no_signal = \<lparr>packet_sigint = 0, latency_sigint = 0, counters_sigint = 0\<rparr>"

definition vmars_packet_sighandler :: "signal_flags \<Rightarrow> signal_flags" where
  "vmars_packet_sighandler s = s\<lparr>packet_sigint := 1\<rparr>"

definition vmars_latency_sighandler :: "signal_flags \<Rightarrow> signal_flags" where
  "vmars_latency_sighandler s = s\<lparr>latency_sigint := 1\<rparr>"

definition vmars_counters_sighandler :: "signal_flags \<Rightarrow> signal_flags" where
  "vmars_counters_sighandler s = s\<lparr>counters_sigint := 1\<rparr>"

definition root_sighandler :: "signal_flags \<Rightarrow> signal_flags" where
  "root_sighandler s = vmars_counters_sighandler (vmars_latency_sighandler (vmars_packet_sighandler s))"

text \<open>The flags that a thread reads before its turn \<open>i\<close> when the signal arrives during its turn \<open>n - 1\<close>.\<close>

definition interrupted :: "nat \<Rightarrow> nat \<Rightarrow> signal_flags" where
  "interrupted n i = (if i < n then no_signal else root_sighandler no_signal)"

subsection \<open>The loop\<close>

text \<open>
  \<open>sigint i\<close> is the flag read before turn \<open>i\<close>, \<open>turn i\<close> the body, with what it gets from outside in turn \<open>i\<close>. A
  fault in the body ends the loop; the result \<open>None\<close> says that it does not end.
\<close>

partial_function (option) signal_loop :: "(nat \<Rightarrow> int) \<Rightarrow> (nat \<Rightarrow> 's \<Rightarrow> 's res) \<Rightarrow> nat \<Rightarrow> 's \<Rightarrow> 's res option" where
  "signal_loop sigint turn i s =
     (if sigint i \<noteq> 0 then Some (Inr s)
      else case turn i s of
        Inl f \<Rightarrow> Some (Inl f)
      | Inr s' \<Rightarrow> signal_loop sigint turn (Suc i) s')"

fun run_turns :: "(nat \<Rightarrow> 's \<Rightarrow> 's res) \<Rightarrow> nat \<Rightarrow> nat \<Rightarrow> 's \<Rightarrow> 's res" where
  "run_turns turn i 0 s = Inr s"
| "run_turns turn i (Suc n) s = and_then (turn i s) (run_turns turn (Suc i) n)"

lemma signal_loop_ends:
  "(\<And>j. j < n \<Longrightarrow> sigint (i + j) = 0) \<Longrightarrow> sigint (i + n) \<noteq> 0 \<Longrightarrow>
     signal_loop sigint turn i s = Some (run_turns turn i n s)"
proof (induction n arbitrary: i s)
  case 0
  then show ?case by (simp add: signal_loop.simps)
next
  case (Suc n)
  have "sigint i = 0" using Suc.prems(1) [of 0] by simp
  moreover have "signal_loop sigint turn (Suc i) s' = Some (run_turns turn (Suc i) n s')" for s'
  proof (rule Suc.IH)
    show "sigint (Suc i + j) = 0" if "j < n" for j using Suc.prems(1) [of "Suc j"] that by simp
    show "sigint (Suc i + n) \<noteq> 0" using Suc.prems(2) by simp
  qed
  ultimately show ?case by (simp add: signal_loop.simps [of sigint turn i] and_then_def split: sum.split)
qed

lemma signal_loop_ended:
  assumes "signal_loop sigint turn i s = Some (Inr s')"
  shows "\<exists>n. sigint (i + n) \<noteq> 0 \<and> run_turns turn i n s = Inr s'"
proof -
  have "\<forall>s'. r = Inr s' \<longrightarrow> (\<exists>n. sigint (i + n) \<noteq> 0 \<and> run_turns turn i n s = Inr s')"
    if "signal_loop sigint turn i s = Some r" for r
  proof (rule signal_loop.raw_induct
      [where P = "\<lambda>(sigint :: nat \<Rightarrow> int) turn i s r. \<forall>s'. r = Inr s' \<longrightarrow> (\<exists>n. sigint (i + n) \<noteq> 0 \<and> run_turns turn i n s = Inr s')",
        OF _ that], intro allI impI)
    fix loop :: "(nat \<Rightarrow> int) \<Rightarrow> (nat \<Rightarrow> 'a \<Rightarrow> 'a res) \<Rightarrow> nat \<Rightarrow> 'a \<Rightarrow> 'a res option" and sigint turn i s r s'
    assume IH: "\<And>sigint turn i s r. loop sigint turn i s = Some r \<Longrightarrow>
        \<forall>s'. r = Inr s' \<longrightarrow> (\<exists>n. sigint (i + n) \<noteq> 0 \<and> run_turns turn i n s = Inr s')"
      and body: "(if sigint i \<noteq> 0 then Some (Inr s)
        else case turn i s of Inl f \<Rightarrow> Some (Inl f) | Inr s' \<Rightarrow> loop sigint turn (Suc i) s') = Some r"
      and r: "r = Inr s'"
    show "\<exists>n. sigint (i + n) \<noteq> (0 :: int) \<and> run_turns turn i n s = Inr s'"
    proof (cases "sigint i = 0")
      case True
      with body r obtain s1 where s1: "turn i s = Inr s1" "loop sigint turn (Suc i) s1 = Some (Inr s')"
        by (cases "turn i s") auto
      from IH [OF s1(2)] obtain n where "sigint (Suc i + n) \<noteq> 0" "run_turns turn (Suc i) n s1 = Inr s'" by blast
      with s1(1) show ?thesis by (intro exI [of _ "Suc n"]) simp
    next
      case False
      with body r show ?thesis by (intro exI [of _ 0]) simp
    qed
  qed
  with assms show ?thesis by blast
qed

lemma interrupted_ends:
  assumes "\<And>j. flag (interrupted n j) \<noteq> 0 \<longleftrightarrow> n \<le> j"
  shows "signal_loop (\<lambda>j. flag (interrupted n j)) turn 0 s = Some (run_turns turn 0 n s)"
  using assms by (intro signal_loop_ends) (auto simp: linorder_not_less [symmetric])

lemma interrupted_flags [simp]:
  "packet_sigint (interrupted n j) \<noteq> 0 \<longleftrightarrow> n \<le> j" "latency_sigint (interrupted n j) \<noteq> 0 \<longleftrightarrow> n \<le> j"
  "counters_sigint (interrupted n j) \<noteq> 0 \<longleftrightarrow> n \<le> j"
  by (auto simp: interrupted_def no_signal_def root_sighandler_def vmars_packet_sighandler_def
      vmars_latency_sighandler_def vmars_counters_sighandler_def)

lemma run_turns_snoc: "run_turns turn i (Suc n) s = and_then (run_turns turn i n s) (turn (i + n))"
proof (induction n arbitrary: i s)
  case (Suc n)
  have rest: "run_turns turn (Suc i) (Suc n) = (\<lambda>x. and_then (run_turns turn (Suc i) n x) (turn (Suc i + n)))"
    using Suc.IH by (intro ext)
  have "run_turns turn i (Suc (Suc n)) s = and_then (turn i s) (run_turns turn (Suc i) (Suc n))" by simp
  also have "\<dots> = and_then (turn i s) (\<lambda>x. and_then (run_turns turn (Suc i) n x) (turn (Suc i + n)))"
    by (simp only: rest)
  also have "\<dots> = and_then (run_turns turn i (Suc n) s) (turn (i + Suc n))" by (simp add: and_then_assoc)
  finally show ?case .
qed (simp add: and_then_def split: sum.split)

end
