(* ===== verification/Capture_Thread.thy ===== *)
theory Capture_Thread
  imports Packet Main_Config Signal_Loop
begin

text \<open>
  The life of a capture thread, \<open>vmars_poll_socket\<close> of \<^verbatim>\<open>src/packet.c\<close>: its affinity, the set-up of the socket and
  its ring of blocks, the loop, and the teardown. The results of the system calls are a parameter, which may
  depend on all calls made before; the calls are kept in a trace, from which the resources held can be read.
\<close>

subsection \<open>System calls\<close>

record tpacket_req =
  tp_block_size :: nat
  tp_frame_size :: nat
  tp_block_nr :: nat
  tp_frame_nr :: nat
  tp_retire_blk_tov :: nat

text \<open>
  A pointer is its address, 0 is \<open>NULL\<close> and \<open>-1\<close> is \<open>MAP_FAILED\<close>. \<open>HwTimestamp\<close> is the \<open>ioctl\<close> with
  \<open>SIOCSHWTSTAMP\<close>, the other calls that set something are \<open>setsockopt\<close>.
\<close>

datatype syscall =
    Affinity "nat list"
  | Socket
  | PacketVersion int
  | PacketRxRing int tpacket_req
  | Mmap nat int
  | Malloc nat
  | NameToIndex "byte list"
  | Bind int int
  | PacketFanout int int
  | HwTimestamp int "byte list"
  | PacketTimestamp int
  | Munmap int nat
  | Free int
  | Close int

text \<open>The messages that the thread prints.\<close>

datatype notice =
    AffinityFailed | AffinitySet | SocketFailed | VersionFailed | RingFailed | MapFailed | BindFailed
  | FanoutFailed | HwTimestampFailed | TimestampFailed | TimestampsEnabled

record io =
  io_trace :: "(syscall \<times> int) list"
  io_notices :: "notice list"

type_synonym environment = "(syscall \<times> int) list \<Rightarrow> syscall \<Rightarrow> int"

definition sys :: "environment \<Rightarrow> syscall \<Rightarrow> io \<Rightarrow> int \<times> io" where
  "sys env c io = (let r = env (io_trace io) c in (r, io\<lparr>io_trace := io_trace io @ [(c, r)]\<rparr>))"

definition note_that :: "notice \<Rightarrow> io \<Rightarrow> io" where
  "note_that n io = io\<lparr>io_notices := io_notices io @ [n]\<rparr>"

definition no_io :: io where "no_io = \<lparr>io_trace = [], io_notices = []\<rparr>"

subsection \<open>Setting up the socket\<close>

text \<open>The mapped ring; an \<open>iovec\<close> of \<open>rd\<close> is an address and a length.\<close>

record ring =
  rg_rd :: int
  rg_vecs :: "(int \<times> nat) list"
  rg_map :: int
  rg_req :: tpacket_req
  rg_fanout_id :: int

definition empty_req :: tpacket_req where
  "empty_req = \<lparr>tp_block_size = 0, tp_frame_size = 0, tp_block_nr = 0, tp_frame_nr = 0, tp_retire_blk_tov = 0\<rparr>"

definition fail :: "notice \<Rightarrow> ring \<Rightarrow> io \<Rightarrow> (int \<times> ring \<times> io) res" where
  "fail n ring io = Inr (-1, ring, note_that n io)"

definition ring_request :: tpacket_req where
  "ring_request =
     (let blocksiz = 2 ^ 22; framesiz = 2 ^ 11; blocknum = 64 in
      \<lparr>tp_block_size = blocksiz, tp_frame_size = framesiz, tp_block_nr = blocknum,
       tp_frame_nr = (blocksiz * blocknum mod 2 ^ 32) div framesiz, tp_retire_blk_tov = 60\<rparr>)"

text \<open>The products are of the type \<open>unsigned int\<close>.\<close>

definition map_len :: "ring \<Rightarrow> nat" where
  "map_len ring = tp_block_size (rg_req ring) * tp_block_nr (rg_req ring) mod 2 ^ 32"

definition block_vecs :: "ring \<Rightarrow> (int \<times> nat) list" where
  "block_vecs ring = map (\<lambda>i. (rg_map ring + int (i * tp_block_size (rg_req ring) mod 2 ^ 32), tp_block_size (rg_req ring)))
     [0..<tp_block_nr (rg_req ring)]"

text \<open>The result of \<open>malloc\<close> is used without a check.\<close>

definition map_blocks :: "environment \<Rightarrow> ring \<Rightarrow> io \<Rightarrow> (ring \<times> io) res" where
  "map_blocks env ring io =
     (let (rd, io) = sys env (Malloc (tp_block_nr (rg_req ring) * 16)) io in
      if rd = 0 \<and> tp_block_nr (rg_req ring) > 0 then Inl OutOfBounds
      else Inr (ring\<lparr>rg_rd := rd, rg_vecs := block_vecs ring\<rparr>, io))"

definition IFNAMSIZ :: nat where "IFNAMSIZ = 16"

definition enable_timestamps :: "environment \<Rightarrow> int \<Rightarrow> byte list \<Rightarrow> io \<Rightarrow> io" where
  "enable_timestamps env sock ifr_name io =
     (let (r, io) = sys env (HwTimestamp sock ifr_name) io in
      if r < 0 then note_that HwTimestampFailed io
      else
        let (r, io) = sys env (PacketTimestamp sock) io in
        if r < 0 then note_that TimestampFailed io else note_that TimestampsEnabled io)"

definition bind_socket ::
    "environment \<Rightarrow> ring \<Rightarrow> byte list \<Rightarrow> int \<Rightarrow> int \<Rightarrow> io \<Rightarrow> (int \<times> ring \<times> io) res" where
  "bind_socket env ring netdev hw sock io =
     (let (sll_ifindex, io) = sys env (NameToIndex netdev) io;
          (err, io) = sys env (Bind sock sll_ifindex) io in
      if err < 0 then fail BindFailed ring io
      else
        let (err, io) = sys env (PacketFanout sock (rg_fanout_id ring)) io in
        if err \<noteq> 0 then fail FanoutFailed ring io
        else
          and_then (c_strncpy (netdev @ [0]) IFNAMSIZ) (\<lambda>ifr_name.
          Inr (sock, ring, if hw \<noteq> 0 then enable_timestamps env sock ifr_name io else io)))"

definition setup_socket ::
    "environment \<Rightarrow> ring \<Rightarrow> byte list \<Rightarrow> int \<Rightarrow> io \<Rightarrow> (int \<times> ring \<times> io) res" where
  "setup_socket env ring netdev hw io =
     (let (sock, io) = sys env Socket io in
      if sock < 0 then fail SocketFailed ring io
      else
        let (err, io) = sys env (PacketVersion sock) io in
        if err < 0 then fail VersionFailed ring io
        else
          let ring = ring\<lparr>rg_req := ring_request\<rparr>;
              (err, io) = sys env (PacketRxRing sock (rg_req ring)) io in
          if err < 0 then fail RingFailed ring io
          else
            let (p, io) = sys env (Mmap (map_len ring) sock) io;
                ring = ring\<lparr>rg_map := p\<rparr> in
            if p = -1 then fail MapFailed ring io
            else
              and_then (map_blocks env ring io) (\<lambda>(ring, io). bind_socket env ring netdev hw sock io))"

subsection \<open>The thread\<close>

text \<open>\<open>CPU_SET\<close> ignores a number behind the 1024 bits of a \<open>cpu_set_t\<close>.\<close>

definition CPU_SET :: "int \<Rightarrow> nat list" where
  "CPU_SET n = (if n < 1024 then [nat n] else [])"

definition set_affinity :: "environment \<Rightarrow> int \<Rightarrow> io \<Rightarrow> io" where
  "set_affinity env cpu_num io =
     (if -1 < cpu_num
      then
        let (r, io) = sys env (Affinity (CPU_SET cpu_num)) io in
        if r < 0 then note_that AffinityFailed io else note_that AffinitySet io
      else io)"

definition teardown_socket :: "environment \<Rightarrow> ring \<Rightarrow> int \<Rightarrow> io \<Rightarrow> io" where
  "teardown_socket env ring sock io =
     (let (_, io) = sys env (Munmap (rg_map ring) (map_len ring)) io;
          (_, io) = sys env (Free (rg_rd ring)) io;
          (_, io) = sys env (Close sock) io in io)"

text \<open>
  A turn of the loop; before it the kernel has changed the mapped blocks. A turn that waits in \<open>poll\<close> is taken to
  come back.
\<close>

definition capture_turn :: "(nat \<Rightarrow> byte list list \<Rightarrow> byte list list) \<Rightarrow> nat \<Rightarrow> capture_thread \<Rightarrow> capture_thread res" where
  "capture_turn memory i t = poll_block (t\<lparr>ct_blocks := memory i (ct_blocks t)\<rparr>)"

definition capture_start :: "vmars_capture_context \<Rightarrow> boyermoore_s \<Rightarrow> int \<Rightarrow> byte list list \<Rightarrow> capture_thread" where
  "capture_start ctx matcher descriptor blocks =
     \<lparr>ct_ctx = ctx\<lparr>ctx_matcher := matcher, ctx_counters := (ctx_counters ctx)\<lparr>fd := descriptor\<rparr>\<rparr>,
      ct_blocks = blocks, ct_block_num = 0\<rparr>"

text \<open>
  The whole thread; \<open>blocks\<close> is the memory behind the mapping. It ends without a \<open>capture_thread\<close> when
  the set-up fails.
\<close>

definition vmars_poll_socket ::
    "environment \<Rightarrow> (nat \<Rightarrow> int) \<Rightarrow> (nat \<Rightarrow> byte list list \<Rightarrow> byte list list) \<Rightarrow> byte list list \<Rightarrow>
     thread_context \<Rightarrow> int \<Rightarrow> vmars_capture_context \<Rightarrow> io \<Rightarrow> (capture_thread option \<times> io) res option" where
  "vmars_poll_socket env sigint memory blocks tc hw ctx io =
     (let io = set_affinity env (tc_cpu_num tc) io;
          ring = \<lparr>rg_rd = 0, rg_vecs = [], rg_map = 0, rg_req = empty_req, rg_fanout_id = tc_fanout_id tc\<rparr> in
      case
        and_then (boyermoore_init (FIX_PATTERN @ [0])) (\<lambda>matcher.
        and_then (setup_socket env ring (tc_interface tc) hw io) (\<lambda>r. Inr (matcher, r)))
      of
        Inl f \<Rightarrow> Some (Inl f)
      | Inr (matcher, descriptor, ring, io) \<Rightarrow>
          if descriptor < 0 then Some (Inr (None, io))
          else
            map_option (map_sum id (\<lambda>t. (Some t, teardown_socket env ring descriptor io)))
              (signal_loop sigint (capture_turn memory) 0 (capture_start ctx matcher descriptor blocks)))"

subsection \<open>Resources\<close>

datatype resource = Descriptor int | Mapping int nat | Memory int

text \<open>What a call acquires or releases; a resource is named as the call that releases it names it.\<close>

fun after_call :: "syscall \<times> int \<Rightarrow> resource list \<Rightarrow> resource list" where
  "after_call (Socket, r) hs = (if r < 0 then hs else Descriptor r # hs)"
| "after_call (Mmap n sock, r) hs = (if r = -1 then hs else Mapping r n # hs)"
| "after_call (Malloc n, r) hs = (if r = 0 then hs else Memory r # hs)"
| "after_call (Munmap p n, r) hs = remove1 (Mapping p n) hs"
| "after_call (Free p, r) hs = remove1 (Memory p) hs"
| "after_call (Close sock, r) hs = remove1 (Descriptor sock) hs"
| "after_call (_, r) hs = hs"

definition held :: "io \<Rightarrow> resource list" where
  "held io = fold after_call (io_trace io) []"

lemma held_sys [simp]: "held (snd (sys env c io)) = after_call (c, fst (sys env c io)) (held io)"
  by (simp add: held_def sys_def Let_def)

lemma held_note [simp]: "held (note_that n io) = held io"
  by (simp add: held_def note_that_def)

lemma held_no_io [simp]: "held no_io = []"
  by (simp add: held_def no_io_def)

lemma notices_sys [simp]: "io_notices (snd (sys env c io)) = io_notices io"
  by (simp add: sys_def Let_def)

lemma notices_note [simp]: "io_notices (note_that n io) = io_notices io @ [n]"
  by (simp add: note_that_def)

text \<open>What a failure of the set-up leaves behind, by the message printed last.\<close>

fun leaves_behind :: "notice \<Rightarrow> resource list \<Rightarrow> bool" where
  "leaves_behind SocketFailed hs = (hs = [])"
| "leaves_behind VersionFailed hs = (\<exists>sock. hs = [Descriptor sock])"
| "leaves_behind RingFailed hs = (\<exists>sock. hs = [Descriptor sock])"
| "leaves_behind MapFailed hs = (\<exists>sock. hs = [Descriptor sock])"
| "leaves_behind BindFailed hs = (\<exists>sock p q n. hs = [Memory q, Mapping p n, Descriptor sock])"
| "leaves_behind FanoutFailed hs = (\<exists>sock p q n. hs = [Memory q, Mapping p n, Descriptor sock])"
| "leaves_behind _ hs = False"


subsection \<open>What the set-up holds\<close>

lemma fst_sys: "fst (sys env c io) = env (io_trace io) c"
  by (simp add: sys_def Let_def)

lemma held_affinity [simp]: "held (set_affinity env n io) = held io"
  by (simp add: set_affinity_def split_beta Let_def)

lemma held_timestamps [simp]: "held (enable_timestamps env sock name io) = held io"
  by (simp add: enable_timestamps_def split_beta Let_def)

text \<open>The set-up holds what the teardown releases, or says what it leaves behind.\<close>

definition set_up :: "resource list \<Rightarrow> int \<times> ring \<times> io \<Rightarrow> bool" where
  "set_up hs r = (case r of (sock, ring, io) \<Rightarrow>
     if sock < 0 then \<exists>n xs. last (io_notices io) = n \<and> io_notices io \<noteq> [] \<and> held io = xs @ hs \<and> leaves_behind n xs
     else held io = [Memory (rg_rd ring), Mapping (rg_map ring) (map_len ring), Descriptor sock] @ hs \<and>
       rg_vecs ring = block_vecs ring \<and> rg_req ring = ring_request)"

lemma name_copied: "\<exists>name. c_strncpy (netdev @ [0]) n = Inr name"
proof (induction netdev arbitrary: n)
  case (Cons c netdev)
  then show ?case
  proof (cases n)
    case (Suc m)
    then obtain name where "c_strncpy (netdev @ [0]) m = Inr name" using Cons.IH by blast
    with Suc show ?thesis by (simp del: replicate.simps)
  qed simp
next
  case Nil
  then show ?case by (cases n) (auto simp del: replicate.simps)
qed

lemma bind_socket_set_up:
  assumes "held io = [Memory (rg_rd ring), Mapping (rg_map ring) (map_len ring), Descriptor sock] @ hs"
    and "rg_vecs ring = block_vecs ring" and "rg_req ring = ring_request" and "0 \<le> sock"
  shows "\<exists>r. bind_socket env ring netdev hw sock io = Inr r \<and> set_up hs r"
proof -
  obtain name where "c_strncpy (netdev @ [0]) IFNAMSIZ = Inr name" using name_copied by blast
  with assms show ?thesis
    by (auto simp: bind_socket_def split_beta Let_def fail_def set_up_def)
qed

lemma map_blocks_set_up:
  assumes "\<And>tr n. env tr (Malloc n) \<noteq> 0" and "held io = [Mapping (rg_map ring) (map_len ring), Descriptor sock] @ hs"
    and "rg_req ring = ring_request"
  shows "\<exists>ring' io'. map_blocks env ring io = Inr (ring', io') \<and> rg_req ring' = ring_request \<and>
    held io' = [Memory (rg_rd ring'), Mapping (rg_map ring') (map_len ring'), Descriptor sock] @ hs \<and>
    rg_vecs ring' = block_vecs ring'"
  using assms by (simp add: map_blocks_def split_beta Let_def fst_sys map_len_def block_vecs_def)

lemma setup_socket_set_up:
  assumes "\<And>tr n. env tr (Malloc n) \<noteq> 0"
  shows "\<exists>r. setup_socket env ring netdev hw io = Inr r \<and> set_up (held io) r"
proof -
  have fails: "\<exists>r. fail n ring' io' = Inr r \<and> set_up (held io) r" if "held io' = xs @ held io" "leaves_behind n xs"
    for n ring' io' xs
    using that by (auto simp: fail_def set_up_def)
  let ?io1 = "snd (sys env Socket io)" and ?sock = "fst (sys env Socket io)"
  let ?io2 = "snd (sys env (PacketVersion ?sock) ?io1)"
  let ?ring = "ring\<lparr>rg_req := ring_request\<rparr>"
  let ?io3 = "snd (sys env (PacketRxRing ?sock ring_request) ?io2)"
  let ?map = "sys env (Mmap (map_len ?ring) ?sock) ?io3"
  let ?mapped = "?ring\<lparr>rg_map := fst ?map\<rparr>"
  have mapped: "\<exists>r. and_then (map_blocks env ?mapped (snd ?map)) (\<lambda>(ring, io). bind_socket env ring netdev hw ?sock io) = Inr r \<and>
      set_up (held io) r" if "0 \<le> ?sock" "fst ?map \<noteq> -1"
  proof -
    have "held (snd ?map) = [Mapping (rg_map ?mapped) (map_len ?mapped), Descriptor ?sock] @ held io"
      using that by (simp add: map_len_def)
    with map_blocks_set_up [of env "snd ?map" ?mapped ?sock "held io"] assms obtain ring' io' where m: "map_blocks env ?mapped (snd ?map) = Inr (ring', io')"
      "rg_req ring' = ring_request" "rg_vecs ring' = block_vecs ring'"
      "held io' = [Memory (rg_rd ring'), Mapping (rg_map ring') (map_len ring'), Descriptor ?sock] @ held io" by auto
    from bind_socket_set_up [where hs = "held io", OF m(4,3,2) that(1)] show ?thesis by (simp add: m(1))
  qed
  show ?thesis
  proof (cases "?sock < 0")
    case True
    then show ?thesis using fails [of "snd (sys env Socket io)" "[]" SocketFailed]
      by (simp add: setup_socket_def split_beta Let_def)
  next
    case sock: False
    have held: "held ?io2 = [Descriptor ?sock] @ held io" "held ?io3 = [Descriptor ?sock] @ held io"
      using sock by simp_all
    consider "fst (sys env (PacketVersion ?sock) ?io1) < 0" | "\<not> fst (sys env (PacketVersion ?sock) ?io1) < 0"
        "fst (sys env (PacketRxRing ?sock ring_request) ?io2) < 0"
      | "\<not> fst (sys env (PacketVersion ?sock) ?io1) < 0"
        "\<not> fst (sys env (PacketRxRing ?sock ring_request) ?io2) < 0" "fst ?map = -1"
      | "\<not> fst (sys env (PacketVersion ?sock) ?io1) < 0"
        "\<not> fst (sys env (PacketRxRing ?sock ring_request) ?io2) < 0" "fst ?map \<noteq> -1"
      by blast
    then show ?thesis
    proof cases
      case 1
      then show ?thesis using sock fails [OF held(1), of VersionFailed]
        by (simp add: setup_socket_def split_beta Let_def)
    next
      case 2
      then show ?thesis using sock fails [OF held(2), of RingFailed]
        by (simp add: setup_socket_def split_beta Let_def)
    next
      case 3
      then have "held (snd ?map) = [Descriptor ?sock] @ held io" using held(2) by simp
      with 3 show ?thesis using sock fails [of "snd ?map" "[Descriptor ?sock]" MapFailed]
        by (simp add: setup_socket_def split_beta Let_def)
    next
      case 4
      then show ?thesis using sock mapped by (simp add: setup_socket_def split_beta Let_def)
    qed
  qed
qed


subsection \<open>Properties\<close>

text \<open>
  C25: whatever the system calls answer, a capture thread ends. It prints why its set-up failed, and then keeps
  what it has acquired so far, the socket and perhaps the mapping and the vectors; or it runs the turns of its
  loop up to the signal, on the first matcher and with its socket in the counters, and gives back all that it
  acquired, the mapping with the address and the length it was made with. (The one call that it relies on is
  \<open>malloc\<close>.)
\<close>
theorem capture_thread_lifecycle:
  assumes "\<And>tr n. env tr (Malloc n) \<noteq> 0"
  shows "\<exists>r. vmars_poll_socket env (\<lambda>i. packet_sigint (interrupted n i)) memory blocks tc hw ctx no_io = Some r \<and>
    ((\<exists>io. r = Inr (None, io) \<and> leaves_behind (last (io_notices io)) (held io)) \<or>
     (\<exists>sock io. r = map_sum id (\<lambda>t. (Some t, io))
          (run_turns (capture_turn memory) 0 n (capture_start ctx fix_matcher sock blocks)) \<and> held io = []))"
proof -
  obtain sock ring io where s:
    "setup_socket env \<lparr>rg_rd = 0, rg_vecs = [], rg_map = 0, rg_req = empty_req, rg_fanout_id = tc_fanout_id tc\<rparr>
       (tc_interface tc) hw (set_affinity env (tc_cpu_num tc) no_io) = Inr (sock, ring, io)"
    "set_up [] (sock, ring, io)"
    using setup_socket_set_up [of env, OF assms] by (metis held_affinity held_no_io prod_cases3)
  have matcher: "boyermoore_init (FIX_PATTERN @ [0]) = Inr fix_matcher"
    using boyermoore_init_matcher [of FIX_PATTERN "[]"] by (auto simp: FIX_PATTERN_bytes fix_matcher_def)
  show ?thesis
  proof (cases "sock < 0")
    case True
    with s show ?thesis by (auto simp: vmars_poll_socket_def matcher set_up_def)
  next
    case False
    have "held (teardown_socket env ring sock io) = []"
      using s(2) False by (simp add: set_up_def teardown_socket_def split_beta Let_def)
    with s False show ?thesis by (auto simp: vmars_poll_socket_def matcher interrupted_ends)
  qed
qed

text \<open>
  The result of \<open>pthread_setaffinity_np\<close> is an error number, which is not negative: a failure is reported as a
  success.
\<close>
theorem affinity_failure_unnoticed:
  assumes "0 \<le> cpu" and "\<And>tr c. 0 \<le> env tr (Affinity c)"
  shows "io_notices (set_affinity env cpu io) = io_notices io @ [AffinitySet]"
  using assms by (simp add: set_affinity_def split_beta Let_def fst_sys linorder_not_less [symmetric])

text \<open>
  The result of \<open>if_nametoindex\<close> is not checked either: for an unknown interface it is 0, and the socket is bound to
  index 0, to all interfaces.
\<close>
theorem unknown_interface_bound_to_all:
  assumes "\<And>tr. env tr (NameToIndex netdev) = 0"
  shows "\<exists>r e. bind_socket env ring netdev hw sock io = Inr r \<and>
    prefix (io_trace io @ [(NameToIndex netdev, 0), (Bind sock 0, e)]) (io_trace (snd (snd r)))"
proof -
  have grows: "prefix xs (io_trace (snd (sys env c io')))" if "prefix xs (io_trace io')" for xs c io'
    using that by (auto simp: sys_def Let_def)
  have noted: "io_trace (note_that x io') = io_trace io'" for x io' by (simp add: note_that_def)
  have stamps: "prefix xs (io_trace (enable_timestamps env sock' name io'))" if "prefix xs (io_trace io')" for xs sock' name io'
    using that by (auto simp: enable_timestamps_def split_beta Let_def noted intro: grows)
  let ?io1 = "snd (sys env (NameToIndex netdev) io)"
  let ?bind = "sys env (Bind sock 0) ?io1"
  let ?fanout = "sys env (PacketFanout sock (rg_fanout_id ring)) (snd ?bind)"
  define xs where "xs = io_trace io @ [(NameToIndex netdev, 0), (Bind sock 0, fst ?bind)]"
  have bound: "prefix xs (io_trace (snd ?bind))" using assms by (simp add: xs_def sys_def Let_def)
  note p = bound grows [OF bound]
  have z: "fst (sys env (NameToIndex netdev) io) = 0" using assms by (simp add: fst_sys)
  obtain name where name: "c_strncpy (netdev @ [0]) IFNAMSIZ = Inr name" using name_copied by blast
  have "\<exists>r. bind_socket env ring netdev hw sock io = Inr r \<and> prefix xs (io_trace (snd (snd r)))"
    unfolding bind_socket_def split_beta Let_def z fail_def name and_then_Inr
    using p stamps [OF p(2)] by (simp add: noted)
  then show ?thesis unfolding xs_def by blast
qed

text \<open>A machine on which \<open>bind\<close> fails.\<close>

definition sample_environment :: environment where
  "sample_environment tr c =
     (case c of Socket \<Rightarrow> 5 | Mmap _ _ \<Rightarrow> 4096 | Malloc _ \<Rightarrow> 8192 | Bind _ _ \<Rightarrow> -1 | _ \<Rightarrow> 0)"

definition sample_thread :: thread_context where
  "sample_thread = \<lparr>tc_thread_num = 0, tc_fanout_id = 1111, tc_interface = bytes_of ''eth0'', tc_port = 9880,
     tc_rb = ctx_rb sample_ctx, tc_cpu_num = 3\<rparr>"

lemma sample_setup:
  "\<exists>ring io. setup_socket sample_environment ring0 netdev hw (set_affinity sample_environment 3 no_io) =
     Inr (-1, ring, io) \<and> io_notices io = [AffinitySet, BindFailed]"
  by (simp add: setup_socket_def map_blocks_def bind_socket_def set_affinity_def fail_def sample_environment_def
      split_beta Let_def fst_sys no_io_def)

theorem capture_thread_lifecycle_witness:
  "\<exists>io. vmars_poll_socket sample_environment (\<lambda>i. packet_sigint (interrupted 7 i)) (\<lambda>_ b. b) [] sample_thread 0
      sample_ctx no_io = Some (Inr (None, io)) \<and> leaves_behind BindFailed (held io)"
proof -
  have m: "sample_environment tr (Malloc n) \<noteq> 0" for tr n by (simp add: sample_environment_def)
  obtain ring io where s: "setup_socket sample_environment
      \<lparr>rg_rd = 0, rg_vecs = [], rg_map = 0, rg_req = empty_req, rg_fanout_id = 1111\<rparr>
       (bytes_of ''eth0'') 0 (set_affinity sample_environment 3 no_io) = Inr (-1, ring, io)"
      "io_notices io = [AffinitySet, BindFailed]"
    using sample_setup by blast
  have "boyermoore_init (FIX_PATTERN @ [0]) = Inr fix_matcher"
    using boyermoore_init_matcher [of FIX_PATTERN "[]"] by (auto simp: FIX_PATTERN_bytes fix_matcher_def)
  then have "vmars_poll_socket sample_environment (\<lambda>i. packet_sigint (interrupted 7 i)) (\<lambda>_ b. b) [] sample_thread 0
      sample_ctx no_io = Some (Inr (None, io))"
    using s by (simp add: vmars_poll_socket_def sample_thread_def)
  moreover have "Inr (None, io) \<noteq> map_sum id (\<lambda>t. (Some t, io')) r" for io' and r :: "capture_thread res" by (cases r) simp_all
  ultimately show ?thesis
    using capture_thread_lifecycle [of sample_environment 7 "\<lambda>_ b. b" "[]" sample_thread 0 sample_ctx, OF m] s(2)
    by auto
qed

end
