(* ===== verification/Counter_Handler.thy ===== *)
theory Counter_Handler
  imports Capture_Context Jodie_Client
begin

text \<open>
  The counter thread, \<^verbatim>\<open>src/counter_handler.c\<close>: once a second it adds up the counters of the
  capture threads and the statistics of their sockets and reports the sums as gauges. The answer of
  \<open>getsockopt\<close> for a socket is a parameter, \<open>None\<close> a negative result.
\<close>

subsection \<open>Aggregation\<close>

text \<open>The kernel's \<open>struct tpacket_stats_v3\<close>.\<close>

record tpacket_stats_v3 =
  tp_packets :: "32 word"
  tp_drops :: "32 word"
  tp_freeze_q_cnt :: "32 word"

definition stats_zero :: tpacket_stats_v3 where
  "stats_zero = \<lparr>tp_packets = 0, tp_drops = 0, tp_freeze_q_cnt = 0\<rparr>"

definition gather_socket_stats ::
    "(int \<Rightarrow> tpacket_stats_v3 option) \<Rightarrow> int \<Rightarrow> tpacket_stats_v3 \<Rightarrow> tpacket_stats_v3" where
  "gather_socket_stats getsockopt fdesc aggregate_stats =
     (if fdesc = 0 then aggregate_stats
      else case getsockopt fdesc of
        None \<Rightarrow> aggregate_stats
      | Some stats \<Rightarrow> aggregate_stats\<lparr>
          tp_drops := tp_drops aggregate_stats + tp_drops stats,
          tp_packets := tp_packets aggregate_stats + tp_packets stats,
          tp_freeze_q_cnt := tp_freeze_q_cnt aggregate_stats + tp_freeze_q_cnt stats\<rparr>)"

definition aggregate_one ::
    "vmars_monitoring_counters \<Rightarrow> vmars_monitoring_counters \<Rightarrow> vmars_monitoring_counters" where
  "aggregate_one a c =
     a\<lparr>valid_messages := valid_messages a + valid_messages c,
       invalid_checksums := invalid_checksums a + invalid_checksums c,
       corrupt_messages := corrupt_messages a + corrupt_messages c,
       mass_quote_count := mass_quote_count a + mass_quote_count c,
       mass_quote_ack_count := mass_quote_ack_count a + mass_quote_ack_count c,
       new_order_single_count := new_order_single_count a + new_order_single_count c,
       execution_report_new_count := execution_report_new_count a + execution_report_new_count c,
       trace_request_count := trace_request_count a + trace_request_count c,
       trace_repsonse_count := trace_repsonse_count a + trace_repsonse_count c,
       bytes_total := bytes_total a + bytes_total c\<rparr>"

fun aggregate ::
    "(int \<Rightarrow> tpacket_stats_v3 option) \<Rightarrow> vmars_monitoring_counters list \<Rightarrow>
     vmars_monitoring_counters \<times> tpacket_stats_v3 \<Rightarrow> vmars_monitoring_counters \<times> tpacket_stats_v3" where
  "aggregate getsockopt [] acc = acc"
| "aggregate getsockopt (c # cs) (a, stats) =
     aggregate getsockopt cs (aggregate_one a c, gather_socket_stats getsockopt (fd c) stats)"

subsection \<open>The report\<close>

text \<open>The thirteen gauges, in their order; the counters are signed, the statistics unsigned.\<close>

definition counter_gauges :: "vmars_monitoring_counters \<Rightarrow> tpacket_stats_v3 \<Rightarrow> (byte list \<times> int) list" where
  "counter_gauges a stats =
     [(bytes_of ''vmars.fix.valid_messages'', sint (valid_messages a)),
      (bytes_of ''vmars.fix.invalid_checksums'', sint (invalid_checksums a)),
      (bytes_of ''vmars.fix.corrupt_messages'', sint (corrupt_messages a)),
      (bytes_of ''vmars.fix.mass_quote'', sint (mass_quote_count a)),
      (bytes_of ''vmars.fix.mass_quote_ack'', sint (mass_quote_ack_count a)),
      (bytes_of ''vmars.fix.new_order_single'', sint (new_order_single_count a)),
      (bytes_of ''vmars.fix.execution_report_new'', sint (execution_report_new_count a)),
      (bytes_of ''vmars.fix.trace_request'', sint (trace_request_count a)),
      (bytes_of ''vmars.fix.trace_response'', sint (trace_repsonse_count a)),
      (bytes_of ''vmars.network.bytes'', sint (bytes_total a)),
      (bytes_of ''vmars.network.packets'', uint (tp_packets stats)),
      (bytes_of ''vmars.network.drops'', uint (tp_drops stats)),
      (bytes_of ''vmars.network.freeze_q_cnt'', uint (tp_freeze_q_cnt stats))]"

text \<open>One turn of the loop, after its \<open>sleep (1)\<close>; the milliseconds \<open>now\<close> are the time of the report.\<close>

definition vmars_poll_counters ::
    "(nat \<Rightarrow> byte list \<Rightarrow> bool) \<Rightarrow> (int \<Rightarrow> tpacket_stats_v3 option) \<Rightarrow> int \<Rightarrow>
     vmars_monitoring_counters list \<Rightarrow> jodie \<Rightarrow> jodie res" where
  "vmars_poll_counters sendto getsockopt now counters j =
     (let (aggregate_counters, stats) = aggregate getsockopt counters (counters_zero, stats_zero) in
      and_then (log_all (log_gauge sendto now now) j (counter_gauges aggregate_counters stats)) (flush_gauges sendto))"

text \<open>Turns one after the other: the time of each, the answers of \<open>getsockopt\<close>, and the counters that it finds.\<close>

type_synonym report_input = "int \<times> (int \<Rightarrow> tpacket_stats_v3 option) \<times> vmars_monitoring_counters list"

fun counter_turns :: "(nat \<Rightarrow> byte list \<Rightarrow> bool) \<Rightarrow> report_input list \<Rightarrow> jodie \<Rightarrow> jodie res" where
  "counter_turns sendto [] j = Inr j"
| "counter_turns sendto ((now, getsockopt, counters) # ts) j =
     and_then (vmars_poll_counters sendto getsockopt now counters j) (counter_turns sendto ts)"

subsection \<open>The sums\<close>

definition socket_stats :: "(int \<Rightarrow> tpacket_stats_v3 option) \<Rightarrow> vmars_monitoring_counters list \<Rightarrow> tpacket_stats_v3 list" where
  "socket_stats getsockopt cs = List.map_filter getsockopt (filter (\<lambda>x. x \<noteq> 0) (map fd cs))"

lemma aggregate_sums:
  "aggregate getsockopt cs (a, s) =
    (a\<lparr>valid_messages := valid_messages a + (\<Sum>c\<leftarrow>cs. valid_messages c),
       invalid_checksums := invalid_checksums a + (\<Sum>c\<leftarrow>cs. invalid_checksums c),
       corrupt_messages := corrupt_messages a + (\<Sum>c\<leftarrow>cs. corrupt_messages c),
       mass_quote_count := mass_quote_count a + (\<Sum>c\<leftarrow>cs. mass_quote_count c),
       mass_quote_ack_count := mass_quote_ack_count a + (\<Sum>c\<leftarrow>cs. mass_quote_ack_count c),
       new_order_single_count := new_order_single_count a + (\<Sum>c\<leftarrow>cs. new_order_single_count c),
       execution_report_new_count := execution_report_new_count a + (\<Sum>c\<leftarrow>cs. execution_report_new_count c),
       trace_request_count := trace_request_count a + (\<Sum>c\<leftarrow>cs. trace_request_count c),
       trace_repsonse_count := trace_repsonse_count a + (\<Sum>c\<leftarrow>cs. trace_repsonse_count c),
       bytes_total := bytes_total a + (\<Sum>c\<leftarrow>cs. bytes_total c)\<rparr>,
     \<lparr>tp_packets = tp_packets s + (\<Sum>x\<leftarrow>socket_stats getsockopt cs. tp_packets x),
      tp_drops = tp_drops s + (\<Sum>x\<leftarrow>socket_stats getsockopt cs. tp_drops x),
      tp_freeze_q_cnt = tp_freeze_q_cnt s + (\<Sum>x\<leftarrow>socket_stats getsockopt cs. tp_freeze_q_cnt x)\<rparr>)"
proof (induction cs arbitrary: a s)
  case Nil
  then show ?case by (cases a; cases s) (simp add: socket_stats_def List.map_filter_def)
next
  case (Cons c cs)
  have "socket_stats getsockopt (c # cs) =
      (if fd c = 0 then [] else case getsockopt (fd c) of None \<Rightarrow> [] | Some x \<Rightarrow> [x]) @ socket_stats getsockopt cs"
    by (simp add: socket_stats_def List.map_filter_def split: option.split)
  then show ?case
    by (simp add: Cons aggregate_one_def gather_socket_stats_def add.assoc split: option.split)
qed

text \<open>The same gauges over lists of counters: the specification of the report.\<close>

definition gauge_values :: "(int \<Rightarrow> tpacket_stats_v3 option) \<Rightarrow> vmars_monitoring_counters list \<Rightarrow> (byte list \<times> int) list" where
  "gauge_values getsockopt cs = (let xs = socket_stats getsockopt cs in
     [(bytes_of ''vmars.fix.valid_messages'', sint (\<Sum>c\<leftarrow>cs. valid_messages c)),
      (bytes_of ''vmars.fix.invalid_checksums'', sint (\<Sum>c\<leftarrow>cs. invalid_checksums c)),
      (bytes_of ''vmars.fix.corrupt_messages'', sint (\<Sum>c\<leftarrow>cs. corrupt_messages c)),
      (bytes_of ''vmars.fix.mass_quote'', sint (\<Sum>c\<leftarrow>cs. mass_quote_count c)),
      (bytes_of ''vmars.fix.mass_quote_ack'', sint (\<Sum>c\<leftarrow>cs. mass_quote_ack_count c)),
      (bytes_of ''vmars.fix.new_order_single'', sint (\<Sum>c\<leftarrow>cs. new_order_single_count c)),
      (bytes_of ''vmars.fix.execution_report_new'', sint (\<Sum>c\<leftarrow>cs. execution_report_new_count c)),
      (bytes_of ''vmars.fix.trace_request'', sint (\<Sum>c\<leftarrow>cs. trace_request_count c)),
      (bytes_of ''vmars.fix.trace_response'', sint (\<Sum>c\<leftarrow>cs. trace_repsonse_count c)),
      (bytes_of ''vmars.network.bytes'', sint (\<Sum>c\<leftarrow>cs. bytes_total c)),
      (bytes_of ''vmars.network.packets'', uint (\<Sum>x\<leftarrow>xs. tp_packets x)),
      (bytes_of ''vmars.network.drops'', uint (\<Sum>x\<leftarrow>xs. tp_drops x)),
      (bytes_of ''vmars.network.freeze_q_cnt'', uint (\<Sum>x\<leftarrow>xs. tp_freeze_q_cnt x))])"

lemma gauges_of_aggregate:
  "(let (a, s) = aggregate getsockopt cs (counters_zero, stats_zero) in counter_gauges a s) = gauge_values getsockopt cs"
  unfolding aggregate_sums
  by (simp add: counter_gauges_def gauge_values_def counters_zero_def stats_zero_def Let_def)

lemma poll_counters_gauges:
  "vmars_poll_counters sendto getsockopt now cs j =
     and_then (log_all (log_gauge sendto now now) j (gauge_values getsockopt cs)) (flush_gauges sendto)"
  unfolding vmars_poll_counters_def gauges_of_aggregate[symmetric] by (simp add: split_beta Let_def)

lemma gauge_values_fit: "gauges_fit (map fst (gauge_values getsockopt cs))"
proof -
  have "map fst (gauge_values getsockopt cs) = map bytes_of
    [''vmars.fix.valid_messages'', ''vmars.fix.invalid_checksums'', ''vmars.fix.corrupt_messages'',
     ''vmars.fix.mass_quote'', ''vmars.fix.mass_quote_ack'', ''vmars.fix.new_order_single'',
     ''vmars.fix.execution_report_new'', ''vmars.fix.trace_request'', ''vmars.fix.trace_response'',
     ''vmars.network.bytes'', ''vmars.network.packets'', ''vmars.network.drops'', ''vmars.network.freeze_q_cnt'']"
    by (simp add: gauge_values_def Let_def)
  moreover have "gauges_fit \<dots>" by code_simp
  ultimately show ?thesis by simp
qed

subsection \<open>Properties\<close>

text \<open>Two capture threads, the socket of the second without statistics.\<close>

definition sample_counters :: "vmars_monitoring_counters list" where
  "sample_counters =
     [counters_zero\<lparr>fd := 4, valid_messages := 10, parsing_errors := 2\<rparr>,
      counters_zero\<lparr>fd := 5, valid_messages := 5, bytes_total := 1\<rparr>]"

definition sample_getsockopt :: "int \<Rightarrow> tpacket_stats_v3 option" where
  "sample_getsockopt f = (if f = 4 then Some \<lparr>tp_packets = 9, tp_drops = 1, tp_freeze_q_cnt = 0\<rparr> else None)"

text \<open>
  The counter of parsing errors, which the capture threads do keep, is in no report: turns with
  counters that differ only in \<open>parsing_errors\<close> do the same.
\<close>
theorem parsing_errors_unreported:
  "vmars_poll_counters sendto getsockopt now (map (\<lambda>c. c\<lparr>parsing_errors := f c\<rparr>) cs) j =
   vmars_poll_counters sendto getsockopt now cs j"
  unfolding poll_counters_gauges
  by (simp add: gauge_values_def socket_stats_def o_def)

subsection \<open>The copied client\<close>

text \<open>
  \<^verbatim>\<open>src/main.c\<close> gives the counter thread a client on the stack that is copied with \<open>jodie_dup\<close>, which copies the
  index 0 and leaves the buffer, bytes \<open>b\<close> that were never written, as it is. \<open>raw_text j b p\<close>: the text \<open>p\<close> in
  front of what is left of them.
\<close>

definition raw_text :: "jodie \<Rightarrow> byte list \<Rightarrow> byte list \<Rightarrow> bool" where
  "raw_text j b p \<longleftrightarrow> length b = BUFFER_SIZE \<and> 0 \<notin> set p \<and> length p \<le> PACKET_SIZE \<and>
     jd_send_buffer j = p @ drop (length p) b \<and> jd_send_index j = of_nat (length p)"

lemma raw_append:
  assumes h: "raw_text j b p" and l: "line_text l" and fits: "length p + length l \<le> PACKET_SIZE"
  shows "\<exists>j'. jodie_append 64 sendto j (c_line l) = Inr (0, j') \<and> raw_text j' b (p @ l) \<and> jd_sent j' = jd_sent j"
proof -
  have i: "unat (jd_send_index j) = length p" "uint (jd_send_index j) = int (length p)"
    using h small_index[of "length p"] by (simp_all add: raw_text_def BUFFER_SIZE_def PACKET_SIZE_def)
  have "(int (length l) + int (length p)) mod 2 ^ 64 \<le> int PACKET_SIZE"
    using fits by (simp add: PACKET_SIZE_def)
  moreover have "buffer_store (jd_send_buffer j) (length p) l = Inr ((p @ l) @ drop (length (p @ l)) b)"
    using h fits by (simp add: buffer_store_def raw_text_def BUFFER_SIZE_def PACKET_SIZE_def add.commute)
  moreover have "jd_send_index j + of_nat (length l) = of_nat (length (p @ l))" using h by (simp add: raw_text_def)
  ultimately have "jodie_append 64 sendto j (c_line l) = Inr (0,
      j\<lparr>jd_send_buffer := (p @ l) @ drop (length (p @ l)) b, jd_send_index := of_nat (length (p @ l))\<rparr>)"
    (is "_ = Inr (0, ?j')")
    using c_line_string[OF l] by (simp add: jodie_append_def i not_less del: append_assoc length_append of_nat_add)
  moreover have "raw_text ?j' b (p @ l)" using h l fits by (simp add: raw_text_def)
  ultimately show ?thesis by auto
qed

lemma raw_gauges:
  "raw_text j b p \<Longrightarrow> \<forall>x\<in>set (map fst gs). 0 \<notin> set x \<and> length x \<le> 1024 \<Longrightarrow>
     length p + (\<Sum>x\<leftarrow>map fst gs. length x + 54) \<le> PACKET_SIZE \<Longrightarrow>
     \<exists>j'. log_all (log_gauge sendto now t) j gs = Inr j' \<and> raw_text j' b (p @ concat (map (gauge_text now t) gs)) \<and>
       jd_sent j' = jd_sent j"
proof (induction gs arbitrary: j p)
  case (Cons g gs)
  let ?l = "metric_text now (Gauge (fst g) (snd g) t)"
  have m: "metric_strings (Gauge (fst g) (snd g) t)" "\<not> datapath_too_long (metric_path (Gauge (fst g) (snd g) t))"
    using Cons.prems(2) by (simp_all add: datapath_too_long_def BUFFER_SIZE_def)
  have len: "length ?l \<le> length (fst g) + 54" using gauge_text_length[of now t g] by (simp add: gauge_text_def)
  have line: "line_text ?l" using metric_text_string[OF m(1), of now] metric_text_length[OF m(2), of now]
    by (simp add: BUFFER_SIZE_def PACKET_SIZE_def)
  from raw_append[OF Cons.prems(1) this, of sendto] len Cons.prems(3) obtain j1 where
    j1: "jodie_append 64 sendto j (c_line ?l) = Inr (0, j1)" "raw_text j1 b (p @ ?l)" "jd_sent j1 = jd_sent j" by auto
  moreover from this(1) have "log_gauge sendto now t j g = Inr j1"
    using jodie_log_accepted[OF m(2), of now sendto j] line by (simp add: log_gauge_def)
  moreover have "length (p @ ?l) + (\<Sum>x\<leftarrow>map fst gs. length x + 54) \<le> PACKET_SIZE" using Cons.prems(3) len by simp
  ultimately show ?case using Cons.IH[OF j1(2)] Cons.prems(2) by (auto simp: gauge_text_def)
qed auto

text \<open>What a flush sends behind the text: the bytes up to the first zero, which may lie beyond the buffer.\<close>

lemma c_strlen_first_nul:
  assumes "0 \<notin> set p" and "0 \<in> set q"
  shows "c_strlen (p @ q) = Inr (length p + length (takeWhile (\<lambda>x. x \<noteq> 0) q))"
proof -
  obtain u v where q: "q = u @ 0 # v" "0 \<notin> set u" using split_list_first[OF assms(2)] by blast
  then have "takeWhile (\<lambda>x. x \<noteq> 0) q = u" by (auto simp: takeWhile_append)
  then show ?thesis using q assms(1) c_strlen_append[of "p @ u" v] by simp
qed

lemma raw_flush:
  assumes h: "raw_text j b p" and sent: "jd_sent j = sent"
  shows "if 0 \<in> set (drop (length p) b)
    then \<exists>j'. flush_gauges reliable j = Inr j' \<and>
      jodie_state j' (sent @ [p @ takeWhile (\<lambda>x. x \<noteq> 0) (drop (length p) b)], [])
    else flush_gauges sendto j = Inl OutOfBounds"
proof (cases "0 \<in> set (drop (length p) b)")
  case True
  let ?t = "takeWhile (\<lambda>x. x \<noteq> 0) (drop (length p) b)"
  have b: "jd_send_buffer j = p @ drop (length p) b" using h by (simp add: raw_text_def)
  then have "c_strlen (jd_send_buffer j) = Inr (length p + length ?t)"
    using c_strlen_first_nul[OF _ True, of p] h by (simp add: raw_text_def)
  moreover have "take (length p + length ?t) (jd_send_buffer j) = p @ ?t"
    unfolding b by (simp flip: takeWhile_eq_take)
  ultimately show ?thesis using True sent
    by (simp add: flush_gauges_def jodie_flush_def reliable_def Let_def jodie_state_def jodie_holds_def BUFFER_SIZE_def)
next
  case False
  with h have "c_strlen (jd_send_buffer j) = Inl OutOfBounds" by (simp add: raw_text_def c_strlen_no_nul)
  with False show ?thesis by (simp add: flush_gauges_def jodie_flush_def)
qed

subsection \<open>The reports\<close>

text \<open>The text of one report: the thirteen gauges with the sums.\<close>

definition report_text :: "report_input \<Rightarrow> byte list" where
  "report_text t = (case t of (now, getsockopt, cs) \<Rightarrow> concat (map (gauge_text now now) (gauge_values getsockopt cs)))"

lemma raw_turn:
  assumes "jd_send_index j = 0" and "length (jd_send_buffer j) = BUFFER_SIZE" and "jd_sent j = sent"
    and p: "p = report_text (now, getsockopt, cs)"
  shows "if 0 \<in> set (drop (length p) (jd_send_buffer j))
    then \<exists>j'. vmars_poll_counters reliable getsockopt now cs j = Inr j' \<and>
      jodie_state j' (sent @ [p @ takeWhile (\<lambda>x. x \<noteq> 0) (drop (length p) (jd_send_buffer j))], [])
    else vmars_poll_counters sendto getsockopt now cs j = Inl OutOfBounds"
proof -
  have "raw_text j (jd_send_buffer j) []" using assms(1,2) by (simp add: raw_text_def)
  moreover have "\<forall>x\<in>set (map fst (gauge_values getsockopt cs)). 0 \<notin> set x \<and> length x \<le> 1024"
    and "length ([] :: byte list) + (\<Sum>x\<leftarrow>map fst (gauge_values getsockopt cs). length x + 54) \<le> PACKET_SIZE"
    using gauge_values_fit[of getsockopt cs] by (simp_all add: gauges_fit_def)
  ultimately have log: "\<exists>j'. log_all (log_gauge sendto now now) j (gauge_values getsockopt cs) = Inr j' \<and>
      raw_text j' (jd_send_buffer j) p \<and> jd_sent j' = sent" for sendto
    using raw_gauges[of j "jd_send_buffer j" "[]" "gauge_values getsockopt cs" sendto now now] assms(3)
    by (simp add: p report_text_def)
  show ?thesis
  proof (cases "0 \<in> set (drop (length p) (jd_send_buffer j))")
    case True
    obtain j' where "log_all (log_gauge reliable now now) j (gauge_values getsockopt cs) = Inr j'"
      "raw_text j' (jd_send_buffer j) p" "jd_sent j' = sent" using log by blast
    with True raw_flush[of j' "jd_send_buffer j" p sent] show ?thesis by (simp add: poll_counters_gauges)
  next
    case False
    obtain j' where "log_all (log_gauge sendto now now) j (gauge_values getsockopt cs) = Inr j'"
      "raw_text j' (jd_send_buffer j) p" "jd_sent j' = sent" using log by blast
    with False raw_flush[of j' "jd_send_buffer j" p sent] show ?thesis by (simp add: poll_counters_gauges)
  qed
qed

text \<open>From an initialised buffer, or after the first turn, every turn sends its report and nothing else.\<close>

lemma counter_turns_reported:
  "jodie_state j (sent, []) \<Longrightarrow>
     \<exists>j'. counter_turns reliable ts j = Inr j' \<and> jodie_state j' (sent @ map report_text ts, [])"
proof (induction ts arbitrary: j sent)
  case (Cons t ts)
  obtain now getsockopt cs where t: "t = (now, getsockopt, cs)" by (cases t)
  from gauge_report_sends[OF Cons.prems gauge_values_fit[of getsockopt cs], of now now] obtain j1
    where "vmars_poll_counters reliable getsockopt now cs j = Inr j1" "jodie_state j1 (sent @ [report_text t], [])"
    by (auto simp: poll_counters_gauges t report_text_def)
  with Cons.IH show ?case by (fastforce simp: t)
qed auto

text \<open>
  C24: the counter thread with the client that main gives it, \<open>dst\<close> copied by \<open>jodie_dup\<close> from an initialised one
  and with any \<open>BUFFER_SIZE\<close> bytes in its buffer, while \<open>sendto\<close> succeeds. The first turn sends its report and
  behind it the bytes that follow in the buffer up to the first zero, and reads beyond the buffer if there is
  none. Every later turn sends exactly one datagram, its report and nothing else. A report is the thirteen gauges
  with the sums over all capture threads and, for the sockets that are open and answer, of their statistics.
\<close>
theorem counters_reported:
  assumes "jodie_init inet_aton socket host port j0 = (0, src)"
    and "length (jd_send_buffer dst) = BUFFER_SIZE" and "jd_sent dst = []"
    and "p = report_text t" and "junk = drop (length p) (jd_send_buffer dst)"
  shows "if 0 \<in> set junk
    then \<exists>j'. counter_turns reliable (t # ts) (snd (jodie_dup src dst)) = Inr j' \<and>
      jodie_state j' ((p @ takeWhile (\<lambda>x. x \<noteq> 0) junk) # map report_text ts, [])
    else counter_turns sendto (t # ts) (snd (jodie_dup src dst)) = Inl OutOfBounds"
proof -
  obtain now getsockopt cs where t: "t = (now, getsockopt, cs)" by (cases t)
  let ?j = "snd (jodie_dup src dst)"
  have j: "jd_send_index ?j = 0" "length (jd_send_buffer ?j) = BUFFER_SIZE" "jd_sent ?j = []"
    and b: "jd_send_buffer ?j = jd_send_buffer dst"
    using assms(2,3) jodie_init_holds[OF assms(1)] by (simp_all add: jodie_dup_def jodie_holds_def)
  note turn = raw_turn[OF j assms(4)[unfolded t], unfolded b, folded assms(5)]
  show ?thesis
  proof (cases "0 \<in> set junk")
    case True
    with turn obtain j1 where j1: "vmars_poll_counters reliable getsockopt now cs ?j = Inr j1"
      "jodie_state j1 ([p @ takeWhile (\<lambda>x. x \<noteq> 0) junk], [])" by auto
    with True counter_turns_reported[OF j1(2), of ts] show ?thesis by (simp add: t)
  next
    case False
    with turn[of sendto] show ?thesis by (simp add: t)
  qed
qed

theorem counters_reported_witness:
  "\<exists>j'. counter_turns reliable [(1000, sample_getsockopt, sample_counters), (2000, sample_getsockopt, [])]
      (snd (jodie_dup (fresh_jodie\<lparr>jd_port := 41000\<rparr>) (fresh_jodie\<lparr>jd_send_buffer := replicate 2047 170 @ [0]\<rparr>))) = Inr j' \<and>
    (\<exists>rest. jd_sent j' = [bytes_of ''vmars.fix.valid_messages 15 1000 type=gauge'' @ [10] @ rest @ [170],
      report_text (2000, sample_getsockopt, [])])"
proof -
  let ?t = "(1000, sample_getsockopt, sample_counters)" and ?u = "(2000, sample_getsockopt, [])"
  let ?b = "replicate 2047 170 @ [0] :: byte list"
  have b: "length (jd_send_buffer (fresh_jodie\<lparr>jd_send_buffer := ?b\<rparr>)) = BUFFER_SIZE"
    "jd_sent (fresh_jodie\<lparr>jd_send_buffer := ?b\<rparr>) = []" by (simp_all add: BUFFER_SIZE_def)
  have v: "hd (gauge_values sample_getsockopt sample_counters) = (bytes_of ''vmars.fix.valid_messages'', 15)"
    by (simp add: gauge_values_def sample_counters_def counters_zero_def Let_def)
  obtain r where r: "gauge_values sample_getsockopt sample_counters = (bytes_of ''vmars.fix.valid_messages'', 15) # r"
    using v by (cases "gauge_values sample_getsockopt sample_counters") (auto simp: gauge_values_def Let_def)
  have t: "gauge_text 1000 1000 (bytes_of ''vmars.fix.valid_messages'', 15) =
      bytes_of ''vmars.fix.valid_messages 15 1000 type=gauge'' @ [10]" by code_simp
  let ?p = "report_text ?t"
  have p: "?p = bytes_of ''vmars.fix.valid_messages 15 1000 type=gauge'' @ [10] @ concat (map (gauge_text 1000 1000) r)"
    by (simp add: report_text_def r t)
  have "length ?p \<le> PACKET_SIZE"
    using gauges_text_length[of 1000 1000 "gauge_values sample_getsockopt sample_counters"]
      gauge_values_fit[of sample_getsockopt sample_counters] by (simp add: report_text_def gauges_fit_def)
  then have junk: "drop (length ?p) ?b = replicate (2046 - length ?p) 170 @ [170, 0]"
    by (simp add: PACKET_SIZE_def replicate_append_same flip: replicate_Suc)
  then have "takeWhile (\<lambda>x. x \<noteq> 0) (drop (length ?p) ?b) = replicate (2046 - length ?p) 170 @ [170]" "0 \<in> set (drop (length ?p) ?b)"
    by (simp_all add: takeWhile_append)
  with counters_reported[OF fresh_jodie_init b refl refl, of ?t "[?u]"] show ?thesis
    by (auto simp: jodie_state_def p)
qed

text \<open>
  When the memory of the copied client, a variable on the stack of \<open>main\<close>, holds no zero byte, the first report of
  the counter thread reads beyond it.
\<close>
theorem dup_report_over_reads:
  assumes "jd_send_index src = 0" and "length (jd_send_buffer dst) = BUFFER_SIZE" and "0 \<notin> set (jd_send_buffer dst)"
  shows "vmars_poll_counters sendto getsockopt now cs (snd (jodie_dup src dst)) = Inl OutOfBounds"
proof -
  let ?j = "snd (jodie_dup src dst)"
  have j: "jd_send_index ?j = 0" "length (jd_send_buffer ?j) = BUFFER_SIZE" "0 \<notin> set (drop n (jd_send_buffer ?j))" for n
    using assms by (auto simp: jodie_dup_def dest: in_set_dropD)
  with raw_turn[OF j(1,2) refl refl, of now getsockopt cs sendto] show ?thesis by simp
qed

theorem dup_report_over_reads_witness:
  "vmars_poll_counters reliable sample_getsockopt 1000 sample_counters
     (snd (jodie_dup fresh_jodie (fresh_jodie\<lparr>jd_send_buffer := replicate BUFFER_SIZE 170\<rparr>))) = Inl OutOfBounds"
proof -
  have i: "jd_send_index fresh_jodie = 0" by (simp add: fresh_jodie_def)
  show ?thesis by (rule dup_report_over_reads[OF i]) (simp_all add: set_replicate_conv_if)
qed

end
