(* ===== verification/Vmars_Threads.thy ===== *)
theory Vmars_Threads
  imports Capture_Thread Counter_Handler Latency_Handler
begin

text \<open>
  The threads of the program with their loops, how \<open>SIGINT\<close> ends them, and how \<open>main\<close> of \<^verbatim>\<open>src/main.c\<close> starts
  and joins them.
\<close>

subsection \<open>The counter and the latency thread\<close>

text \<open>What a turn gets from outside: the counters of the capture threads, the sockets' statistics, the time.\<close>

record counter_input =
  ci_counters :: "vmars_monitoring_counters list"
  ci_getsockopt :: "int \<Rightarrow> tpacket_stats_v3 option"
  ci_now :: int

definition counter_turn :: "(nat \<Rightarrow> byte list \<Rightarrow> bool) \<Rightarrow> (nat \<Rightarrow> counter_input) \<Rightarrow> nat \<Rightarrow> jodie \<Rightarrow> jodie res" where
  "counter_turn sendto input i j =
     vmars_poll_counters sendto (ci_getsockopt (input i)) (ci_now (input i)) (ci_counters (input i)) j"

definition counter_thread ::
    "(nat \<Rightarrow> int) \<Rightarrow> (nat \<Rightarrow> byte list \<Rightarrow> bool) \<Rightarrow> (nat \<Rightarrow> counter_input) \<Rightarrow> jodie \<Rightarrow> jodie res option" where
  "counter_thread sigint sendto input j = signal_loop sigint (counter_turn sendto input) 0 j"

text \<open>
  For the latency thread: the clock in milliseconds and in seconds, and the rings as the capture threads have
  changed them since the turn before. The thread starts with an empty table and the histogram of
  \<open>hdr_init\<close>; \<open>start_sec\<close> is the first reading of the clock.
\<close>

record latency_input =
  li_now :: int
  li_sec :: int
  li_rings :: "vmars_spsc_rb list \<Rightarrow> vmars_spsc_rb list"

definition latency_turn_input ::
    "'h hdr_api \<Rightarrow> (nat \<Rightarrow> byte list \<Rightarrow> bool) \<Rightarrow> (nat \<Rightarrow> latency_input) \<Rightarrow> nat \<Rightarrow> 'h latency_thread \<Rightarrow> 'h latency_thread res" where
  "latency_turn_input api sendto input i st =
     poll_ring_buffers api sendto (li_now (input i)) (li_sec (input i)) (st\<lparr>lt_rings := li_rings (input i) (lt_rings st)\<rparr>)"

definition latency_start :: "'h \<Rightarrow> int \<Rightarrow> vmars_spsc_rb list \<Rightarrow> jodie \<Rightarrow> 'h latency_thread" where
  "latency_start histogram start_sec rings j =
     \<lparr>lt_table = Map.empty, lt_histogram = histogram, lt_completed_requests = 0, lt_last_sec = start_sec,
      lt_rings = rings, lt_jodie = j\<rparr>"

definition latency_thread_run ::
    "'h hdr_api \<Rightarrow> 'h \<Rightarrow> (nat \<Rightarrow> int) \<Rightarrow> (nat \<Rightarrow> byte list \<Rightarrow> bool) \<Rightarrow> int \<Rightarrow> (nat \<Rightarrow> latency_input) \<Rightarrow>
     vmars_spsc_rb list \<Rightarrow> jodie \<Rightarrow> 'h latency_thread res option" where
  "latency_thread_run api histogram sigint sendto start_sec input rings j =
     signal_loop sigint (latency_turn_input api sendto input) 0 (latency_start histogram start_sec rings j)"

subsection \<open>Starting and joining\<close>

datatype main_call =
    CreateCapture nat | JodieInit | JodieDup | CreateLatency | CreateCounters
  | JoinCapture nat | JoinLatency | JoinCounters | JodieClose

text \<open>The calls of \<open>main\<close> for \<open>n\<close> interfaces when all set-ups succeed; the loop of joins counts to \<open>num_threads\<close>.\<close>

definition main_calls :: "nat \<Rightarrow> vmars_config \<Rightarrow> main_call list" where
  "main_calls n config =
     map CreateCapture [0..<n * nat (num_threads config)] @
     [JodieInit, JodieDup, CreateLatency, CreateCounters] @
     map JoinCapture [0..<nat (num_threads config)] @
     [JoinLatency, JoinCounters, JodieClose]"

theorem capture_threads_not_joined:
  "CreateCapture k \<in> set (main_calls n config) \<and> JoinCapture k \<notin> set (main_calls n config) \<longleftrightarrow>
     nat (num_threads config) \<le> k \<and> k < n * nat (num_threads config)"
  by (auto simp: main_calls_def)

subsection \<open>Property\<close>

text \<open>The ring of a capture thread before its set-up.\<close>

definition ring_before :: "thread_context \<Rightarrow> ring" where
  "ring_before tc = \<lparr>rg_rd = 0, rg_vecs = [], rg_map = 0, rg_req = empty_req, rg_fanout_id = tc_fanout_id tc\<rparr>"

lemma poll_socket_eq:
  "vmars_poll_socket env sigint memory blocks tc hw ctx io =
    (case setup_socket env (ring_before tc) (tc_interface tc) hw (set_affinity env (tc_cpu_num tc) io) of
       Inl f \<Rightarrow> Some (Inl f)
     | Inr (sock, ring, io') \<Rightarrow>
         if sock < 0 then Some (Inr (None, io'))
         else map_option (map_sum id (\<lambda>t. (Some t, teardown_socket env ring sock io')))
           (signal_loop sigint (capture_turn memory) 0 (capture_start ctx fix_matcher sock blocks)))"
proof -
  have "boyermoore_init (FIX_PATTERN @ [0]) = Inr fix_matcher"
    using boyermoore_init_matcher [of FIX_PATTERN "[]"] by (auto simp: FIX_PATTERN_bytes fix_matcher_def)
  then show ?thesis by (simp add: vmars_poll_socket_def ring_before_def split: sum.split)
qed

lemma no_signal_no_end: "signal_loop (\<lambda>_. 0) turn i s \<noteq> Some (Inr s')"
  using signal_loop_ended [of "\<lambda>_. 0"] by auto

text \<open>
  C30: the signal, and only the signal, ends the threads. A capture thread whose set-up faults or fails is over at once,
  whatever the signal does. A capture thread whose set-up gives a socket, the counter thread and the latency thread
  make exactly \<open>n\<close> turns when \<open>root_sighandler\<close> runs during turn \<open>n - 1\<close>, the capture thread then its teardown, and
  end in the state of these turns, or with the fault of one of them; without the signal none comes to its end. A turn of the capture
  thread that waits in \<open>poll\<close>, which has no timeout, is taken to come back.
\<close>
theorem threads_end_with_signal:
  "(case setup_socket env (ring_before tc) (tc_interface tc) hw (set_affinity env (tc_cpu_num tc) io) of
      Inl f \<Rightarrow> vmars_poll_socket env sigint memory blocks tc hw ctx io = Some (Inl f)
    | Inr (sock, ring, io') \<Rightarrow>
        if sock < 0 then vmars_poll_socket env sigint memory blocks tc hw ctx io = Some (Inr (None, io'))
        else vmars_poll_socket env (\<lambda>i. packet_sigint (interrupted n i)) memory blocks tc hw ctx io =
            Some (map_sum id (\<lambda>t. (Some t, teardown_socket env ring sock io'))
              (run_turns (capture_turn memory) 0 n (capture_start ctx fix_matcher sock blocks))) \<and>
          vmars_poll_socket env (\<lambda>i. packet_sigint no_signal) memory blocks tc hw ctx io \<noteq> Some (Inr ended)) \<and>
   counter_thread (\<lambda>i. counters_sigint (interrupted n i)) sendto cin j =
     Some (run_turns (counter_turn sendto cin) 0 n j) \<and>
   latency_thread_run api histogram (\<lambda>i. latency_sigint (interrupted n i)) sendto start_sec lin rings j =
     Some (run_turns (latency_turn_input api sendto lin) 0 n (latency_start histogram start_sec rings j)) \<and>
   counter_thread (\<lambda>i. counters_sigint no_signal) sendto cin j \<noteq> Some (Inr j') \<and>
   latency_thread_run api histogram (\<lambda>i. latency_sigint no_signal) sendto start_sec lin rings j \<noteq> Some (Inr st)"
proof (intro conjI)
  have no_end: "map_option (map_sum id g) (signal_loop (\<lambda>_. 0) (capture_turn memory) 0 t) \<noteq> Some (Inr ended)"
    for g :: "capture_thread \<Rightarrow> capture_thread option \<times> io" and t
    using no_signal_no_end [of "capture_turn memory" 0 t] by (auto simp: map_sum_def split: sum.splits)
  show "case setup_socket env (ring_before tc) (tc_interface tc) hw (set_affinity env (tc_cpu_num tc) io) of
      Inl f \<Rightarrow> vmars_poll_socket env sigint memory blocks tc hw ctx io = Some (Inl f)
    | Inr (sock, ring, io') \<Rightarrow>
        if sock < 0 then vmars_poll_socket env sigint memory blocks tc hw ctx io = Some (Inr (None, io'))
        else vmars_poll_socket env (\<lambda>i. packet_sigint (interrupted n i)) memory blocks tc hw ctx io =
            Some (map_sum id (\<lambda>t. (Some t, teardown_socket env ring sock io'))
              (run_turns (capture_turn memory) 0 n (capture_start ctx fix_matcher sock blocks))) \<and>
          vmars_poll_socket env (\<lambda>i. packet_sigint no_signal) memory blocks tc hw ctx io \<noteq> Some (Inr ended)"
    using no_end by (simp add: poll_socket_eq interrupted_ends no_signal_def split: sum.split prod.split)
qed (auto simp: interrupted_ends counter_thread_def latency_thread_run_def no_signal_def no_signal_no_end)

text \<open>A machine on which the set-up succeeds, and a network on which no packet arrives.\<close>

definition good_environment :: environment where
  "good_environment tr c = (case c of Socket \<Rightarrow> 5 | Mmap _ _ \<Rightarrow> 4096 | Malloc _ \<Rightarrow> 8192 | _ \<Rightarrow> 0)"

definition idle_blocks :: "byte list list" where
  "idle_blocks = replicate 64 (replicate 48 0)"

lemma idle_turns:
  assumes "ct_blocks t = idle_blocks" and "ct_block_num t = 0"
  shows "run_turns (capture_turn (\<lambda>_ b. b)) i n t = Inr t"
proof (induction n arbitrary: i)
  case (Suc n)
  have "block_status (replicate 48 0) = Inr 0" by code_simp
  then have "owned_by_kernel (ct_blocks t ! ct_block_num t)"
    using assms by (simp add: owned_by_kernel_def idle_blocks_def)
  moreover have "ct_block_num t < length (ct_blocks t)" using assms by (simp add: idle_blocks_def)
  ultimately have "poll_block t = Inr t" by (rule poll_kernel)
  with Suc.IH show ?case by (simp add: capture_turn_def)
qed simp

text \<open>Three idle turns, the signal during the third, and the teardown in the order of its calls.\<close>

theorem threads_end_with_signal_witness:
  "\<exists>t io. vmars_poll_socket good_environment (\<lambda>i. packet_sigint (interrupted 3 i)) (\<lambda>_ b. b) idle_blocks sample_thread 0
      sample_ctx no_io = Some (Inr (Some t, io)) \<and>
    map fst (drop (length (io_trace io) - 3) (io_trace io)) = [Munmap 4096 (2 ^ 28), Free 8192, Close 5] \<and>
    vmars_poll_socket good_environment (\<lambda>i. packet_sigint no_signal) (\<lambda>_ b. b) idle_blocks sample_thread 0
      sample_ctx no_io \<noteq> Some (Inr (Some t, io))"
proof -
  obtain ring io where s: "setup_socket good_environment (ring_before sample_thread) (tc_interface sample_thread) 0
      (set_affinity good_environment (tc_cpu_num sample_thread) no_io) = Inr (5, ring, io)"
    and r: "rg_map ring = 4096" "rg_rd ring = 8192" "map_len ring = 2 ^ 28"
  proof -
    obtain name where "c_strncpy (tc_interface sample_thread @ [0]) IFNAMSIZ = Inr name" using name_copied by blast
    then have "\<exists>ring io. setup_socket good_environment (ring_before sample_thread) (tc_interface sample_thread) 0
        (set_affinity good_environment (tc_cpu_num sample_thread) no_io) = Inr (5, ring, io) \<and>
        rg_map ring = 4096 \<and> rg_rd ring = 8192 \<and> map_len ring = 2 ^ 28"
      by (simp add: setup_socket_def map_blocks_def bind_socket_def set_affinity_def fail_def good_environment_def
          split_beta Let_def fst_sys map_len_def ring_request_def)
    then show ?thesis using that by blast
  qed
  let ?t = "capture_start sample_ctx fix_matcher 5 idle_blocks"
  have run: "run_turns (capture_turn (\<lambda>_ b. b)) 0 3 ?t = Inr ?t"
    by (rule idle_turns) (simp_all add: capture_start_def)
  note ends = threads_end_with_signal [where env = good_environment and tc = sample_thread and hw = 0 and io = no_io
      and memory = "\<lambda>_ b. b" and blocks = idle_blocks and ctx = sample_ctx and n = 3, THEN conjunct1, unfolded s, simplified, unfolded run]
  show ?thesis
    by (intro exI conjI, rule ends [THEN conjunct1, simplified])
      (use ends [THEN conjunct2] r in \<open>simp_all add: teardown_socket_def sys_def Let_def\<close>)
qed

end
