(* ===== verification/Khash.thy ===== *)
theory Khash
  imports Vmars_Prelude
begin

text \<open>
  The hash table of \<^verbatim>\<open>src/khash.h\<close>, which \<^verbatim>\<open>src/fix.c\<close> instantiates for the fragments of the streams and
  \<^verbatim>\<open>src/latency_handler.c\<close> for the latency records: open addressing with triangular probing, two flag bits
  per bucket packed into 32-bit words, and a rehash in place that kicks out the entries in its way. The hash
  function is a parameter, the equality of keys is equality. A key or value that was never written is \<open>None\<close>.
\<close>

type_synonym khint = "32 word"

subsection \<open>The flags\<close>

text \<open>
  The macros read and change the two bits of bucket \<open>i\<close> in word \<open>i >> 4\<close>: the upper one says that the bucket is
  empty, the lower one that it is deleted.
\<close>

definition ac_shift :: "khint \<Rightarrow> nat" where
  "ac_shift i = unat (push_bit 1 (i AND 0xF))"

definition ac_word :: "khint list \<Rightarrow> khint \<Rightarrow> khint res" where
  "ac_word flags i = and_then (c_read flags (uint (drop_bit 4 i))) (\<lambda>w. Inr (drop_bit (ac_shift i) w))"

definition ac_isempty :: "khint list \<Rightarrow> khint \<Rightarrow> bool res" where
  "ac_isempty flags i = and_then (ac_word flags i) (\<lambda>w. Inr (w AND 2 \<noteq> 0))"

definition ac_isdel :: "khint list \<Rightarrow> khint \<Rightarrow> bool res" where
  "ac_isdel flags i = and_then (ac_word flags i) (\<lambda>w. Inr (w AND 1 \<noteq> 0))"

definition ac_iseither :: "khint list \<Rightarrow> khint \<Rightarrow> bool res" where
  "ac_iseither flags i = and_then (ac_word flags i) (\<lambda>w. Inr (w AND 3 \<noteq> 0))"

definition ac_update :: "(khint \<Rightarrow> khint) \<Rightarrow> khint list \<Rightarrow> khint \<Rightarrow> khint list res" where
  "ac_update f flags i =
     and_then (c_read flags (uint (drop_bit 4 i))) (\<lambda>w. Inr (flags[unat (drop_bit 4 i) := f w]))"

definition ac_set_isempty_false :: "khint list \<Rightarrow> khint \<Rightarrow> khint list res" where
  "ac_set_isempty_false flags i = ac_update (\<lambda>w. w AND NOT (push_bit (ac_shift i) 2)) flags i"

definition ac_set_isboth_false :: "khint list \<Rightarrow> khint \<Rightarrow> khint list res" where
  "ac_set_isboth_false flags i = ac_update (\<lambda>w. w AND NOT (push_bit (ac_shift i) 3)) flags i"

definition ac_set_isdel_true :: "khint list \<Rightarrow> khint \<Rightarrow> khint list res" where
  "ac_set_isdel_true flags i = ac_update (\<lambda>w. w OR push_bit (ac_shift i) 1) flags i"

definition ac_fsize :: "khint \<Rightarrow> khint" where
  "ac_fsize m = (if m < 16 then 1 else drop_bit 4 m)"

text \<open>\<open>kmalloc\<close> and the \<open>memset\<close> with \<open>0xaa\<close>: every bucket empty, none deleted.\<close>

definition fresh_flags :: "khint \<Rightarrow> khint list" where
  "fresh_flags m = replicate (unat (ac_fsize m)) 0xaaaaaaaa"

definition kroundup32 :: "khint \<Rightarrow> khint" where
  "kroundup32 x =
     (let x = x - 1; x = x OR drop_bit 1 x; x = x OR drop_bit 2 x; x = x OR drop_bit 4 x;
          x = x OR drop_bit 8 x; x = x OR drop_bit 16 x in x + 1)"

text \<open>
  \<open>(khint_t) (m * 0.77 + 0.5)\<close>: the product is a multiple of 1/100 that is never within 1/100 of an integer for
  the powers of two that occur, so that the rounding of the \<open>double\<close> does not change its integer part.
\<close>

definition hash_upper :: "khint \<Rightarrow> khint" where
  "hash_upper m = word_of_int ((uint m * 77 + 50) div 100)"

subsection \<open>The table\<close>

record ('k, 'v) khash =
  n_buckets :: khint
  kh_size :: khint
  n_occupied :: khint
  upper_bound :: khint
  kh_flags :: "khint list"
  kh_keys :: "'k option list"
  kh_vals :: "'v option list"

definition kh_init :: "('k, 'v) khash" where
  "kh_init = \<lparr>n_buckets = 0, kh_size = 0, n_occupied = 0, upper_bound = 0, kh_flags = [], kh_keys = [], kh_vals = []\<rparr>"

definition kh_clear :: "('k, 'v) khash \<Rightarrow> ('k, 'v) khash" where
  "kh_clear h =
     (if kh_flags h \<noteq> [] then h\<lparr>kh_flags := fresh_flags (n_buckets h), kh_size := 0, n_occupied := 0\<rparr> else h)"

text \<open>A read of \<open>keys[i]\<close> or \<open>vals[i]\<close>, and a write.\<close>

definition kh_load :: "'a option list \<Rightarrow> khint \<Rightarrow> 'a res" where
  "kh_load xs i = and_then (c_read xs (uint i)) (\<lambda>x. case x of None \<Rightarrow> Inl OutOfBounds | Some y \<Rightarrow> Inr y)"

definition kh_store :: "'a option list \<Rightarrow> khint \<Rightarrow> 'a \<Rightarrow> 'a option list res" where
  "kh_store xs i y = (if unat i < length xs then Inr (xs[unat i := Some y]) else Inl OutOfBounds)"

subsection \<open>Lookup and deletion\<close>

text \<open>
  The condition of the probing loops: the bucket is not empty, and deleted or of another key. The loops
  end at the first bucket's index at the latest, so that twice the number of buckets is enough fuel.
\<close>

definition probe_on :: "khint list \<Rightarrow> 'k option list \<Rightarrow> 'k \<Rightarrow> khint \<Rightarrow> bool res" where
  "probe_on flags keys key i =
     and_then (ac_isempty flags i) (\<lambda>e. if e then Inr False
       else and_then (ac_isdel flags i) (\<lambda>d. if d then Inr True
         else and_then (kh_load keys i) (\<lambda>k. Inr (k \<noteq> key))))"

fun get_loop ::
    "nat \<Rightarrow> ('k, 'v) khash \<Rightarrow> 'k \<Rightarrow> khint \<Rightarrow> khint \<Rightarrow> khint \<Rightarrow> khint \<Rightarrow> khint res" where
  "get_loop 0 h key msk start i step = Inl OutOfFuel"
| "get_loop (Suc fuel) h key msk start i step =
     and_then (probe_on (kh_flags h) (kh_keys h) key i) (\<lambda>go.
       if go then
         let step' = step + 1; i' = (i + step') AND msk in
         if i' = start then Inr (n_buckets h) else get_loop fuel h key msk start i' step'
       else and_then (ac_iseither (kh_flags h) i) (\<lambda>b. Inr (if b then n_buckets h else i)))"

definition kh_get :: "('k \<Rightarrow> khint) \<Rightarrow> ('k, 'v) khash \<Rightarrow> 'k \<Rightarrow> khint res" where
  "kh_get hash h key =
     (if n_buckets h \<noteq> 0 then
        let msk = n_buckets h - 1; i = hash key AND msk in
        get_loop (2 * unat (n_buckets h)) h key msk i i 0
      else Inr 0)"

definition kh_del :: "('k, 'v) khash \<Rightarrow> khint \<Rightarrow> ('k, 'v) khash res" where
  "kh_del h x =
     (if x \<noteq> n_buckets h then
        and_then (ac_iseither (kh_flags h) x) (\<lambda>b.
          if \<not> b then
            and_then (ac_set_isdel_true (kh_flags h) x) (\<lambda>f. Inr (h\<lparr>kh_flags := f, kh_size := kh_size h - 1\<rparr>))
          else Inr h)
      else Inr h)"

subsection \<open>Resizing\<close>

fun empty_loop :: "nat \<Rightarrow> khint list \<Rightarrow> khint \<Rightarrow> khint \<Rightarrow> khint \<Rightarrow> khint res" where
  "empty_loop 0 flags msk i step = Inl OutOfFuel"
| "empty_loop (Suc fuel) flags msk i step =
     and_then (ac_isempty flags i) (\<lambda>e. if e then Inr i
       else let step' = step + 1 in empty_loop fuel flags msk ((i + step') AND msk) step')"

text \<open>The kick-out process for one entry; each turn but the last takes an entry out of the old table.\<close>

fun kick_out ::
    "('k \<Rightarrow> khint) \<Rightarrow> khint \<Rightarrow> nat \<Rightarrow> ('k, 'v) khash \<Rightarrow> khint list \<Rightarrow> 'k \<Rightarrow> 'v \<Rightarrow> (('k, 'v) khash \<times> khint list) res" where
  "kick_out hash new_n 0 h new_flags key val = Inl OutOfFuel"
| "kick_out hash new_n (Suc fuel) h new_flags key val =
     (let new_mask = new_n - 1 in
      and_then (empty_loop (unat new_n) new_flags new_mask (hash key AND new_mask) 0) (\<lambda>i.
      and_then (ac_set_isempty_false new_flags i) (\<lambda>new_flags'.
      and_then (if i < n_buckets h then ac_iseither (kh_flags h) i else Inr True) (\<lambda>b.
      if \<not> b then
        and_then (kh_load (kh_keys h) i) (\<lambda>k1.
        and_then (kh_store (kh_keys h) i key) (\<lambda>keys.
        and_then (kh_load (kh_vals h) i) (\<lambda>v1.
        and_then (kh_store (kh_vals h) i val) (\<lambda>vals.
        and_then (ac_set_isdel_true (kh_flags h) i) (\<lambda>f.
          kick_out hash new_n fuel (h\<lparr>kh_keys := keys, kh_vals := vals, kh_flags := f\<rparr>) new_flags' k1 v1)))))
      else
        and_then (kh_store (kh_keys h) i key) (\<lambda>keys.
        and_then (kh_store (kh_vals h) i val) (\<lambda>vals.
          Inr (h\<lparr>kh_keys := keys, kh_vals := vals\<rparr>, new_flags')))))))"

text \<open>The loop over the old buckets: its body for bucket \<open>j\<close>, and the loop with \<open>m\<close> buckets to go.\<close>

definition rehash_bucket ::
    "('k \<Rightarrow> khint) \<Rightarrow> khint \<Rightarrow> ('k, 'v) khash \<Rightarrow> khint list \<Rightarrow> khint \<Rightarrow> (('k, 'v) khash \<times> khint list) res" where
  "rehash_bucket hash new_n h new_flags j =
     and_then (ac_iseither (kh_flags h) j) (\<lambda>b.
     if \<not> b then
       and_then (kh_load (kh_keys h) j) (\<lambda>key.
       and_then (kh_load (kh_vals h) j) (\<lambda>val.
       and_then (ac_set_isdel_true (kh_flags h) j) (\<lambda>f.
         kick_out hash new_n (unat (n_buckets h) + 1) (h\<lparr>kh_flags := f\<rparr>) new_flags key val)))
     else Inr (h, new_flags))"

fun rehash_loop ::
    "('k \<Rightarrow> khint) \<Rightarrow> khint \<Rightarrow> nat \<Rightarrow> ('k, 'v) khash \<Rightarrow> khint list \<Rightarrow> khint \<Rightarrow> (('k, 'v) khash \<times> khint list) res" where
  "rehash_loop hash new_n 0 h new_flags j = Inr (h, new_flags)"
| "rehash_loop hash new_n (Suc m) h new_flags j =
     and_then (rehash_bucket hash new_n h new_flags j)
       (\<lambda>(h', new_flags'). rehash_loop hash new_n m h' new_flags' (j + 1))"

text \<open>\<open>krealloc\<close> to \<open>m\<close> elements.\<close>

definition realloc_list :: "'a option list \<Rightarrow> nat \<Rightarrow> 'a option list" where
  "realloc_list xs m = take m xs @ replicate (m - length xs) None"

text \<open>The success of the three allocations; a shrinking \<open>krealloc\<close> is taken to succeed.\<close>

record kh_memory =
  mem_flags :: bool
  mem_keys :: bool
  mem_vals :: bool

definition resize_to ::
    "kh_memory \<Rightarrow> ('k \<Rightarrow> khint) \<Rightarrow> ('k, 'v) khash \<Rightarrow> khint \<Rightarrow> (int \<times> ('k, 'v) khash) res" where
  "resize_to mem hash h new_n =
     (if kh_size h \<ge> hash_upper new_n then Inr (0, h)
      else if \<not> mem_flags mem then Inr (-1, h)
      else if n_buckets h < new_n \<and> \<not> mem_keys mem then Inr (-1, h)
      else
        let h1 = (if n_buckets h < new_n then h\<lparr>kh_keys := realloc_list (kh_keys h) (unat new_n)\<rparr> else h) in
        if n_buckets h < new_n \<and> \<not> mem_vals mem then Inr (-1, h1)
        else
          let h2 = (if n_buckets h < new_n then h1\<lparr>kh_vals := realloc_list (kh_vals h1) (unat new_n)\<rparr> else h1) in
          and_then (rehash_loop hash new_n (unat (n_buckets h2)) h2 (fresh_flags new_n) 0) (\<lambda>(h3, new_flags).
          let h4 = (if n_buckets h3 > new_n
                    then h3\<lparr>kh_keys := realloc_list (kh_keys h3) (unat new_n), kh_vals := realloc_list (kh_vals h3) (unat new_n)\<rparr>
                    else h3) in
          Inr (0, h4\<lparr>kh_flags := new_flags, n_buckets := new_n, n_occupied := kh_size h4, upper_bound := hash_upper new_n\<rparr>)))"

definition kh_resize ::
    "kh_memory \<Rightarrow> ('k \<Rightarrow> khint) \<Rightarrow> ('k, 'v) khash \<Rightarrow> khint \<Rightarrow> (int \<times> ('k, 'v) khash) res" where
  "kh_resize mem hash h new_n_buckets =
     (let new_n = kroundup32 new_n_buckets in resize_to mem hash h (if new_n < 4 then 4 else new_n))"

subsection \<open>Insertion\<close>

text \<open>The loop of \<open>kh_put\<close>: the bucket \<open>x\<close>, from the start value \<open>site = x = n_buckets\<close>.\<close>

fun put_loop ::
    "nat \<Rightarrow> ('k, 'v) khash \<Rightarrow> 'k \<Rightarrow> khint \<Rightarrow> khint \<Rightarrow> khint \<Rightarrow> khint \<Rightarrow> khint \<Rightarrow> khint res" where
  "put_loop 0 h key msk start site i step = Inl OutOfFuel"
| "put_loop (Suc fuel) h key msk start site i step =
     and_then (probe_on (kh_flags h) (kh_keys h) key i) (\<lambda>go.
       if go then
         and_then (ac_isdel (kh_flags h) i) (\<lambda>d.
         let site' = (if d then i else site); step' = step + 1; i' = (i + step') AND msk in
         if i' = start then
           (if site' \<noteq> n_buckets h then Inr site'
            else and_then (ac_isempty (kh_flags h) i') (\<lambda>e. Inr (if e \<and> site' \<noteq> n_buckets h then site' else i')))
         else put_loop fuel h key msk start site' i' step')
       else and_then (ac_isempty (kh_flags h) i) (\<lambda>e. Inr (if e \<and> site \<noteq> n_buckets h then site else i)))"

definition put_bucket :: "('k \<Rightarrow> khint) \<Rightarrow> ('k, 'v) khash \<Rightarrow> 'k \<Rightarrow> khint res" where
  "put_bucket hash h key =
     (let msk = n_buckets h - 1; i = hash key AND msk in
      and_then (ac_isempty (kh_flags h) i) (\<lambda>e.
        if e then Inr i else put_loop (2 * unat (n_buckets h)) h key msk i (n_buckets h) i 0))"

text \<open>The part of \<open>kh_put\<close> behind the resize: the bucket, the code in \<open>ret\<close> and the table.\<close>

definition put_here :: "('k \<Rightarrow> khint) \<Rightarrow> ('k, 'v) khash \<Rightarrow> 'k \<Rightarrow> (khint \<times> int \<times> ('k, 'v) khash) res" where
  "put_here hash h key =
     and_then (put_bucket hash h key) (\<lambda>x.
     and_then (ac_isempty (kh_flags h) x) (\<lambda>e.
     if e then
       and_then (kh_store (kh_keys h) x key) (\<lambda>keys.
       and_then (ac_set_isboth_false (kh_flags h) x) (\<lambda>f.
         Inr (x, 1, h\<lparr>kh_keys := keys, kh_flags := f, kh_size := kh_size h + 1, n_occupied := n_occupied h + 1\<rparr>)))
     else
       and_then (ac_isdel (kh_flags h) x) (\<lambda>d.
       if d then
         and_then (kh_store (kh_keys h) x key) (\<lambda>keys.
         and_then (ac_set_isboth_false (kh_flags h) x) (\<lambda>f.
           Inr (x, 2, h\<lparr>kh_keys := keys, kh_flags := f, kh_size := kh_size h + 1\<rparr>)))
       else Inr (x, 0, h))))"

definition kh_put ::
    "kh_memory \<Rightarrow> ('k \<Rightarrow> khint) \<Rightarrow> ('k, 'v) khash \<Rightarrow> 'k \<Rightarrow> (khint \<times> int \<times> ('k, 'v) khash) res" where
  "kh_put mem hash h key =
     and_then
       (if n_occupied h \<ge> upper_bound h then
          if n_buckets h > push_bit 1 (kh_size h) then kh_resize mem hash h (n_buckets h - 1)
          else kh_resize mem hash h (n_buckets h + 1)
        else Inr (0, h)) (\<lambda>(r, h1).
     if r < 0 then Inr (n_buckets h1, -1, h1) else put_here hash h1 key)"

text \<open>\<open>kh_val (h, x)\<close>, read and assigned.\<close>

definition kh_val :: "('k, 'v) khash \<Rightarrow> khint \<Rightarrow> 'v res" where
  "kh_val h x = kh_load (kh_vals h) x"

definition kh_set_val :: "('k, 'v) khash \<Rightarrow> khint \<Rightarrow> 'v \<Rightarrow> ('k, 'v) khash res" where
  "kh_set_val h x v = and_then (kh_store (kh_vals h) x v) (\<lambda>vals. Inr (h\<lparr>kh_vals := vals\<rparr>))"

text \<open>\<open>kh_str_hash_func\<close> on a string, its bytes in front of its NUL.\<close>

definition ac_X31_hash_string :: "byte list \<Rightarrow> khint" where
  "ac_X31_hash_string s =
     (case s of
        [] \<Rightarrow> 0
      | c # t \<Rightarrow> (let h = (scast c :: khint) in
          if h = 0 then h else foldl (\<lambda>h c. push_bit 5 h - h + scast c) h t))"

end
