(* ===== verification/Khash_Probe.thy ===== *)
theory Khash_Probe
  imports Khash
begin

text \<open>
  What the proofs on the hash table need of its machine level: the flag macros as predicates on bucket
  numbers, and the probing, which meets every bucket of a table of \<open>2 ^ b\<close> buckets within its first \<open>2 ^ b\<close>
  steps.
\<close>

subsection \<open>The flags as predicates\<close>

definition f_empty :: "khint list \<Rightarrow> nat \<Rightarrow> bool" where
  "f_empty flags i = bit (flags ! (i div 16)) (2 * (i mod 16) + 1)"

definition f_del :: "khint list \<Rightarrow> nat \<Rightarrow> bool" where
  "f_del flags i = bit (flags ! (i div 16)) (2 * (i mod 16))"

definition f_live :: "khint list \<Rightarrow> nat \<Rightarrow> bool" where
  "f_live flags i \<longleftrightarrow> \<not> f_empty flags i \<and> \<not> f_del flags i"

lemma unat_and_mask: "unat (x AND mask k) = unat x mod 2 ^ k" for x :: "'a::len word"
  by (simp flip: take_bit_eq_mask take_bit_eq_mod add: unsigned_take_bit_eq)

lemma word_and_15: "unat (i AND 0xF :: khint) = unat i mod 16"
  using unat_and_mask [of i 4] by (simp add: mask_numeral)

lemma unat_ac_shift: "ac_shift i = 2 * (unat i mod 16)"
proof -
  have "push_bit 1 (i AND 0xF) = (i AND 0xF) * 2" by (simp add: push_bit_eq_mult)
  moreover have "unat ((i AND 0xF) * 2) = unat (i AND 0xF) * 2"
    by (subst unat_mult_lem [THEN iffD1]) (simp_all add: word_and_15)
  ultimately show ?thesis by (simp add: ac_shift_def word_and_15)
qed

lemma unat_ac_index: "unat (drop_bit 4 i :: khint) = unat i div 16"
  by (simp add: unat_drop_bit_eq drop_bit_nat_def)

lemma ac_index_in: "unat i < 16 * length flags \<Longrightarrow> unat i div 16 < length flags" for i :: khint
  by (simp add: less_mult_imp_div_less mult.commute)

lemma ac_read: "unat i < 16 * length flags \<Longrightarrow> c_read flags (uint (drop_bit 4 i)) = Inr (flags ! (unat i div 16))" for i :: khint
proof -
  assume "unat i < 16 * length flags"
  moreover have "uint (drop_bit 4 i) = int (unat i div 16)"
    by (simp only: uint_nat unat_ac_index)
  ultimately show ?thesis
    using ac_index_in [of i flags] unfolding c_read_def by (simp del: of_nat_div)
qed

lemma and_neq_0: "(w AND v \<noteq> 0) = (\<exists>n. bit w n \<and> bit v n)" for w v :: khint
proof -
  have "(w AND v \<noteq> 0) = (\<exists>n. bit (w AND v) n)" by (metis bit_0_eq bit_eqI bot_apply bot_bool_def)
  then show ?thesis by (simp only: bit_and_iff)
qed

lemma and_bit_one: "(w AND 1 \<noteq> 0) = bit w 0" for w :: khint
  unfolding and_neq_0 bit_1_iff by simp

lemma and_bit_two: "(w AND 2 \<noteq> 0) = bit w 1" for w :: khint
  unfolding and_neq_0 bit_2_iff by simp

lemma and_bit_three: "(w AND 3 \<noteq> 0) = (bit w 0 \<or> bit w 1)" for w :: khint
proof -
  have "w AND 3 = w AND (1 OR 2)" by simp
  then have "w AND 3 = (w AND 1) OR (w AND 2)" by (simp only: bit.conj_disj_distrib)
  then show ?thesis using and_bit_one [of w] and_bit_two [of w] by (metis or_eq_0_iff)
qed

lemma ac_isempty_in: "unat i < 16 * length flags \<Longrightarrow> ac_isempty flags i = Inr (f_empty flags (unat i))"
  by (simp add: ac_isempty_def ac_word_def ac_read and_bit_two bit_drop_bit_eq f_empty_def unat_ac_shift add.commute)

lemma ac_isdel_in: "unat i < 16 * length flags \<Longrightarrow> ac_isdel flags i = Inr (f_del flags (unat i))"
  by (simp add: ac_isdel_def ac_word_def ac_read and_bit_one bit_drop_bit_eq f_del_def unat_ac_shift)

lemma ac_iseither_in: "unat i < 16 * length flags \<Longrightarrow> ac_iseither flags i = Inr (\<not> f_live flags (unat i))"
  by (simp add: ac_iseither_def ac_word_def ac_read and_bit_three bit_drop_bit_eq f_live_def f_del_def f_empty_def
      unat_ac_shift add.commute disj_commute)

lemma ac_update_in:
  "unat i < 16 * length flags \<Longrightarrow>
    ac_update f flags i = Inr (flags[unat i div 16 := f (flags ! (unat i div 16))])"
  unfolding ac_update_def by (simp add: ac_read unat_ac_index)

lemma flag_word_split: "i div 16 = j div 16 \<Longrightarrow> i mod 16 = j mod 16 \<Longrightarrow> i = (j :: nat)"
  by (metis div_mult_mod_eq)

text \<open>What a flag macro that changes bucket \<open>i\<close> makes of the flags.\<close>

definition flags_set :: "khint list \<Rightarrow> nat \<Rightarrow> bool \<Rightarrow> bool \<Rightarrow> khint list \<Rightarrow> bool" where
  "flags_set flags i e d flags' \<longleftrightarrow> length flags' = length flags \<and>
     (\<forall>j < 16 * length flags. f_empty flags' j = (if j = i then e else f_empty flags j) \<and>
        f_del flags' j = (if j = i then d else f_del flags j))"

lemma bit_flag_update:
  assumes "i < 16 * length flags"
    and clear: "\<And>n. n < 32 \<Longrightarrow> n div 2 \<noteq> i mod 16 \<Longrightarrow> bit v n = bit (flags ! (i div 16)) n"
    and "e < 2"
  shows "bit (flags[i div 16 := v] ! (j div 16)) (2 * (j mod 16) + e) =
    (if j = i then bit v (2 * (i mod 16) + e) else bit (flags ! (j div 16)) (2 * (j mod 16) + e))"
proof (cases "j div 16 = i div 16")
  case True
  have "i div 16 < length flags" using assms(1) by (simp add: less_mult_imp_div_less mult.commute)
  then have nth: "flags[i div 16 := v] ! (j div 16) = v" using True by simp
  have "(2 * (j mod 16) + e) div 2 = j mod 16" and "2 * (j mod 16) + e < 32"
    using \<open>e < 2\<close> by auto
  then show ?thesis
    using nth True clear [of "2 * (j mod 16) + e"] flag_word_split [of j i] by auto
next
  case False
  then have "j \<noteq> i" by auto
  then show ?thesis using False by simp
qed

lemma flags_setI:
  assumes "i < 16 * length flags"
    and clear: "\<And>n. n < 32 \<Longrightarrow> n div 2 \<noteq> i mod 16 \<Longrightarrow> bit v n = bit (flags ! (i div 16)) n"
    and "bit v (2 * (i mod 16) + 1) = e" and "bit v (2 * (i mod 16)) = d"
  shows "flags_set flags i e d (flags[i div 16 := v])"
  unfolding flags_set_def f_empty_def f_del_def
  using bit_flag_update [OF assms(1) clear, of 0] bit_flag_update [OF assms(1) clear, of 1] assms(3,4) by simp

lemma bit_push_2: "bit (push_bit (2 * k) (2 :: khint)) n = (n < 32 \<and> n = 2 * k + 1)"
  by (auto simp: bit_push_bit_iff bit_2_iff)

lemma bit_push_1: "bit (push_bit (2 * k) (1 :: khint)) n = (n < 32 \<and> n = 2 * k)"
  unfolding bit_push_bit_iff bit_1_iff by auto

lemma bit_push_3: "bit (push_bit (2 * k) (3 :: khint)) n = (n < 32 \<and> (n = 2 * k \<or> n = 2 * k + 1))"
proof -
  have "push_bit (2 * k) (3 :: khint) = push_bit (2 * k) (1 OR 2)" by simp
  then have "push_bit (2 * k) (3 :: khint) = push_bit (2 * k) 1 OR push_bit (2 * k) 2"
    by (simp only: push_bit_or)
  then show ?thesis unfolding bit_or_iff by (simp only: bit_or_iff bit_push_1 bit_push_2) auto
qed

lemma ac_set_isempty_false_in:
  assumes "unat i < 16 * length flags"
  shows "\<exists>f. ac_set_isempty_false flags i = Inr f \<and> flags_set flags (unat i) False (f_del flags (unat i)) f"
  unfolding ac_set_isempty_false_def ac_update_in [OF assms] unat_ac_shift
  by (rule exI, rule conjI, rule refl, rule flags_setI [OF assms]) (auto simp: bit_and_iff bit_not_iff bit_push_2 f_del_def)

lemma ac_set_isdel_true_in:
  assumes "unat i < 16 * length flags"
  shows "\<exists>f. ac_set_isdel_true flags i = Inr f \<and> flags_set flags (unat i) (f_empty flags (unat i)) True f"
  unfolding ac_set_isdel_true_def ac_update_in [OF assms] unat_ac_shift
  by (rule exI, rule conjI, rule refl, rule flags_setI [OF assms]) (auto simp only: bit_or_iff bit_push_1 f_empty_def)

lemma ac_set_isboth_false_in:
  assumes "unat i < 16 * length flags"
  shows "\<exists>f. ac_set_isboth_false flags i = Inr f \<and> flags_set flags (unat i) False False f"
  unfolding ac_set_isboth_false_def ac_update_in [OF assms] unat_ac_shift
  by (rule exI, rule conjI, rule refl, rule flags_setI [OF assms]) (auto simp: bit_and_iff bit_not_iff bit_push_3)

subsection \<open>Fresh flags\<close>

lemma bit_aaaaaaaa: "n < 32 \<Longrightarrow> bit (0xaaaaaaaa :: khint) n = odd n"
proof -
  have "\<forall>n \<in> set [0..<32]. bit (0xaaaaaaaa :: khint) n = odd n" by code_simp
  then show "n < 32 \<Longrightarrow> bit (0xaaaaaaaa :: khint) n = odd n" by simp
qed

definition table_size :: "khint \<Rightarrow> nat \<Rightarrow> bool" where
  "table_size m b \<longleftrightarrow> unat m = 2 ^ b \<and> 2 \<le> b \<and> b \<le> 31"

lemma length_fresh_flags:
  assumes "table_size m b"
  shows "2 ^ b \<le> 16 * length (fresh_flags m)"
proof (cases "b < 4")
  case True
  then have "(2 :: nat) ^ b \<le> 2 ^ 4" by (intro power_increasing) auto
  moreover have "1 \<le> length (fresh_flags m)"
    using assms by (auto simp: fresh_flags_def ac_fsize_def table_size_def unat_ac_index word_less_nat_alt div_greater_zero_iff)
  ultimately show ?thesis by simp
next
  case False
  then obtain c where b: "b = 4 + c" using le_Suc_ex [of 4 b] by auto
  have "16 \<le> unat m" using assms by (simp add: table_size_def b power_add)
  then have "length (fresh_flags m) = unat m div 16"
    by (simp add: fresh_flags_def ac_fsize_def unat_ac_index word_less_nat_alt)
  then show ?thesis using assms by (simp add: table_size_def b power_add)
qed

lemma fresh_flags_nth: "i < 16 * length (fresh_flags m) \<Longrightarrow> fresh_flags m ! (i div 16) = 0xaaaaaaaa"
  unfolding fresh_flags_def by (rule nth_replicate) (simp add: less_mult_imp_div_less mult.commute)

lemma fresh_flags_empty: "i < 16 * length (fresh_flags m) \<Longrightarrow> f_empty (fresh_flags m) i"
  unfolding f_empty_def fresh_flags_nth by (subst bit_aaaaaaaa) auto

lemma fresh_flags_del: "i < 16 * length (fresh_flags m) \<Longrightarrow> \<not> f_del (fresh_flags m) i"
  unfolding f_del_def fresh_flags_nth by (subst bit_aaaaaaaa) auto

subsection \<open>The probe sequence\<close>

definition tri :: "nat \<Rightarrow> nat" where
  "tri s = s * (s + 1) div 2"

definition probe :: "nat \<Rightarrow> nat \<Rightarrow> nat \<Rightarrow> nat" where
  "probe b x s = (x + tri s) mod 2 ^ b"

lemma tri_0 [simp]: "tri 0 = 0" by (simp add: tri_def)

lemma double_tri: "2 * tri s = s * (s + 1)"
  by (simp add: tri_def)

lemma tri_Suc: "tri (Suc s) = tri s + Suc s"
proof -
  have "2 * tri (Suc s) = 2 * (tri s + Suc s)" unfolding distrib_left double_tri by simp
  then show ?thesis by simp
qed

lemma probe_less [simp]: "probe b x s < 2 ^ b"
  by (simp add: probe_def)

lemma pow2_dvd_odd: "odd (u + v) \<Longrightarrow> (2 :: nat) ^ k dvd u * v \<Longrightarrow> 2 ^ k dvd u \<or> 2 ^ k dvd v"
proof -
  assume "odd (u + v)" and d: "(2 :: nat) ^ k dvd u * v"
  then have "coprime (2 ^ k) u \<or> coprime (2 ^ k) v"
    by (auto simp: coprime_commute [of "2 ^ k"])
  then show ?thesis using d by (auto simp: coprime_dvd_mult_left_iff coprime_dvd_mult_right_iff)
qed

lemma tri_injective:
  assumes "s < t" and "t < 2 ^ b" and "probe b x s = probe b x t"
  shows False
proof -
  obtain d where t: "t = s + d" and "0 < d" using \<open>s < t\<close> less_imp_add_positive by blast
  have "2 ^ b dvd tri t - tri s"
  proof -
    have "tri s \<le> tri t" using \<open>s < t\<close> unfolding tri_def by (intro div_le_mono mult_le_mono) auto
    then show ?thesis using assms(3) unfolding probe_def
      by (metis add_diff_cancel_left mod_eq_dvd_iff_nat add_le_cancel_left)
  qed
  then have "2 * 2 ^ b dvd 2 * (tri t - tri s)" by (rule mult_dvd_mono [OF dvd_refl])
  moreover have "2 * (tri t - tri s) = d * (2 * s + d + 1)"
  proof -
    have "2 * tri t = 2 * tri s + d * (2 * s + d + 1)"
      unfolding double_tri t by (simp add: algebra_simps)
    then show ?thesis by simp
  qed
  ultimately have "2 ^ Suc b dvd d * (2 * s + d + 1)" by simp
  then have "2 ^ Suc b dvd d \<or> 2 ^ Suc b dvd 2 * s + d + 1" by (intro pow2_dvd_odd) auto
  then have "2 ^ Suc b \<le> d \<or> 2 ^ Suc b \<le> 2 * s + d + 1" using \<open>0 < d\<close> by (auto dest: dvd_imp_le)
  then show False using \<open>t < 2 ^ b\<close> \<open>s < t\<close> t by auto
qed

lemma probe_inj: "s < 2 ^ b \<Longrightarrow> t < 2 ^ b \<Longrightarrow> probe b x s = probe b x t \<Longrightarrow> s = t"
  using tri_injective [of s t b x] tri_injective [of t s b x] by (metis linorder_neq_iff)

lemma probe_onto: "j < 2 ^ b \<Longrightarrow> \<exists>s < 2 ^ b. probe b x s = j"
proof -
  have "inj_on (probe b x) {..<2 ^ b}" by (rule inj_onI) (auto intro: probe_inj)
  then have "probe b x ` {..<2 ^ b} = {..<2 ^ b}" by (intro endo_inj_surj) auto
  then show "j < 2 ^ b \<Longrightarrow> \<exists>s < 2 ^ b. probe b x s = j" by (metis imageE lessThan_iff)
qed

lemma mask_of_size: "table_size m b \<Longrightarrow> m - 1 = mask b"
proof -
  assume "table_size m b"
  then have "m = 2 ^ b" unfolding table_size_def
    by (metis of_nat_numeral of_nat_power of_nat_unat ucast_id)
  then show ?thesis by (simp add: mask_eq_exp_minus_1)
qed

lemma start_bucket: "table_size m b \<Longrightarrow> unat (x AND (m - 1)) = probe b (unat x) 0"
  by (simp add: mask_of_size unat_and_mask probe_def)

lemma next_step: "unat (step :: khint) = s \<Longrightarrow> s < 2 ^ 32 - 1 \<Longrightarrow> unat (step + 1) = Suc s"
  by (simp add: unat_word_ariths)

lemma next_bucket:
  assumes "table_size m b" and "unat i = probe b x s" and "unat step = s" and "s < 2 ^ b"
  shows "unat (step + 1) = Suc s" and "unat ((i + (step + 1)) AND (m - 1)) = probe b x (Suc s)"
proof -
  have "(2 :: nat) ^ b \<le> 2 ^ 31" using assms(1) by (intro power_increasing) (auto simp: table_size_def)
  then have s: "s < 2 ^ 31" using assms(4) by linarith
  then show step: "unat (step + 1) = Suc s" by (intro next_step assms) simp
  have "unat (i + (step + 1)) mod 2 ^ b = (unat i + Suc s) mod 2 ^ b"
  proof -
    have "(2 :: nat) ^ b dvd 2 ^ 32" using assms(1) by (intro le_imp_power_dvd) (simp add: table_size_def)
    then show ?thesis using step by (simp add: unat_word_ariths(1) [of i] mod_mod_cancel del: add_Suc_right)
  qed
  then show "unat ((i + (step + 1)) AND (m - 1)) = probe b x (Suc s)"
    using assms by (simp add: mask_of_size unat_and_mask probe_def tri_Suc mod_simps add.assoc del: add_Suc_right)
qed

end
