(* ===== verification/Khash_Table.thy ===== *)
theory Khash_Table
  imports Khash_Probe
begin

text \<open>
  The hash table as a finite map: the invariant \<open>kh_rep\<close> that ties a table to the map it holds, and what
  lookup, deletion and insertion do to it.
\<close>

subsection \<open>Buckets that hold a map\<close>

text \<open>The buckets \<open>A\<close> hold the entries of \<open>M\<close>, each in one of them.\<close>

definition stored :: "'k option list \<Rightarrow> 'v option list \<Rightarrow> nat set \<Rightarrow> ('k \<Rightarrow> 'v option) \<Rightarrow> bool" where
  "stored ks vs A M \<longleftrightarrow>
     (\<forall>i\<in>A. i < length ks \<and> i < length vs \<and> (\<exists>k v. ks ! i = Some k \<and> vs ! i = Some v \<and> M k = Some v)) \<and>
     inj_on (\<lambda>i. ks ! i) A \<and> (\<forall>k v. M k = Some v \<longrightarrow> (\<exists>i\<in>A. ks ! i = Some k))"

lemma storedD:
  assumes "stored ks vs A M" and "i \<in> A"
  obtains k v where "i < length ks" "i < length vs" "ks ! i = Some k" "vs ! i = Some v" "M k = Some v"
  using assms unfolding stored_def by blast

lemma stored_unique: "stored ks vs A M \<Longrightarrow> i \<in> A \<Longrightarrow> j \<in> A \<Longrightarrow> ks ! i = ks ! j \<Longrightarrow> i = j"
  unfolding stored_def by (meson inj_onD)

lemma stored_at: "stored ks vs A M \<Longrightarrow> M k = Some v \<Longrightarrow> \<exists>i\<in>A. ks ! i = Some k \<and> vs ! i = Some v"
  unfolding stored_def by (metis option.inject)

lemma stored_empty: "stored ks vs {} Map.empty"
  by (simp add: stored_def)

lemma stored_none: "stored ks vs {} M \<Longrightarrow> M = Map.empty"
  unfolding stored_def by fastforce

lemma storedI:
  assumes "\<And>i. i \<in> A \<Longrightarrow>
      i < length ks \<and> i < length vs \<and> (\<exists>k v. ks ! i = Some k \<and> vs ! i = Some v \<and> M k = Some v)"
    and "inj_on (\<lambda>i. ks ! i) A"
    and "\<And>k v. M k = Some v \<Longrightarrow> \<exists>i\<in>A. ks ! i = Some k"
  shows "stored ks vs A M"
  using assms unfolding stored_def by blast

lemma stored_take:
  assumes "stored ks vs A M" and "i \<in> A" and "ks ! i = Some k"
  shows "stored ks vs (A - {i}) (M(k := None))"
proof (rule storedI)
  fix j assume j: "j \<in> A - {i}"
  then have "ks ! j \<noteq> Some k" using stored_unique [OF assms(1), of i j] assms(2,3) by auto
  moreover from j have "j \<in> A" by simp
  with assms(1) obtain k' v where
    e: "j < length ks" "j < length vs" "ks ! j = Some k'" "vs ! j = Some v" "M k' = Some v"
    by (rule storedD)
  ultimately have "(M(k := None)) k' = Some v" by auto
  with e show "j < length ks \<and> j < length vs \<and>
      (\<exists>k' v. ks ! j = Some k' \<and> vs ! j = Some v \<and> (M(k := None)) k' = Some v)" by blast
next
  show "inj_on (\<lambda>i. ks ! i) (A - {i})"
    using assms(1) unfolding stored_def by (auto intro: inj_on_subset)
next
  fix k' v assume "(M(k := None)) k' = Some v"
  then have "M k' = Some v" "k' \<noteq> k" by (auto split: if_splits)
  then show "\<exists>j\<in>A - {i}. ks ! j = Some k'" using stored_at [OF assms(1), of k' v] assms(3) by fastforce
qed

lemma stored_put:
  assumes "stored ks vs A M" and "i \<notin> A" and "M k = None" and "i < length ks" and "i < length vs"
  shows "stored (ks[i := Some k]) (vs[i := Some v]) (insert i A) (M(k \<mapsto> v))"
proof (rule storedI)
  have other: "ks[i := Some k] ! j = ks ! j \<and> vs[i := Some v] ! j = vs ! j" if "j \<in> A" for j
    using that assms(2) by (cases "j = i") auto
  have k: "ks ! j \<noteq> Some k" if "j \<in> A" for j
    using assms(1,3) that by (auto elim!: storedD)
  show "inj_on (\<lambda>j. ks[i := Some k] ! j) (insert i A)"
    using assms(1,2,4) k unfolding stored_def inj_on_def by (auto simp: other)
  fix j assume "j \<in> insert i A"
  then consider "j = i" | "j \<in> A" "j \<noteq> i" by blast
  then show "j < length (ks[i := Some k]) \<and> j < length (vs[i := Some v]) \<and>
      (\<exists>k' v'. ks[i := Some k] ! j = Some k' \<and> vs[i := Some v] ! j = Some v' \<and> (M(k \<mapsto> v)) k' = Some v')"
  proof cases
    case 1
    then show ?thesis using assms(4,5) by simp
  next
    case 2
    with assms(1) obtain k' v' where
      e: "j < length ks" "j < length vs" "ks ! j = Some k'" "vs ! j = Some v'" "M k' = Some v'"
      by (blast elim: storedD)
    then have "(M(k \<mapsto> v)) k' = Some v'" using k [OF 2(1)] by auto
    with e other [OF 2(1)] show ?thesis by simp
  qed
next
  fix k' v' assume "(M(k \<mapsto> v)) k' = Some v'"
  then show "\<exists>j\<in>insert i A. ks[i := Some k] ! j = Some k'"
    using stored_at [OF assms(1), of k'] assms(2,4) by (cases "k' = k") (auto simp: nth_list_update)
qed

lemma stored_renew:
  assumes "stored ks vs A M" and "i \<in> A" and "ks ! i = Some k"
  shows "stored ks (vs[i := Some v]) A (M(k \<mapsto> v))"
proof -
  obtain k' where i: "i < length ks" "i < length vs" using assms by (auto elim!: storedD)
  have "stored (ks[i := Some k]) (vs[i := Some v]) (insert i (A - {i})) ((M(k := None))(k \<mapsto> v))"
    using i by (intro stored_put stored_take assms) auto
  moreover have "ks[i := Some k] = ks" using assms(3) i by (metis list_update_id)
  ultimately show ?thesis using assms(2) by (simp add: insert_absorb)
qed

lemma stored_cong:
  assumes "stored ks vs A M"
    and "\<And>i. i \<in> A \<Longrightarrow> ks' ! i = ks ! i \<and> vs' ! i = vs ! i \<and> i < length ks' \<and> i < length vs'"
  shows "stored ks' vs' A M"
proof -
  have "inj_on (\<lambda>i. ks' ! i) A" using assms by (auto simp: stored_def inj_on_def)
  then show ?thesis using assms unfolding stored_def by simp
qed

subsection \<open>Probing for a key\<close>

definition live_buckets :: "khint list \<Rightarrow> nat \<Rightarrow> nat set" where
  "live_buckets flags n = {i. i < n \<and> f_live flags i}"

definition used_buckets :: "khint list \<Rightarrow> nat \<Rightarrow> nat set" where
  "used_buckets flags n = {i. i < n \<and> \<not> f_empty flags i}"

lemma finite_buckets [simp]: "finite (live_buckets flags n)" "finite (used_buckets flags n)"
  by (simp_all add: live_buckets_def used_buckets_def)

lemma live_used: "live_buckets flags n \<subseteq> used_buckets flags n"
  by (auto simp: live_buckets_def used_buckets_def f_live_def)

text \<open>The key of bucket \<open>i\<close> finds it: no bucket in front of it in its probe sequence is empty.\<close>

definition on_chain :: "nat \<Rightarrow> ('k \<Rightarrow> khint) \<Rightarrow> khint list \<Rightarrow> 'k option list \<Rightarrow> nat \<Rightarrow> bool" where
  "on_chain b hash flags ks i \<longleftrightarrow>
     (\<exists>k s. ks ! i = Some k \<and> s < 2 ^ b \<and> probe b (unat (hash k)) s = i \<and>
        (\<forall>t < s. \<not> f_empty flags (probe b (unat (hash k)) t)))"

text \<open>The buckets the probing of a key passes over.\<close>

definition passes :: "khint list \<Rightarrow> 'k option list \<Rightarrow> 'k \<Rightarrow> nat \<Rightarrow> bool" where
  "passes flags ks k i \<longleftrightarrow> \<not> f_empty flags i \<and> (f_del flags i \<or> ks ! i \<noteq> Some k)"

definition stops_at :: "nat \<Rightarrow> ('k \<Rightarrow> khint) \<Rightarrow> khint list \<Rightarrow> 'k option list \<Rightarrow> 'k \<Rightarrow> nat \<Rightarrow> bool" where
  "stops_at b hash flags ks k m \<longleftrightarrow> m < 2 ^ b \<and> \<not> passes flags ks k (probe b (unat (hash k)) m) \<and>
     (\<forall>t<m. passes flags ks k (probe b (unat (hash k)) t))"

lemma stops_somewhere:
  assumes "j < 2 ^ b" and "f_empty flags j"
  shows "\<exists>m. stops_at b hash flags ks k m"
proof -
  let ?P = "\<lambda>m. \<not> passes flags ks k (probe b (unat (hash k)) m)"
  obtain s where s: "s < 2 ^ b" "probe b (unat (hash k)) s = j" using probe_onto [OF assms(1)] by blast
  then have "?P s" using assms(2) by (simp add: passes_def)
  then have "?P (LEAST m. ?P m)" and "(LEAST m. ?P m) \<le> s" by (rule LeastI, rule Least_le)
  moreover have "\<forall>t < (LEAST m. ?P m). \<not> ?P t" using not_less_Least by blast
  ultimately have "stops_at b hash flags ks k (LEAST m. ?P m)"
    using s(1) unfolding stops_at_def by (meson le_less_trans)
  then show ?thesis by (rule exI)
qed

lemma stop_bucket:
  assumes st: "stored ks vs (live_buckets flags (2 ^ b)) M"
    and chain: "\<And>i. i \<in> live_buckets flags (2 ^ b) \<Longrightarrow> on_chain b hash flags ks i"
    and m: "stops_at b hash flags ks k m"
  shows "f_live flags (probe b (unat (hash k)) m) \<longleftrightarrow> M k \<noteq> None"
    and "f_live flags (probe b (unat (hash k)) m) \<Longrightarrow> ks ! probe b (unat (hash k)) m = Some k"
    and "\<not> f_live flags (probe b (unat (hash k)) m) \<Longrightarrow> f_empty flags (probe b (unat (hash k)) m)"
proof -
  let ?j = "probe b (unat (hash k)) m"
  show key: "f_live flags ?j \<Longrightarrow> ks ! ?j = Some k"
    and "\<not> f_live flags ?j \<Longrightarrow> f_empty flags ?j"
    using m by (auto simp: stops_at_def passes_def f_live_def)
  show "f_live flags ?j \<longleftrightarrow> M k \<noteq> None"
  proof
    assume "f_live flags ?j"
    then have "?j \<in> live_buckets flags (2 ^ b)" by (simp add: live_buckets_def)
    with st key \<open>f_live flags ?j\<close> show "M k \<noteq> None" by (auto elim!: storedD)
  next
    assume "M k \<noteq> None"
    then obtain v where "M k = Some v" by blast
    with st obtain i where i: "i \<in> live_buckets flags (2 ^ b)" "ks ! i = Some k" by (blast dest: stored_at)
    with chain [OF i(1)] obtain s where s: "probe b (unat (hash k)) s = i"
      "\<forall>t < s. \<not> f_empty flags (probe b (unat (hash k)) t)" by (auto simp: on_chain_def)
    have "\<not> passes flags ks k i" using i by (simp add: passes_def live_buckets_def f_live_def)
    then have "m \<le> s" using m s(1) unfolding stops_at_def by (metis not_le_imp_less)
    show "f_live flags ?j"
    proof (cases "m = s")
      case True
      then show ?thesis using s(1) i(1) by (simp add: live_buckets_def)
    next
      case False
      then have "\<not> f_empty flags ?j" using s(2) \<open>m \<le> s\<close> by simp
      then show ?thesis using m by (simp add: stops_at_def passes_def f_live_def)
    qed
  qed
qed

subsection \<open>The invariant\<close>

definition kh_table :: "('k \<Rightarrow> khint) \<Rightarrow> ('k, 'v) khash \<Rightarrow> ('k \<Rightarrow> 'v option) \<Rightarrow> nat \<Rightarrow> bool" where
  "kh_table hash h M b \<longleftrightarrow> table_size (n_buckets h) b \<and>
     2 ^ b \<le> 16 * length (kh_flags h) \<and> 2 ^ b \<le> length (kh_keys h) \<and> 2 ^ b \<le> length (kh_vals h) \<and>
     stored (kh_keys h) (kh_vals h) (live_buckets (kh_flags h) (2 ^ b)) M \<and>
     (\<forall>i \<in> live_buckets (kh_flags h) (2 ^ b). on_chain b hash (kh_flags h) (kh_keys h) i) \<and>
     unat (n_occupied h) = card (used_buckets (kh_flags h) (2 ^ b)) \<and>
     unat (kh_size h) = card (live_buckets (kh_flags h) (2 ^ b)) \<and>
     n_occupied h \<le> hash_upper (n_buckets h) \<and> upper_bound h = hash_upper (n_buckets h)"

text \<open>The table before its first bucket, and \<open>kh_rep hash h M\<close>: the table \<open>h\<close> holds the map \<open>M\<close>.\<close>

definition kh_unused :: "('k, 'v) khash \<Rightarrow> bool" where
  "kh_unused h \<longleftrightarrow> n_buckets h = 0 \<and> kh_size h = 0 \<and> n_occupied h = 0 \<and> upper_bound h = 0 \<and> kh_flags h = []"

definition kh_rep :: "('k \<Rightarrow> khint) \<Rightarrow> ('k, 'v) khash \<Rightarrow> ('k \<Rightarrow> 'v option) \<Rightarrow> bool" where
  "kh_rep hash h M \<longleftrightarrow> kh_unused h \<and> M = Map.empty \<or> (\<exists>b. kh_table hash h M b)"

lemma kh_init_rep: "kh_rep hash kh_init Map.empty"
  by (simp add: kh_rep_def kh_unused_def kh_init_def)

lemma table_size_pos: "table_size m b \<Longrightarrow> m \<noteq> 0"
  by (auto simp: table_size_def)

lemma pow_le_31: "b \<le> 31 \<Longrightarrow> (2 :: nat) ^ b \<le> 2147483648"
  using power_increasing [of b 31 "2 :: nat"] by simp

lemma unat_hash_upper: "table_size m b \<Longrightarrow> unat (hash_upper m) = (2 ^ b * 77 + 50) div 100"
proof -
  assume m: "table_size m b"
  then have u: "uint m = int (2 ^ b)" unfolding table_size_def uint_nat by simp
  have "(uint m * 77 + 50) div 100 = int ((2 ^ b * 77 + 50) div 100)"
    unfolding u by (simp add: zdiv_int)
  moreover have "(2 ^ b * 77 + 50 :: nat) div 100 < 2 ^ 32"
    using pow_le_31 [of b] m by (simp add: table_size_def)
  ultimately show ?thesis
    unfolding hash_upper_def by (simp only: of_int_of_nat_eq unsigned_of_nat) (simp add: take_bit_nat_eq_self)
qed

lemma hash_upper_less: "table_size m b \<Longrightarrow> unat (hash_upper m) < 2 ^ b"
proof -
  assume m: "table_size m b"
  then have "(2 :: nat) ^ 2 \<le> 2 ^ b" by (intro power_increasing) (auto simp: table_size_def)
  then show ?thesis using unat_hash_upper [OF m] by simp
qed

lemma empty_bucket:
  assumes "card (used_buckets flags n) < n"
  shows "\<exists>j<n. f_empty flags j"
proof (rule ccontr)
  assume "\<not> (\<exists>j<n. f_empty flags j)"
  then have "used_buckets flags n = {..<n}" by (auto simp: used_buckets_def)
  then show False using assms by simp
qed

lemma table_has_empty: "kh_table hash h M b \<Longrightarrow> \<exists>j<2 ^ b. f_empty (kh_flags h) j"
  using hash_upper_less [of "n_buckets h" b]
  by (intro empty_bucket) (auto simp: kh_table_def word_le_nat_alt)

lemma table_stop: "kh_table hash h M b \<Longrightarrow> \<exists>m. stops_at b hash (kh_flags h) (kh_keys h) k m"
  by (meson table_has_empty stops_somewhere)

lemma kh_load_in: "unat i < length xs \<Longrightarrow> xs ! unat i = Some y \<Longrightarrow> kh_load xs i = Inr y"
  unfolding kh_load_def c_read_def uint_nat by (simp only: nat_int of_nat_0_le_iff of_nat_less_iff) simp

lemma kh_store_in: "unat i < length xs \<Longrightarrow> kh_store xs i y = Inr (xs[unat i := Some y])"
  by (simp add: kh_store_def)

text \<open>What the loops rely on of the memory.\<close>

definition probe_mem :: "nat \<Rightarrow> khint list \<Rightarrow> 'k option list \<Rightarrow> bool" where
  "probe_mem b flags ks \<longleftrightarrow> 2 ^ b \<le> 16 * length flags \<and> 2 ^ b \<le> length ks \<and>
     (\<forall>i < 2 ^ b. f_live flags i \<longrightarrow> ks ! i \<noteq> None)"

lemma kh_table_mem: "kh_table hash h M b \<Longrightarrow> probe_mem b (kh_flags h) (kh_keys h)"
  unfolding probe_mem_def kh_table_def by (auto simp: live_buckets_def elim!: storedD)

lemma probe_on_in:
  assumes "probe_mem b flags ks" and "unat i < 2 ^ b"
  shows "probe_on flags ks k i = Inr (passes flags ks k (unat i))"
proof -
  have "unat i < 16 * length flags" and "unat i < length ks" using assms by (auto simp: probe_mem_def)
  moreover have "f_live flags (unat i) \<Longrightarrow> \<exists>k. ks ! unat i = Some k" using assms by (auto simp: probe_mem_def)
  ultimately show ?thesis
    by (auto simp: probe_on_def ac_isempty_in ac_isdel_in passes_def f_live_def kh_load_in)
qed

lemma probe_start_unique: "0 < s \<Longrightarrow> s < 2 ^ b \<Longrightarrow> probe b x s \<noteq> probe b x 0"
  using tri_injective [of 0 s b x] by auto

lemma unat_back: "unat (i :: khint) = n \<Longrightarrow> i = word_of_nat n"
  by (metis of_nat_unat ucast_id)

subsection \<open>Lookup\<close>

lemma get_loop_finds:
  assumes m: "stops_at b hash (kh_flags h) (kh_keys h) k m" and size: "table_size (n_buckets h) b"
    and mem: "probe_mem b (kh_flags h) (kh_keys h)"
    and "unat i = probe b (unat (hash k)) s" and "unat step = s" and "s \<le> m" and "m - s < fuel"
    and "unat start = probe b (unat (hash k)) 0"
  shows "get_loop fuel h k (n_buckets h - 1) start i step =
    Inr (if f_live (kh_flags h) (probe b (unat (hash k)) m) then word_of_nat (probe b (unat (hash k)) m) else n_buckets h)"
  using assms(4-7)
proof (induction fuel arbitrary: i step s)
  case 0
  then show ?case by simp
next
  case (Suc fuel)
  have i: "unat i < 2 ^ b" using Suc.prems(1) by simp
  have on: "probe_on (kh_flags h) (kh_keys h) k i = Inr (passes (kh_flags h) (kh_keys h) k (probe b (unat (hash k)) s))"
    using probe_on_in [OF mem i, of k] Suc.prems(1) by simp
  show ?case
  proof (cases "s = m")
    case True
    have "unat i < 16 * length (kh_flags h)" using i mem by (simp add: probe_mem_def)
    moreover have "word_of_nat (probe b (unat (hash k)) m) = i"
      using unat_back [OF Suc.prems(1)] True by simp
    moreover have "\<not> passes (kh_flags h) (kh_keys h) k (probe b (unat (hash k)) s)"
      using m True by (simp add: stops_at_def)
    ultimately show ?thesis
      using on True Suc.prems(1) by (simp add: ac_iseither_in)
  next
    case False
    then have sm: "s < m" "Suc s < 2 ^ b" using Suc.prems(3) m by (auto simp: stops_at_def)
    then have go: "passes (kh_flags h) (kh_keys h) k (probe b (unat (hash k)) s)" using m by (simp add: stops_at_def)
    note nxt = next_bucket [OF size Suc.prems(1,2)]
    have "s < 2 ^ b" using sm by simp
    note nxt = nxt [OF this]
    have "(i + (step + 1)) AND (n_buckets h - 1) \<noteq> start"
      using nxt(2) assms(8) probe_start_unique [of "Suc s" b "unat (hash k)"] sm(2) by auto
    then show ?thesis
      using on go Suc.IH [OF nxt(2,1)] sm Suc.prems(4) by (simp add: Let_def)
  qed
qed

lemma kh_get_table:
  assumes "kh_table hash h M b"
  shows "M k = None \<Longrightarrow> kh_get hash h k = Inr (n_buckets h)"
    and "M k = Some v \<Longrightarrow> \<exists>x. kh_get hash h k = Inr x \<and> x \<noteq> n_buckets h \<and>
      unat x \<in> live_buckets (kh_flags h) (2 ^ b) \<and> kh_keys h ! unat x = Some k \<and> kh_vals h ! unat x = Some v"
proof -
  have size: "table_size (n_buckets h) b" using assms by (simp add: kh_table_def)
  obtain m where m: "stops_at b hash (kh_flags h) (kh_keys h) k m" using table_stop [OF assms] by blast
  let ?j = "probe b (unat (hash k)) m"
  have "m < 2 ^ b" using m by (simp add: stops_at_def)
  then have "m - 0 < 2 * unat (n_buckets h)" using size by (simp add: table_size_def)
  then have get: "kh_get hash h k = Inr (if f_live (kh_flags h) ?j then word_of_nat ?j else n_buckets h)"
    unfolding kh_get_def using table_size_pos [OF size]
      get_loop_finds [OF m size kh_table_mem [OF assms] start_bucket [OF size] _ _ _ start_bucket [OF size], of 0]
    by (simp add: Let_def)
  note stop = stop_bucket [OF _ _ m, of "kh_vals h" M]
  have stop: "f_live (kh_flags h) ?j \<longleftrightarrow> M k \<noteq> None" "f_live (kh_flags h) ?j \<Longrightarrow> kh_keys h ! ?j = Some k"
    using stop assms by (auto simp: kh_table_def)
  show "M k = None \<Longrightarrow> kh_get hash h k = Inr (n_buckets h)" using get stop(1) by simp
  show "\<exists>x. kh_get hash h k = Inr x \<and> x \<noteq> n_buckets h \<and> unat x \<in> live_buckets (kh_flags h) (2 ^ b) \<and>
      kh_keys h ! unat x = Some k \<and> kh_vals h ! unat x = Some v" if Mk: "M k = Some v"
  proof (intro exI conjI)
    have live: "f_live (kh_flags h) ?j" using stop(1) Mk by simp
    then show "kh_get hash h k = Inr (word_of_nat ?j)" using get by simp
    have "?j < 2 ^ b" and "(2 :: nat) ^ b \<le> 2147483648" using size by (simp_all add: table_size_def pow_le_31)
    then have "?j < 2147483648" by (rule less_le_trans)
    then have u: "unat (word_of_nat ?j :: khint) = ?j" by (simp add: unsigned_of_nat take_bit_nat_eq_self)
    then show "word_of_nat ?j \<noteq> n_buckets h"
      using size probe_less [of b "unat (hash k)" m] unfolding table_size_def by (metis less_irrefl)
    show lv: "unat (word_of_nat ?j :: khint) \<in> live_buckets (kh_flags h) (2 ^ b)"
      using live u by (simp add: live_buckets_def)
    show key: "kh_keys h ! unat (word_of_nat ?j :: khint) = Some k" using stop(2) live u by simp
    show "kh_vals h ! unat (word_of_nat ?j :: khint) = Some v"
      using assms lv key Mk unfolding kh_table_def by (auto elim!: storedD)
  qed
qed

subsection \<open>Changing a bucket\<close>

lemma flags_set_at:
  assumes "flags_set flags i e d flags'" and "j < 16 * length flags"
  shows "f_empty flags' j = (if j = i then e else f_empty flags j)"
    and "f_live flags' j = (if j = i then \<not> e \<and> \<not> d else f_live flags j)"
  using assms by (auto simp: flags_set_def f_live_def)

lemma flags_set_buckets:
  assumes "flags_set flags i e d flags'" and "n \<le> 16 * length flags" and "i < n"
  shows "live_buckets flags' n = (if \<not> e \<and> \<not> d then insert i (live_buckets flags n) else live_buckets flags n - {i})"
    and "used_buckets flags' n = (if e then used_buckets flags n - {i} else insert i (used_buckets flags n))"
  using assms by (auto simp: live_buckets_def used_buckets_def flags_set_at split: if_splits)

lemma on_chain_mono:
  assumes "on_chain b hash flags ks i" and "ks' ! i = ks ! i"
    and "\<And>j. j < 2 ^ b \<Longrightarrow> f_empty flags' j \<Longrightarrow> f_empty flags j"
  shows "on_chain b hash flags' ks' i"
  using assms unfolding on_chain_def by (metis probe_less)

lemma kh_del_table:
  assumes t: "kh_table hash h M b" and x: "unat x \<in> live_buckets (kh_flags h) (2 ^ b)" and k: "kh_keys h ! unat x = Some k"
  shows "\<exists>h'. kh_del h x = Inr h' \<and> kh_table hash h' (M(k := None)) b \<and> \<not> f_live (kh_flags h') (unat x) \<and>
    n_buckets h' = n_buckets h \<and> unat (kh_size h') \<le> unat (kh_size h)"
proof -
  have size: "unat (n_buckets h) = 2 ^ b" using t by (simp add: kh_table_def table_size_def)
  have xb: "unat x < 2 ^ b" "f_live (kh_flags h) (unat x)" using x by (auto simp: live_buckets_def)
  have len: "2 ^ b \<le> 16 * length (kh_flags h)" using t by (simp add: kh_table_def)
  then have xl: "unat x < 16 * length (kh_flags h)" using xb by simp
  obtain f where f: "ac_set_isdel_true (kh_flags h) x = Inr f" "flags_set (kh_flags h) (unat x) False True f"
    using ac_set_isdel_true_in [OF xl] xb(2) by (auto simp: f_live_def)
  note bk = flags_set_buckets [OF f(2) len xb(1)]
  have used: "used_buckets f (2 ^ b) = used_buckets (kh_flags h) (2 ^ b)"
    using bk(2) x live_used by (auto simp: insert_absorb)
  have live: "live_buckets f (2 ^ b) = live_buckets (kh_flags h) (2 ^ b) - {unat x}" using bk(1) by simp
  have card: "card (live_buckets f (2 ^ b)) = unat (kh_size h) - 1" and pos: "0 < unat (kh_size h)"
    unfolding live using t x by (auto simp: kh_table_def card_gt_0_iff)
  have sz: "unat (kh_size h - 1) = unat (kh_size h) - 1"
    using pos by (simp add: unat_sub word_le_nat_alt)
  let ?h = "h\<lparr>kh_flags := f, kh_size := kh_size h - 1\<rparr>"
  have "stored (kh_keys h) (kh_vals h) (live_buckets f (2 ^ b)) (M(k := None))"
    unfolding live using t x k by (intro stored_take) (auto simp: kh_table_def)
  moreover have "\<forall>i\<in>live_buckets f (2 ^ b). on_chain b hash f (kh_keys h) i"
  proof
    fix i assume "i \<in> live_buckets f (2 ^ b)"
    then have "on_chain b hash (kh_flags h) (kh_keys h) i" using t live by (simp add: kh_table_def)
    then show "on_chain b hash f (kh_keys h) i"
      by (rule on_chain_mono) (use len f(2) in \<open>auto simp: flags_set_at split: if_splits\<close>)
  qed
  ultimately have "kh_table hash ?h (M(k := None)) b"
    using t used card sz f(2) by (simp add: kh_table_def flags_set_def)
  moreover have "kh_del h x = Inr ?h"
  proof -
    have "x \<noteq> n_buckets h" using xb(1) size by auto
    then show ?thesis using xl xb(2) f(1) by (simp add: kh_del_def ac_iseither_in)
  qed
  moreover have "\<not> f_live f (unat x)" using flags_set_at [OF f(2) xl] by simp
  ultimately show ?thesis using sz by auto
qed

lemma kh_set_val_live:
  assumes "kh_table hash h M b" and "unat x \<in> live_buckets (kh_flags h) (2 ^ b)" and "kh_keys h ! unat x = Some k"
  shows "\<exists>h'. kh_set_val h x v = Inr h' \<and> kh_table hash h' (M(k \<mapsto> v)) b \<and>
    kh_flags h' = kh_flags h \<and> kh_keys h' = kh_keys h \<and> n_buckets h' = n_buckets h \<and> kh_size h' = kh_size h"
proof -
  have "unat x < length (kh_vals h)" using assms by (auto simp: kh_table_def live_buckets_def)
  moreover have "kh_table hash (h\<lparr>kh_vals := (kh_vals h)[unat x := Some v]\<rparr>) (M(k \<mapsto> v)) b"
    using assms by (auto simp: kh_table_def intro!: stored_renew)
  ultimately show ?thesis by (simp add: kh_set_val_def kh_store_in)
qed

lemma kh_set_val_dead:
  assumes "kh_table hash h M b" and "unat x < 2 ^ b" and "\<not> f_live (kh_flags h) (unat x)"
  shows "\<exists>h'. kh_set_val h x v = Inr h' \<and> kh_table hash h' M b \<and> n_buckets h' = n_buckets h \<and> kh_size h' = kh_size h"
proof -
  have "unat x < length (kh_vals h)" using assms by (auto simp: kh_table_def)
  moreover have "stored (kh_keys h) ((kh_vals h)[unat x := Some v]) (live_buckets (kh_flags h) (2 ^ b)) M"
  proof (rule stored_cong)
    show "stored (kh_keys h) (kh_vals h) (live_buckets (kh_flags h) (2 ^ b)) M" using assms by (simp add: kh_table_def)
    fix i assume "i \<in> live_buckets (kh_flags h) (2 ^ b)"
    then show "kh_keys h ! i = kh_keys h ! i \<and> (kh_vals h)[unat x := Some v] ! i = kh_vals h ! i \<and>
        i < length (kh_keys h) \<and> i < length ((kh_vals h)[unat x := Some v])"
      using assms by (auto simp: kh_table_def live_buckets_def nth_list_update)
  qed
  ultimately show ?thesis using assms(1) by (simp add: kh_set_val_def kh_store_in kh_table_def)
qed

subsection \<open>Insertion into a table with room\<close>

lemma stops_unique_0: "stops_at b hash flags ks k m \<Longrightarrow> f_empty flags (probe b (unat (hash k)) 0) \<Longrightarrow> m = 0"
  unfolding stops_at_def passes_def by (metis gr0I)

lemma put_loop_finds:
  fixes h :: "('k, 'v) khash" and hash :: "'k \<Rightarrow> khint" and k :: 'k and b :: nat
  defines "pr \<equiv> probe b (unat (hash k))"
  assumes m: "stops_at b hash (kh_flags h) (kh_keys h) k m" and size: "table_size (n_buckets h) b"
    and mem: "probe_mem b (kh_flags h) (kh_keys h)"
    and "unat i = pr s" and "unat step = s" and "s \<le> m" and "m - s < fuel"
    and "site = n_buckets h \<or>
      (\<exists>t. t < s \<and> unat site = pr t \<and> f_del (kh_flags h) (pr t) \<and> \<not> f_empty (kh_flags h) (pr t))"
    and start: "unat start = pr 0"
  shows "\<exists>x t. put_loop fuel h k (n_buckets h - 1) start site i step = Inr x \<and> t \<le> m \<and> unat x = pr t \<and>
    (t = m \<or> f_empty (kh_flags h) (pr m) \<and> f_del (kh_flags h) (pr t) \<and> \<not> f_empty (kh_flags h) (pr t))"
  using assms(5-9)
proof (induction fuel arbitrary: i step s site)
  case 0
  then show ?case by simp
next
  case (Suc fuel)
  have i: "unat i < 2 ^ b" using Suc.prems(1) by (simp add: pr_def)
  then have il: "unat i < 16 * length (kh_flags h)" using mem by (simp add: probe_mem_def)
  have on: "probe_on (kh_flags h) (kh_keys h) k i = Inr (passes (kh_flags h) (kh_keys h) k (pr s))"
    using probe_on_in [OF mem i, of k] Suc.prems(1) by simp
  show ?case
  proof (cases "s = m")
    case True
    then have "\<not> passes (kh_flags h) (kh_keys h) k (pr s)" using m by (simp add: stops_at_def pr_def)
    then have eq: "put_loop (Suc fuel) h k (n_buckets h - 1) start site i step =
        Inr (if f_empty (kh_flags h) (pr m) \<and> site \<noteq> n_buckets h then site else i)"
      using on True Suc.prems(1) by (simp add: ac_isempty_in [OF il])
    show ?thesis
    proof (cases "f_empty (kh_flags h) (pr m) \<and> site \<noteq> n_buckets h")
      case True
      then obtain t where "t < s" "unat site = pr t" "f_del (kh_flags h) (pr t)" "\<not> f_empty (kh_flags h) (pr t)"
        using Suc.prems(5) by blast
      then show ?thesis using eq True \<open>s = m\<close> by (intro exI [of _ site] exI [of _ t]) (simp del: put_loop.simps)
    next
      case False
      then have "put_loop (Suc fuel) h k (n_buckets h - 1) start site i step = Inr i" unfolding eq by auto
      then show ?thesis using Suc.prems(1) \<open>s = m\<close> by (intro exI [of _ i] exI [of _ m]) (simp del: put_loop.simps)
    qed
  next
    case False
    then have sm: "s < m" "Suc s < 2 ^ b" using Suc.prems(3) m by (auto simp: stops_at_def)
    then have go: "passes (kh_flags h) (kh_keys h) k (pr s)" using m by (simp add: stops_at_def pr_def)
    have "s < 2 ^ b" using sm by simp
    note nxt = next_bucket [OF size Suc.prems(1) [unfolded pr_def] Suc.prems(2) this, folded pr_def]
    have ne: "(i + (step + 1)) AND (n_buckets h - 1) \<noteq> start"
      using nxt(2) start probe_start_unique [of "Suc s" b "unat (hash k)"] sm(2) by (auto simp: pr_def)
    let ?site = "if f_del (kh_flags h) (pr s) then i else site"
    have "?site = n_buckets h \<or> (\<exists>t. t < Suc s \<and> unat ?site = pr t \<and> f_del (kh_flags h) (pr t) \<and> \<not> f_empty (kh_flags h) (pr t))"
      using Suc.prems(1,5) go by (auto simp: passes_def less_Suc_eq)
    from Suc.IH [OF nxt(2,1) _ _ this] have "\<exists>x t. put_loop fuel h k (n_buckets h - 1) start ?site
        ((i + (step + 1)) AND (n_buckets h - 1)) (step + 1) = Inr x \<and> t \<le> m \<and> unat x = pr t \<and>
      (t = m \<or> f_empty (kh_flags h) (pr m) \<and> f_del (kh_flags h) (pr t) \<and> \<not> f_empty (kh_flags h) (pr t))"
      using sm Suc.prems(4) by simp
    then show ?thesis
      using on go ne Suc.prems(1) by (simp add: Let_def ac_isdel_in [OF il])
  qed
qed

lemma put_bucket_finds:
  assumes t: "kh_table hash h M b" and m: "stops_at b hash (kh_flags h) (kh_keys h) k m"
  shows "\<exists>x t. put_bucket hash h k = Inr x \<and> t \<le> m \<and> unat x = probe b (unat (hash k)) t \<and>
    (t = m \<or> f_empty (kh_flags h) (probe b (unat (hash k)) m) \<and> f_del (kh_flags h) (probe b (unat (hash k)) t) \<and>
      \<not> f_empty (kh_flags h) (probe b (unat (hash k)) t))"
proof -
  have size: "table_size (n_buckets h) b" and len: "2 ^ b \<le> 16 * length (kh_flags h)" using t by (simp_all add: kh_table_def)
  let ?i = "hash k AND (n_buckets h - 1)"
  note i = start_bucket [OF size, of "hash k"]
  have il: "unat ?i < 16 * length (kh_flags h)" unfolding i by (rule less_le_trans [OF probe_less len])
  show ?thesis
  proof (cases "f_empty (kh_flags h) (unat ?i)")
    case True
    then have "m = 0" using stops_unique_0 [OF m] i by simp
    then show ?thesis using True il i by (auto simp: put_bucket_def Let_def ac_isempty_in)
  next
    case False
    have "m < 2 ^ b" using m by (simp add: stops_at_def)
    then have "m - 0 < 2 * unat (n_buckets h)" using size by (simp add: table_size_def)
    then show ?thesis
      using put_loop_finds [OF m size kh_table_mem [OF t] i _ _ _ _ i, of 0] False il
      by (simp add: put_bucket_def Let_def ac_isempty_in)
  qed
qed

lemma kh_place_table:
  assumes t: "kh_table hash h M b" and new: "M k = None"
    and x: "unat x = probe b (unat (hash k)) s" "s < 2 ^ b" "\<not> f_live (kh_flags h) (unat x)"
    and front: "\<forall>t. t < s \<longrightarrow> \<not> f_empty (kh_flags h) (probe b (unat (hash k)) t)"
    and room: "n_occupied h < upper_bound h"
  shows "\<exists>f. ac_set_isboth_false (kh_flags h) x = Inr f \<and> f_live f (unat x) \<and>
    kh_table hash (h\<lparr>kh_keys := (kh_keys h)[unat x := Some k], kh_flags := f, kh_size := kh_size h + 1,
      n_occupied := (if f_empty (kh_flags h) (unat x) then n_occupied h + 1 else n_occupied h),
      kh_vals := (kh_vals h)[unat x := Some v]\<rparr>) (M(k \<mapsto> v)) b"
proof -
  have xb: "unat x < 2 ^ b" using x(1) by simp
  have size: "table_size (n_buckets h) b" and len: "2 ^ b \<le> 16 * length (kh_flags h)" using t by (simp_all add: kh_table_def)
  then have xl: "unat x < 16 * length (kh_flags h)" using xb by simp
  obtain f where f: "ac_set_isboth_false (kh_flags h) x = Inr f" "flags_set (kh_flags h) (unat x) False False f"
    using ac_set_isboth_false_in [OF xl] by blast
  note bk = flags_set_buckets [OF f(2) len xb, simplified]
  have dead: "unat x \<notin> live_buckets (kh_flags h) (2 ^ b)" using x(3) by (simp add: live_buckets_def)
  have below: "unat (n_occupied h) < unat (hash_upper (n_buckets h))"
    using room t by (simp add: kh_table_def word_less_nat_alt)
  have le: "unat (kh_size h) \<le> unat (n_occupied h)"
    using t card_mono [OF finite_buckets(2) live_used] by (simp add: kh_table_def)
  have small: "unat (hash_upper (n_buckets h)) < 2147483648"
    using hash_upper_less [OF size] pow_le_31 [of b] size by (simp add: table_size_def)
  have occ: "unat (n_occupied h + 1) = unat (n_occupied h) + 1" and siz: "unat (kh_size h + 1) = unat (kh_size h) + 1"
    using below small le by (simp_all add: unat_word_ariths)
  have used: "card (used_buckets f (2 ^ b)) =
      unat (if f_empty (kh_flags h) (unat x) then n_occupied h + 1 else n_occupied h)"
    unfolding bk(2) using t xb occ by (auto simp: kh_table_def used_buckets_def insert_absorb)
  have live: "card (live_buckets f (2 ^ b)) = unat (kh_size h + 1)"
    unfolding bk(1) using t dead siz by (simp add: kh_table_def)
  have lk: "unat x < length (kh_keys h)" "unat x < length (kh_vals h)" using t xb by (auto simp: kh_table_def)
  have "stored ((kh_keys h)[unat x := Some k]) ((kh_vals h)[unat x := Some v]) (live_buckets f (2 ^ b)) (M(k \<mapsto> v))"
    unfolding bk(1) using t dead new lk by (intro stored_put) (simp_all add: kh_table_def)
  moreover have "\<forall>i\<in>live_buckets f (2 ^ b). on_chain b hash f ((kh_keys h)[unat x := Some k]) i"
  proof
    have keep: "f_empty (kh_flags h) j" if "j < 2 ^ b" "f_empty f j" for j
      using that len flags_set_at(1) [OF f(2), of j] by (auto split: if_splits)
    fix i assume "i \<in> live_buckets f (2 ^ b)"
    then consider "i = unat x" | "i \<in> live_buckets (kh_flags h) (2 ^ b)" "i \<noteq> unat x" using bk(1) dead by auto
    then show "on_chain b hash f ((kh_keys h)[unat x := Some k]) i"
    proof cases
      case 1
      then show ?thesis using x front keep lk unfolding on_chain_def
        by (intro exI [of _ k] exI [of _ s]) auto
    next
      case 2
      then have "on_chain b hash (kh_flags h) (kh_keys h) i" using t by (simp add: kh_table_def)
      then show ?thesis by (rule on_chain_mono) (use 2 keep in auto)
    qed
  qed
  moreover have "(if f_empty (kh_flags h) (unat x) then n_occupied h + 1 else n_occupied h) \<le> hash_upper (n_buckets h)"
    using below occ by (simp add: word_le_nat_alt)
  moreover have "f_live f (unat x)" using flags_set_at(2) [OF f(2) xl] by simp
  ultimately show ?thesis
    using t used live f by (simp add: kh_table_def flags_set_def)
qed

text \<open>
  Bucket \<open>x\<close> holds \<open>k\<close>; and what \<open>kh_put\<close> promises of its bucket \<open>x\<close>: a value assigned to it is the
  value of \<open>k\<close>.
\<close>

definition kh_place :: "('k, 'v) khash \<Rightarrow> 'k \<Rightarrow> khint \<Rightarrow> bool" where
  "kh_place h k x \<longleftrightarrow> unat x < unat (n_buckets h) \<and> f_live (kh_flags h) (unat x) \<and> kh_keys h ! unat x = Some k"

definition place_for :: "('k \<Rightarrow> khint) \<Rightarrow> ('k \<Rightarrow> 'v option) \<Rightarrow> 'k \<Rightarrow> khint \<Rightarrow> ('k, 'v) khash \<Rightarrow> bool" where
  "place_for hash M k x h' \<longleftrightarrow>
     (\<forall>v. \<exists>h''. kh_set_val h' x v = Inr h'' \<and> kh_rep hash h'' (M(k \<mapsto> v)) \<and> kh_place h'' k x \<and> kh_size h'' = kh_size h')"

lemma put_here_table:
  assumes t: "kh_table hash h M b" and room: "n_occupied h < upper_bound h"
  shows "\<exists>x r h'. put_here hash h k = Inr (x, r, h') \<and> 0 \<le> r \<and> (r = 0 \<longleftrightarrow> M k \<noteq> None) \<and>
    place_for hash M k x h' \<and> unat (kh_size h') \<le> unat (kh_size h) + 1"
proof -
  obtain m where m: "stops_at b hash (kh_flags h) (kh_keys h) k m" using table_stop [OF t] by blast
  let ?pr = "probe b (unat (hash k))"
  obtain x s where x: "put_bucket hash h k = Inr x" "s \<le> m" "unat x = ?pr s"
    "s = m \<or> f_empty (kh_flags h) (?pr m) \<and> f_del (kh_flags h) (?pr s) \<and> \<not> f_empty (kh_flags h) (?pr s)"
    using put_bucket_finds [OF t m] by blast
  have stop: "f_live (kh_flags h) (?pr m) \<longleftrightarrow> M k \<noteq> None" "f_live (kh_flags h) (?pr m) \<Longrightarrow> kh_keys h ! ?pr m = Some k"
    "\<not> f_live (kh_flags h) (?pr m) \<Longrightarrow> f_empty (kh_flags h) (?pr m)"
    using t stop_bucket [OF _ _ m, of "kh_vals h" M] by (auto simp: kh_table_def)
  have xl: "unat x < 16 * length (kh_flags h)" "unat x < length (kh_keys h)" "unat x < length (kh_vals h)"
    and xb: "unat x < 2 ^ b"
    using t x(3) probe_less [of b "unat (hash k)" s] unfolding kh_table_def by linarith+
  show ?thesis
  proof (cases "M k")
    case None
    then have dead: "\<not> f_live (kh_flags h) (unat x)" using stop(1) x(3,4) by (auto simp: f_live_def)
    have front: "\<forall>t. t < s \<longrightarrow> \<not> f_empty (kh_flags h) (?pr t)" and sb: "s < 2 ^ b"
      using m x(2) by (auto simp: stops_at_def passes_def)
    note place = kh_place_table [OF t None x(3) sb dead front room]
    from place obtain f where f: "ac_set_isboth_false (kh_flags h) x = Inr f" "f_live f (unat x)" by blast
    let ?e = "f_empty (kh_flags h) (unat x)"
    let ?h = "h\<lparr>kh_keys := (kh_keys h)[unat x := Some k], kh_flags := f, kh_size := kh_size h + 1,
      n_occupied := (if ?e then n_occupied h + 1 else n_occupied h)\<rparr>"
    have tab: "kh_table hash (?h\<lparr>kh_vals := (kh_vals h)[unat x := Some v]\<rparr>) (M(k \<mapsto> v)) b" for v
      using place [of v] f by simp
    have "put_here hash h k = Inr (x, if ?e then 1 else 2, ?h)"
      using x(1) xl f dead by (auto simp: put_here_def ac_isempty_in ac_isdel_in kh_store_in f_live_def)
    moreover have "place_for hash M k x ?h"
      unfolding place_for_def kh_rep_def
    proof (rule allI, rule exI, intro conjI)
      fix v
      show "kh_set_val ?h x v = Inr (?h\<lparr>kh_vals := (kh_vals h)[unat x := Some v]\<rparr>)"
        using xl(3) by (simp add: kh_set_val_def kh_store_in)
      show "kh_unused (?h\<lparr>kh_vals := (kh_vals h)[unat x := Some v]\<rparr>) \<and> M(k \<mapsto> v) = Map.empty \<or>
          (\<exists>b. kh_table hash (?h\<lparr>kh_vals := (kh_vals h)[unat x := Some v]\<rparr>) (M(k \<mapsto> v)) b)"
        by (rule disjI2, rule exI, rule tab)
      show "kh_place (?h\<lparr>kh_vals := (kh_vals h)[unat x := Some v]\<rparr>) k x"
        using f(2) xb xl(2) t by (simp add: kh_place_def kh_table_def table_size_def)
    qed simp
    moreover have "unat (kh_size ?h) \<le> unat (kh_size h) + 1"
      by (simp add: unat_word_ariths)
    ultimately show ?thesis using None by fastforce
  next
    case (Some v0)
    then have live: "f_live (kh_flags h) (?pr m)" using stop(1) by simp
    then have "s = m" using x(4) by (auto simp: f_live_def)
    then have lx: "f_live (kh_flags h) (unat x)" "kh_keys h ! unat x = Some k" using x(3) live stop(2) by simp_all
    then have "put_here hash h k = Inr (x, 0, h)"
      using x(1) xl by (auto simp: put_here_def ac_isempty_in ac_isdel_in f_live_def)
    moreover have "place_for hash M k x h"
      unfolding place_for_def kh_rep_def
    proof (intro allI)
      fix v
      have "unat x \<in> live_buckets (kh_flags h) (2 ^ b)" using lx(1) xb by (simp add: live_buckets_def)
      from kh_set_val_live [OF t this lx(2), of v] obtain h' where h': "kh_set_val h x v = Inr h'"
        "kh_table hash h' (M(k \<mapsto> v)) b" "kh_flags h' = kh_flags h" "kh_keys h' = kh_keys h"
        "n_buckets h' = n_buckets h" "kh_size h' = kh_size h" by blast
      moreover have "kh_place h' k x"
        using h' lx xb t by (simp add: kh_place_def kh_table_def table_size_def)
      ultimately show "\<exists>h''. kh_set_val h x v = Inr h'' \<and>
          (kh_unused h'' \<and> M(k \<mapsto> v) = Map.empty \<or> (\<exists>b. kh_table hash h'' (M(k \<mapsto> v)) b)) \<and>
          kh_place h'' k x \<and> kh_size h'' = kh_size h" by blast
    qed
    ultimately show ?thesis using Some by auto
  qed
qed

end
