(* ===== verification/Khash_Resize.thy ===== *)
theory Khash_Resize
  imports Khash_Table
begin

text \<open>
  The rehash in place of \<open>kh_resize\<close>: while it runs, the buckets live in the old flags and those occupied in
  the new ones, together with the entry in hand, hold the map; each turn of the kick-out process moves one
  entry to its place in the new table.
\<close>

subsection \<open>Finding an empty bucket of the new table\<close>

definition first_empty :: "nat \<Rightarrow> khint list \<Rightarrow> nat \<Rightarrow> nat \<Rightarrow> bool" where
  "first_empty b flags x m \<longleftrightarrow> m < 2 ^ b \<and> f_empty flags (probe b x m) \<and> (\<forall>t. t < m \<longrightarrow> \<not> f_empty flags (probe b x t))"

lemma first_empty_exists:
  assumes "card (used_buckets flags (2 ^ b)) < 2 ^ b"
  shows "\<exists>m. first_empty b flags x m"
proof -
  let ?P = "\<lambda>m. f_empty flags (probe b x m)"
  obtain j where "j < 2 ^ b" "f_empty flags j" using empty_bucket [OF assms] by blast
  then obtain s where s: "s < 2 ^ b" "?P s" using probe_onto [of j b x] by blast
  from s(2) have "?P (LEAST m. ?P m)" and "(LEAST m. ?P m) \<le> s" by (rule LeastI, rule Least_le)
  moreover have "\<forall>t. t < (LEAST m. ?P m) \<longrightarrow> \<not> ?P t" using not_less_Least by blast
  ultimately have "first_empty b flags x (LEAST m. ?P m)"
    using s(1) unfolding first_empty_def by (meson le_less_trans)
  then show ?thesis by (rule exI)
qed

lemma empty_loop_finds:
  assumes "first_empty b flags x m" and size: "table_size n b" and len: "2 ^ b \<le> 16 * length flags"
    and "unat i = probe b x s" and "unat step = s" and "s \<le> m" and "m - s < fuel"
  shows "\<exists>i'. empty_loop fuel flags (n - 1) i step = Inr i' \<and> unat i' = probe b x m"
  using assms(4-7)
proof (induction fuel arbitrary: i step s)
  case 0
  then show ?case by simp
next
  case (Suc fuel)
  have il: "unat i < 16 * length flags" unfolding Suc.prems(1) by (rule less_le_trans [OF probe_less len])
  have e: "f_empty flags (unat i) \<longleftrightarrow> s = m"
    using assms(1) Suc.prems(1,3) unfolding first_empty_def by (metis le_neq_implies_less)
  show ?case
  proof (cases "s = m")
    case True
    then show ?thesis using e Suc.prems(1) by (simp add: ac_isempty_in [OF il])
  next
    case False
    then have "s < m" "s < 2 ^ b" using Suc.prems(3) assms(1) by (auto simp: first_empty_def)
    note nxt = next_bucket [OF size Suc.prems(1,2) this(2)]
    show ?thesis
      using Suc.IH [OF nxt(2,1)] \<open>s < m\<close> Suc.prems(4) e False by (simp add: ac_isempty_in [OF il] Let_def)
  qed
qed

subsection \<open>The invariant of the rehash\<close>

abbreviation old_live :: "('k, 'v) khash \<Rightarrow> nat set" where
  "old_live h \<equiv> live_buckets (kh_flags h) (unat (n_buckets h))"

definition rehash_inv ::
    "nat \<Rightarrow> ('k \<Rightarrow> khint) \<Rightarrow> ('k, 'v) khash \<Rightarrow> khint list \<Rightarrow> ('k \<Rightarrow> 'v option) \<Rightarrow> nat \<Rightarrow> bool" where
  "rehash_inv b hash h nf M c \<longleftrightarrow>
     stored (kh_keys h) (kh_vals h) (old_live h \<union> used_buckets nf (2 ^ b)) M \<and>
     old_live h \<inter> used_buckets nf (2 ^ b) = {} \<and>
     (\<forall>i \<in> used_buckets nf (2 ^ b). on_chain b hash nf (kh_keys h) i) \<and>
     (\<forall>i < 2 ^ b. \<not> f_del nf i) \<and> card (old_live h) + card (used_buckets nf (2 ^ b)) = c \<and>
     2 ^ b \<le> 16 * length nf \<and> unat (n_buckets h) \<le> 16 * length (kh_flags h) \<and>
     2 ^ b \<le> length (kh_keys h) \<and> 2 ^ b \<le> length (kh_vals h)"

lemma on_chain_place:
  assumes "first_empty b nf (unat (hash k)) m" and "probe b (unat (hash k)) m = i"
    and "i < length ks" and "flags_set nf i False d nf'" and "2 ^ b \<le> 16 * length nf"
  shows "on_chain b hash nf' (ks[i := Some k]) i"
  unfolding on_chain_def
proof (intro exI conjI allI impI)
  show "ks[i := Some k] ! i = Some k" using assms(3) by simp
  show "m < 2 ^ b" "probe b (unat (hash k)) m = i" using assms(1,2) by (auto simp: first_empty_def)
  fix t assume "t < m"
  then have "\<not> f_empty nf (probe b (unat (hash k)) t)" using assms(1) by (auto simp: first_empty_def)
  then show "\<not> f_empty nf' (probe b (unat (hash k)) t)"
    using flags_set_at(1) [OF assms(4), of "probe b (unat (hash k)) t"] assms(5) less_le_trans [OF probe_less assms(5)]
    by auto
qed

text \<open>The entry in hand goes to bucket \<open>i\<close>, which leaves \<open>A\<close> as the buckets that hold the others.\<close>

lemma rehash_place:
  assumes inv: "rehash_inv b hash h nf M c" and e: "first_empty b nf (unat (hash k)) m"
    and i: "probe b (unat (hash k)) m = i" and set: "flags_set nf i False (f_del nf i) nf'"
    and fl: "length fl = length (kh_flags h)" "live_buckets fl (unat (n_buckets h)) = old_live h - {i}"
    and st: "stored (kh_keys h) (kh_vals h) (old_live h \<union> used_buckets nf (2 ^ b) - {i}) M'" and new: "M' k = None"
  shows "rehash_inv b hash (h\<lparr>kh_keys := (kh_keys h)[i := Some k], kh_vals := (kh_vals h)[i := Some v], kh_flags := fl\<rparr>) nf'
    (M'(k \<mapsto> v)) (card (old_live h - {i}) + card (used_buckets nf (2 ^ b)) + 1)"
proof -
  have len: "2 ^ b \<le> 16 * length nf" "2 ^ b \<le> length (kh_keys h)" "2 ^ b \<le> length (kh_vals h)"
    using inv by (simp_all add: rehash_inv_def)
  have ib: "i < 2 ^ b" using i by auto
  then have il: "i < length (kh_keys h)" "i < length (kh_vals h)" using len by simp_all
  have free: "i \<notin> used_buckets nf (2 ^ b)" using e i by (auto simp: used_buckets_def first_empty_def)
  note bk = flags_set_buckets(2) [OF set len(1) ib, simplified]
  have A: "(old_live h - {i}) \<union> used_buckets nf' (2 ^ b) = insert i (old_live h \<union> used_buckets nf (2 ^ b) - {i})"
    unfolding bk by auto
  have "stored ((kh_keys h)[i := Some k]) ((kh_vals h)[i := Some v]) ((old_live h - {i}) \<union> used_buckets nf' (2 ^ b)) (M'(k \<mapsto> v))"
    unfolding A using il by (intro stored_put st new) auto
  moreover have "\<forall>j \<in> used_buckets nf' (2 ^ b). on_chain b hash nf' ((kh_keys h)[i := Some k]) j"
  proof
    fix j assume "j \<in> used_buckets nf' (2 ^ b)"
    then consider "j = i" | "j \<in> used_buckets nf (2 ^ b)" "j \<noteq> i" using bk free by auto
    then show "on_chain b hash nf' ((kh_keys h)[i := Some k]) j"
    proof cases
      case 1
      then show ?thesis using on_chain_place [where hash = hash and k = k, OF e i il(1) set len(1)] by simp
    next
      case 2
      then have "on_chain b hash nf (kh_keys h) j" using inv by (simp add: rehash_inv_def)
      then show ?thesis
        by (rule on_chain_mono) (use 2 len(1) flags_set_at(1) [OF set] in \<open>auto split: if_splits\<close>)
    qed
  qed
  moreover have "(old_live h - {i}) \<inter> used_buckets nf' (2 ^ b) = {}"
    using inv unfolding bk rehash_inv_def by auto
  moreover have "\<forall>j < 2 ^ b. \<not> f_del nf' j"
    using inv set ib len(1) unfolding rehash_inv_def flags_set_def by auto
  moreover have "card (used_buckets nf' (2 ^ b)) = card (used_buckets nf (2 ^ b)) + 1"
    unfolding bk using free by simp
  ultimately show ?thesis
    using inv set fl by (simp add: rehash_inv_def flags_set_def)
qed

lemma same_flags: "h\<lparr>kh_keys := a, kh_vals := c, kh_flags := kh_flags h\<rparr> = h\<lparr>kh_keys := a, kh_vals := c\<rparr>"
  by (cases h) simp

lemma rehash_room:
  assumes "rehash_inv b hash h nf M c" and "c < 2 ^ b"
  shows "\<exists>m. first_empty b nf x m"
  using assms by (intro first_empty_exists) (simp add: rehash_inv_def)

definition same_counts :: "('k, 'v) khash \<Rightarrow> ('k, 'v) khash \<Rightarrow> bool" where
  "same_counts h h' \<longleftrightarrow> n_buckets h' = n_buckets h \<and> kh_size h' = kh_size h \<and> n_occupied h' = n_occupied h \<and>
     upper_bound h' = upper_bound h"

lemma same_counts_refl [simp]: "same_counts h h"
  by (simp add: same_counts_def)

lemma same_counts_trans: "same_counts h h' \<Longrightarrow> same_counts h' h'' \<Longrightarrow> same_counts h h''"
  by (simp add: same_counts_def)

lemma same_counts_data: "same_counts h (h\<lparr>kh_keys := a, kh_vals := c, kh_flags := f\<rparr>)"
    "same_counts h (h\<lparr>kh_keys := a, kh_vals := c\<rparr>)" "same_counts h (h\<lparr>kh_flags := f\<rparr>)"
  by (simp_all add: same_counts_def)

lemma set_isdel_live:
  assumes "unat i < n" and "n \<le> 16 * length flags" and "f_live flags (unat i)"
  shows "\<exists>f. ac_set_isdel_true flags i = Inr f \<and> length f = length flags \<and> live_buckets f n = live_buckets flags n - {unat i}"
proof -
  have "unat i < 16 * length flags" using assms by simp
  then obtain f where f: "ac_set_isdel_true flags i = Inr f" "flags_set flags (unat i) (f_empty flags (unat i)) True f"
    using ac_set_isdel_true_in by blast
  then show ?thesis using flags_set_buckets(1) [OF f(2) assms(2,1)] by (auto simp: flags_set_def)
qed

subsection \<open>The kick-out process\<close>

lemma kick_out_places:
  assumes size: "table_size new_n b"
  shows "rehash_inv b hash h nf M c \<Longrightarrow> M k = None \<Longrightarrow> c < 2 ^ b \<Longrightarrow> card (old_live h) < fuel \<Longrightarrow>
    \<exists>h' nf'. kick_out hash new_n fuel h nf k v = Inr (h', nf') \<and> rehash_inv b hash h' nf' (M(k \<mapsto> v)) (c + 1) \<and>
      same_counts h h' \<and> old_live h' \<subseteq> old_live h"
proof (induction fuel arbitrary: h nf M k v)
  case 0
  then show ?case by simp
next
  case (Suc fuel)
  note inv = Suc.prems(1)
  have len: "2 ^ b \<le> 16 * length nf" "unat (n_buckets h) \<le> 16 * length (kh_flags h)"
    "2 ^ b \<le> length (kh_keys h)" "2 ^ b \<le> length (kh_vals h)"
    using inv by (simp_all add: rehash_inv_def)
  obtain m where m: "first_empty b nf (unat (hash k)) m" using rehash_room [OF inv Suc.prems(3)] by blast
  have "m - 0 < unat new_n" using m size by (simp add: first_empty_def table_size_def)
  then obtain i where i: "empty_loop (unat new_n) nf (new_n - 1) (hash k AND (new_n - 1)) 0 = Inr i"
    and ip: "unat i = probe b (unat (hash k)) m"
    using empty_loop_finds [OF m size len(1) start_bucket [OF size], of 0 "unat new_n"] by auto
  have ib: "unat i < 2 ^ b" using ip by simp
  then have il: "unat i < 16 * length nf" "unat i < length (kh_keys h)" "unat i < length (kh_vals h)" using len by simp_all
  obtain nf1 where nf1: "ac_set_isempty_false nf i = Inr nf1" "flags_set nf (unat i) False (f_del nf (unat i)) nf1"
    using ac_set_isempty_false_in [OF il(1)] by blast
  note place = rehash_place [OF inv m ip [symmetric] nf1(2)]
  have fin: "finite (old_live h)" by simp
  define kick where "kick \<longleftrightarrow> unat i \<in> old_live h"
  have cond: "(if i < n_buckets h then ac_iseither (kh_flags h) i else Inr True) = Inr (\<not> kick)"
    unfolding kick_def using len(2) by (auto simp: live_buckets_def word_less_nat_alt intro: ac_iseither_in)
  show ?case
  proof (cases kick)
    case True
    then have old: "unat i \<in> old_live h" by (simp add: kick_def)
    then obtain k1 v1 where e1: "kh_keys h ! unat i = Some k1" "kh_vals h ! unat i = Some v1" "M k1 = Some v1"
      using inv unfolding rehash_inv_def by (blast elim: storedD)
    obtain f where f: "ac_set_isdel_true (kh_flags h) i = Inr f" "length f = length (kh_flags h)"
      "live_buckets f (unat (n_buckets h)) = old_live h - {unat i}"
      using set_isdel_live [of i "unat (n_buckets h)" "kh_flags h"] old len(2) by (auto simp: live_buckets_def)
    let ?h = "h\<lparr>kh_keys := (kh_keys h)[unat i := Some k], kh_vals := (kh_vals h)[unat i := Some v], kh_flags := f\<rparr>"
    have st: "stored (kh_keys h) (kh_vals h) (old_live h \<union> used_buckets nf (2 ^ b) - {unat i}) (M(k1 := None))"
      using inv old e1(1) unfolding rehash_inv_def by (intro stored_take) auto
    have "card (old_live h - {unat i}) + card (used_buckets nf (2 ^ b)) + 1 = c"
      using inv card_Suc_Diff1 [OF fin old] by (simp add: rehash_inv_def)
    then have inv1: "rehash_inv b hash ?h nf1 (M(k1 := None, k \<mapsto> v)) c"
      using place [OF f(2,3) st, of v] Suc.prems(2) by simp
    have "k1 \<noteq> k" using e1(3) Suc.prems(2) by auto
    have less: "old_live ?h \<subset> old_live h" using f(3) old by auto
    have M1: "(M(k1 := None, k \<mapsto> v)) k1 = None" using \<open>k1 \<noteq> k\<close> by simp
    have "card (old_live ?h) < fuel" using psubset_card_mono [OF fin less] Suc.prems(4) by simp
    then obtain h' nf' where IH: "kick_out hash new_n fuel ?h nf1 k1 v1 = Inr (h', nf')"
      "rehash_inv b hash h' nf' (M(k1 := None, k \<mapsto> v, k1 \<mapsto> v1)) (c + 1)" "same_counts ?h h'" "old_live h' \<subseteq> old_live ?h"
      using Suc.IH [OF inv1 M1 Suc.prems(3), of v1] by blast
    have "M(k1 := None, k \<mapsto> v, k1 \<mapsto> v1) = M(k \<mapsto> v)" using e1(3) \<open>k1 \<noteq> k\<close> by auto
    moreover have "same_counts h h'" using same_counts_data(1) IH(3) by (rule same_counts_trans)
    moreover have "kick_out hash new_n (Suc fuel) h nf k v = Inr (h', nf')"
      using i nf1(1) cond True f(1) il e1 IH(1) by (simp add: Let_def kh_load_in kh_store_in)
    moreover have "old_live h' \<subseteq> old_live h" using IH(4) less by blast
    ultimately show ?thesis using IH(2) by (simp del: kick_out.simps fun_upd_apply)
  next
    case False
    then have nold: "old_live h - {unat i} = old_live h" by (auto simp: kick_def)
    moreover have "unat i \<notin> used_buckets nf (2 ^ b)" using m ip by (auto simp: used_buckets_def first_empty_def)
    ultimately have A: "old_live h \<union> used_buckets nf (2 ^ b) - {unat i} = old_live h \<union> used_buckets nf (2 ^ b)" by auto
    let ?h = "h\<lparr>kh_keys := (kh_keys h)[unat i := Some k], kh_vals := (kh_vals h)[unat i := Some v]\<rparr>"
    have "rehash_inv b hash ?h nf1 (M(k \<mapsto> v)) (c + 1)"
      using place [where fl = "kh_flags h" and v = v and M' = M] inv Suc.prems(2) A nold
      by (simp add: rehash_inv_def same_flags)
    moreover have "kick_out hash new_n (Suc fuel) h nf k v = Inr (?h, nf1)"
      using i nf1(1) cond False il by (simp add: Let_def kh_store_in)
    moreover have "old_live ?h = old_live h" by simp
    ultimately show ?thesis using same_counts_data(2) [of h] by blast
  qed
qed

subsection \<open>The loop over the old buckets\<close>

text \<open>The entry of bucket \<open>j\<close> is taken out of the old table.\<close>

lemma rehash_take:
  assumes inv: "rehash_inv b hash h nf M c" and j: "unat j \<in> old_live h"
  shows "\<exists>k v f. kh_load (kh_keys h) j = Inr k \<and> kh_load (kh_vals h) j = Inr v \<and> M k = Some v \<and>
    ac_set_isdel_true (kh_flags h) j = Inr f \<and>
    rehash_inv b hash (h\<lparr>kh_flags := f\<rparr>) nf (M(k := None)) (c - 1) \<and>
    old_live (h\<lparr>kh_flags := f\<rparr>) = old_live h - {unat j} \<and> 0 < c"
proof -
  have disj: "old_live h \<inter> used_buckets nf (2 ^ b) = {}" and len: "unat (n_buckets h) \<le> 16 * length (kh_flags h)"
    and count: "card (old_live h) + card (used_buckets nf (2 ^ b)) = c"
    using inv by (simp_all add: rehash_inv_def)
  obtain k v where e: "unat j < length (kh_keys h)" "unat j < length (kh_vals h)"
    "kh_keys h ! unat j = Some k" "kh_vals h ! unat j = Some v" "M k = Some v"
    using inv j unfolding rehash_inv_def by (blast elim: storedD)
  obtain f where f: "ac_set_isdel_true (kh_flags h) j = Inr f" "length f = length (kh_flags h)"
    "live_buckets f (unat (n_buckets h)) = old_live h - {unat j}"
    using set_isdel_live [of j "unat (n_buckets h)" "kh_flags h"] j len by (auto simp: live_buckets_def)
  have A: "old_live h - {unat j} \<union> used_buckets nf (2 ^ b) = old_live h \<union> used_buckets nf (2 ^ b) - {unat j}"
    using disj j by auto
  have "stored (kh_keys h) (kh_vals h) (old_live h - {unat j} \<union> used_buckets nf (2 ^ b)) (M(k := None))"
    unfolding A using inv j e(3) unfolding rehash_inv_def by (intro stored_take) auto
  moreover have "card (old_live h - {unat j}) + card (used_buckets nf (2 ^ b)) = c - 1" and "0 < c"
    using count card_Suc_Diff1 [OF finite_buckets(1) j] by linarith+
  moreover have "(old_live h - {unat j}) \<inter> used_buckets nf (2 ^ b) = {}" using disj by auto
  ultimately have "rehash_inv b hash (h\<lparr>kh_flags := f\<rparr>) nf (M(k := None)) (c - 1)" and "0 < c"
    using inv f(2,3) by (simp_all add: rehash_inv_def)
  then show ?thesis using e f by (intro exI [of _ k] exI [of _ v] exI [of _ f]) (simp add: kh_load_in)
qed

lemma old_live_card: "card (old_live h) \<le> unat (n_buckets h)"
  using card_mono [of "{..<unat (n_buckets h)}" "old_live h"] by (auto simp: live_buckets_def)

lemma rehash_bucket_moves:
  assumes size: "table_size new_n b" and c: "c < 2 ^ b"
    and inv: "rehash_inv b hash h nf M c" and jn: "unat j < unat (n_buckets h)"
  shows "\<exists>h' nf'. rehash_bucket hash new_n h nf j = Inr (h', nf') \<and> rehash_inv b hash h' nf' M c \<and>
    same_counts h h' \<and> old_live h' \<subseteq> old_live h - {unat j}"
proof -
  have jl: "unat j < 16 * length (kh_flags h)" using jn inv by (simp add: rehash_inv_def)
  show ?thesis
  proof (cases "unat j \<in> old_live h")
    case True
    then have live: "f_live (kh_flags h) (unat j)" by (simp add: live_buckets_def)
    obtain k v f where t: "kh_load (kh_keys h) j = Inr k" "kh_load (kh_vals h) j = Inr v" "M k = Some v"
      "ac_set_isdel_true (kh_flags h) j = Inr f" "rehash_inv b hash (h\<lparr>kh_flags := f\<rparr>) nf (M(k := None)) (c - 1)"
      "old_live (h\<lparr>kh_flags := f\<rparr>) = old_live h - {unat j}" "0 < c"
      using rehash_take [OF inv True] by blast
    have "card (old_live (h\<lparr>kh_flags := f\<rparr>)) < unat (n_buckets h) + 1"
      using old_live_card [of "h\<lparr>kh_flags := f\<rparr>"] by simp
    moreover have "(M(k := None)) k = None" and "c - 1 < 2 ^ b" using c by simp_all
    ultimately obtain h' nf' where k: "kick_out hash new_n (unat (n_buckets h) + 1) (h\<lparr>kh_flags := f\<rparr>) nf k v = Inr (h', nf')"
      "rehash_inv b hash h' nf' (M(k := None, k \<mapsto> v)) (c - 1 + 1)" "same_counts (h\<lparr>kh_flags := f\<rparr>) h'"
      "old_live h' \<subseteq> old_live (h\<lparr>kh_flags := f\<rparr>)"
      using kick_out_places [OF size t(5)] by blast
    have "M(k := None, k \<mapsto> v) = M" using t(3) by auto
    then have "rehash_inv b hash h' nf' M c" using k(2) t(7) by simp
    moreover have "same_counts h h'" using same_counts_data(3) k(3) by (rule same_counts_trans)
    moreover have "rehash_bucket hash new_n h nf j = Inr (h', nf')"
      unfolding rehash_bucket_def using t(1,2,4) k(1) live by (simp add: ac_iseither_in [OF jl] del: kick_out.simps)
    ultimately show ?thesis using k(4) [unfolded t(6)] by blast
  next
    case False
    then have "\<not> f_live (kh_flags h) (unat j)" using jn by (simp add: live_buckets_def)
    then have "rehash_bucket hash new_n h nf j = Inr (h, nf)" by (simp add: rehash_bucket_def ac_iseither_in [OF jl])
    then show ?thesis using inv False by auto
  qed
qed

lemma rehash_loop_moves:
  assumes size: "table_size new_n b" and c: "c < 2 ^ b"
  shows "rehash_inv b hash h nf M c \<Longrightarrow> unat j + m = unat (n_buckets h) \<Longrightarrow> \<forall>i \<in> old_live h. unat j \<le> i \<Longrightarrow>
    \<exists>h' nf'. rehash_loop hash new_n m h nf j = Inr (h', nf') \<and> rehash_inv b hash h' nf' M c \<and>
      old_live h' = {} \<and> same_counts h h'"
proof (induction m arbitrary: h nf j)
  case 0
  then have "old_live h = {}" by (auto simp: live_buckets_def)
  then show ?case using 0 by simp
next
  case (Suc m)
  have jn: "unat j < unat (n_buckets h)" using Suc.prems(2) by simp
  have j1: "unat (j + 1) = Suc (unat j)"
  proof (rule next_step [OF refl])
    have "unat (n_buckets h) < 2 ^ LENGTH(32)" by (rule unsigned_less)
    then show "unat j < 2 ^ 32 - 1" using jn by simp
  qed
  obtain h' nf' where s: "rehash_bucket hash new_n h nf j = Inr (h', nf')" "rehash_inv b hash h' nf' M c"
    "same_counts h h'" "old_live h' \<subseteq> old_live h - {unat j}"
    using rehash_bucket_moves [OF size c Suc.prems(1) jn] by blast
  have "unat (j + 1) + m = unat (n_buckets h')" using j1 Suc.prems(2) s(3) by (simp add: same_counts_def)
  moreover have "\<forall>i \<in> old_live h'. unat (j + 1) \<le> i"
  proof
    fix i assume "i \<in> old_live h'"
    then have "i \<in> old_live h" "i \<noteq> unat j" using s(4) by auto
    then show "unat (j + 1) \<le> i" using Suc.prems(3) j1 by fastforce
  qed
  ultimately obtain h2 nf2 where r: "rehash_loop hash new_n m h' nf' (j + 1) = Inr (h2, nf2)"
    "rehash_inv b hash h2 nf2 M c" "old_live h2 = {}" "same_counts h' h2"
    using Suc.IH [OF s(2)] by blast
  have "rehash_loop hash new_n (Suc m) h nf j = Inr (h2, nf2)"
    using s(1) r(1) by simp
  then show ?case using r(2,3) same_counts_trans [OF s(3) r(4)] by blast
qed

subsection \<open>The resize\<close>

lemma length_realloc [simp]: "length (realloc_list xs m) = m"
  by (simp add: realloc_list_def)

lemma nth_realloc: "i < length xs \<Longrightarrow> i < m \<Longrightarrow> realloc_list xs m ! i = xs ! i"
  by (simp add: realloc_list_def nth_append)

text \<open>The arrays before and after: any that agree on the buckets of the table are as good.\<close>

definition arrays_agree :: "nat \<Rightarrow> 'a list \<Rightarrow> 'a list \<Rightarrow> bool" where
  "arrays_agree n xs ys \<longleftrightarrow> n \<le> length ys \<and> (\<forall>i < n. ys ! i = xs ! i)"

lemma agree_refl: "n \<le> length xs \<Longrightarrow> arrays_agree n xs xs"
  by (simp add: arrays_agree_def)

lemma agree_realloc: "n \<le> length xs \<Longrightarrow> n \<le> m \<Longrightarrow> arrays_agree n xs (realloc_list xs m)"
  by (simp add: arrays_agree_def nth_realloc)

lemma stored_agree:
  assumes "stored ks vs A M" and "A \<subseteq> {..<n}" and "arrays_agree n ks ks'" and "arrays_agree n vs vs'"
  shows "stored ks' vs' A M"
  using assms by (intro stored_cong [OF assms(1)]) (auto simp: arrays_agree_def)

lemma live_below: "live_buckets flags n \<subseteq> {..<n}" "used_buckets flags n \<subseteq> {..<n}"
  by (auto simp: live_buckets_def used_buckets_def)

lemma kh_table_agree:
  assumes t: "kh_table hash h M b" and "arrays_agree (2 ^ b) (kh_keys h) ks" and "arrays_agree (2 ^ b) (kh_vals h) vs"
  shows "kh_table hash (h\<lparr>kh_keys := ks, kh_vals := vs\<rparr>) M b"
proof -
  have "stored ks vs (live_buckets (kh_flags h) (2 ^ b)) M"
    by (rule stored_agree [OF _ live_below(1) assms(2,3)]) (use t in \<open>simp add: kh_table_def\<close>)
  moreover have "\<forall>i \<in> live_buckets (kh_flags h) (2 ^ b). on_chain b hash (kh_flags h) ks i"
  proof
    fix i assume i: "i \<in> live_buckets (kh_flags h) (2 ^ b)"
    then have "on_chain b hash (kh_flags h) (kh_keys h) i" using t by (simp add: kh_table_def)
    then show "on_chain b hash (kh_flags h) ks i"
      by (rule on_chain_mono) (use i assms(2) in \<open>auto simp: arrays_agree_def live_buckets_def\<close>)
  qed
  ultimately show ?thesis using assms by (simp add: kh_table_def arrays_agree_def)
qed

lemma same_vals: "h\<lparr>kh_keys := a, kh_vals := kh_vals h\<rparr> = h\<lparr>kh_keys := a\<rparr>"
  by (cases h) simp

lemma kh_rep_grown_keys:
  assumes r: "kh_rep hash h M" and less: "n_buckets h < new_n"
  shows "kh_rep hash (h\<lparr>kh_keys := realloc_list (kh_keys h) (unat new_n)\<rparr>) M"
proof -
  have "kh_table hash (h\<lparr>kh_keys := realloc_list (kh_keys h) (unat new_n)\<rparr>) M b" if t: "kh_table hash h M b" for b
  proof -
    have "arrays_agree (2 ^ b) (kh_keys h) (realloc_list (kh_keys h) (unat new_n))" "arrays_agree (2 ^ b) (kh_vals h) (kh_vals h)"
      using t less by (auto simp: kh_table_def table_size_def word_less_nat_alt intro!: agree_realloc agree_refl)
    from kh_table_agree [OF t this] show ?thesis by (simp add: same_vals)
  qed
  then show ?thesis using r by (auto simp: kh_rep_def kh_unused_def)
qed

lemma used_fresh: "n \<le> 16 * length (fresh_flags m) \<Longrightarrow> used_buckets (fresh_flags m) n = {}"
  using fresh_flags_empty by (fastforce simp: used_buckets_def)

definition grow :: "khint \<Rightarrow> khint \<Rightarrow> 'a option list \<Rightarrow> 'a option list" where
  "grow n new_n xs = (if n < new_n then realloc_list xs (unat new_n) else xs)"

lemma length_grow: "unat n \<le> length xs \<Longrightarrow> unat new_n \<le> length (grow n new_n xs)"
  by (auto simp: grow_def word_less_nat_alt)

lemma rehash_start:
  assumes r: "kh_rep hash h M" and size: "table_size new_n b"
  shows "rehash_inv b hash (h\<lparr>kh_keys := grow (n_buckets h) new_n (kh_keys h), kh_vals := grow (n_buckets h) new_n (kh_vals h)\<rparr>)
    (fresh_flags new_n) M (unat (kh_size h))"
proof -
  note fresh = length_fresh_flags [OF size]
  have del: "\<forall>i < 2 ^ b. \<not> f_del (fresh_flags new_n) i"
    using fresh fresh_flags_del by auto
  have N: "unat new_n = 2 ^ b" "0 < new_n" using size by (auto simp: table_size_def word_greater_zero_iff)
  from r consider "kh_unused h" "M = Map.empty" | c where "kh_table hash h M c" by (auto simp: kh_rep_def)
  then show ?thesis
  proof cases
    case 1
    then show ?thesis
      using fresh N del
      by (simp add: rehash_inv_def kh_unused_def used_fresh stored_empty live_buckets_def grow_def)
  next
    case (2 c)
    note t = this
    then have n: "unat (n_buckets h) = 2 ^ c" by (simp add: kh_table_def table_size_def)
    have ag: "arrays_agree (2 ^ c) (kh_keys h) (grow (n_buckets h) new_n (kh_keys h))"
      "arrays_agree (2 ^ c) (kh_vals h) (grow (n_buckets h) new_n (kh_vals h))"
      using t n by (auto simp: grow_def kh_table_def word_less_nat_alt intro: agree_refl agree_realloc)
    have len: "2 ^ b \<le> length (grow (n_buckets h) new_n (kh_keys h))" "2 ^ b \<le> length (grow (n_buckets h) new_n (kh_vals h))"
      unfolding N(1) [symmetric] using t n by (auto simp: kh_table_def intro!: length_grow)
    have "stored (grow (n_buckets h) new_n (kh_keys h)) (grow (n_buckets h) new_n (kh_vals h)) (old_live h) M"
      using t live_below(1) unfolding n
      by (intro stored_agree [OF _ _ ag]) (auto simp: kh_table_def)
    then show ?thesis
      using t fresh del n len by (simp add: rehash_inv_def used_fresh kh_table_def)
  qed
qed

lemma rehash_end:
  assumes inv: "rehash_inv b hash h nf M (unat (kh_size h))" and moved: "old_live h = {}" and size: "table_size new_n b"
    and room: "kh_size h < hash_upper new_n"
    and ks: "arrays_agree (2 ^ b) (kh_keys h) ks" and vs: "arrays_agree (2 ^ b) (kh_vals h) vs"
  shows "kh_table hash (h\<lparr>kh_keys := ks, kh_vals := vs, kh_flags := nf, n_buckets := new_n, n_occupied := kh_size h,
    upper_bound := hash_upper new_n\<rparr>) M b"
proof -
  have live: "live_buckets nf (2 ^ b) = used_buckets nf (2 ^ b)"
    using inv by (auto simp: rehash_inv_def live_buckets_def used_buckets_def f_live_def)
  have "stored ks vs (used_buckets nf (2 ^ b)) M"
    using inv moved live_below(2) ks vs by (intro stored_agree [OF _ _ ks vs]) (auto simp: rehash_inv_def)
  moreover have "\<forall>i \<in> used_buckets nf (2 ^ b). on_chain b hash nf ks i"
  proof
    fix i assume i: "i \<in> used_buckets nf (2 ^ b)"
    then have "on_chain b hash nf (kh_keys h) i" using inv by (simp add: rehash_inv_def)
    then show "on_chain b hash nf ks i"
      by (rule on_chain_mono) (use i ks in \<open>auto simp: arrays_agree_def used_buckets_def\<close>)
  qed
  ultimately show ?thesis
    using inv moved size room ks vs by (simp add: kh_table_def rehash_inv_def live arrays_agree_def)
qed

definition enough_memory :: "kh_memory \<Rightarrow> bool" where
  "enough_memory mem \<longleftrightarrow> mem_flags mem \<and> mem_keys mem \<and> mem_vals mem"

lemma grown_arrays:
  "(let h1 = (if n_buckets h < new_n then h\<lparr>kh_keys := realloc_list (kh_keys h) (unat new_n)\<rparr> else h) in
      if n_buckets h < new_n then h1\<lparr>kh_vals := realloc_list (kh_vals h1) (unat new_n)\<rparr> else h1) =
    h\<lparr>kh_keys := grow (n_buckets h) new_n (kh_keys h), kh_vals := grow (n_buckets h) new_n (kh_vals h)\<rparr>"
  by (cases h) (simp add: grow_def)

definition shrink :: "khint \<Rightarrow> khint \<Rightarrow> 'a option list \<Rightarrow> 'a option list" where
  "shrink n new_n xs = (if n > new_n then realloc_list xs (unat new_n) else xs)"

lemma shrunk_arrays:
  "(let h4 = (if n_buckets h > new_n
              then h\<lparr>kh_keys := realloc_list (kh_keys h) (unat new_n), kh_vals := realloc_list (kh_vals h) (unat new_n)\<rparr>
              else h) in
      h4\<lparr>kh_flags := nf, n_buckets := new_n, n_occupied := kh_size h4, upper_bound := u\<rparr>) =
    h\<lparr>kh_keys := shrink (n_buckets h) new_n (kh_keys h), kh_vals := shrink (n_buckets h) new_n (kh_vals h),
      kh_flags := nf, n_buckets := new_n, n_occupied := kh_size h, upper_bound := u\<rparr>"
  by (cases h) (simp add: shrink_def)

lemma agree_shrink: "unat new_n \<le> length xs \<Longrightarrow> arrays_agree (unat new_n) xs (shrink n new_n xs)"
  by (auto simp: shrink_def intro: agree_realloc agree_refl)

text \<open>A resize with its memory, to a size that has room for the entries.\<close>

lemma rehash_whole:
  assumes r: "kh_rep hash h M" and size: "table_size new_n b" and room: "kh_size h < hash_upper new_n"
  defines "h2 \<equiv> h\<lparr>kh_keys := grow (n_buckets h) new_n (kh_keys h), kh_vals := grow (n_buckets h) new_n (kh_vals h)\<rparr>"
  shows "\<exists>h3 nf. rehash_loop hash new_n (unat (n_buckets h)) h2 (fresh_flags new_n) 0 = Inr (h3, nf) \<and> same_counts h h3 \<and>
    kh_table hash (h3\<lparr>kh_keys := shrink (n_buckets h3) new_n (kh_keys h3), kh_vals := shrink (n_buckets h3) new_n (kh_vals h3),
      kh_flags := nf, n_buckets := new_n, n_occupied := kh_size h3, upper_bound := hash_upper new_n\<rparr>) M b"
proof -
  have N: "unat new_n = 2 ^ b" using size by (simp add: table_size_def)
  have c: "unat (kh_size h) < 2 ^ b"
    using room hash_upper_less [OF size] by (simp add: word_less_nat_alt)
  have inv: "rehash_inv b hash h2 (fresh_flags new_n) M (unat (kh_size h))"
    unfolding h2_def by (rule rehash_start [OF r size])
  have "unat (0 :: khint) + unat (n_buckets h) = unat (n_buckets h2)" by (simp add: h2_def)
  then obtain h3 nf where l: "rehash_loop hash new_n (unat (n_buckets h)) h2 (fresh_flags new_n) 0 = Inr (h3, nf)"
    "rehash_inv b hash h3 nf M (unat (kh_size h))" "old_live h3 = {}" "same_counts h2 h3"
    using rehash_loop_moves [OF size c inv] by fastforce
  have counts: "same_counts h h3" using l(4) by (simp add: same_counts_def h2_def)
  then have sz: "kh_size h3 = kh_size h" by (simp add: same_counts_def)
  have "arrays_agree (2 ^ b) (kh_keys h3) (shrink (n_buckets h3) new_n (kh_keys h3))"
    "arrays_agree (2 ^ b) (kh_vals h3) (shrink (n_buckets h3) new_n (kh_vals h3))"
    using l(2) N agree_shrink [of new_n "kh_keys h3"] agree_shrink [of new_n "kh_vals h3"] by (simp_all add: rehash_inv_def)
  from rehash_end [OF l(2) [folded sz] l(3) size _ this] have
    "kh_table hash (h3\<lparr>kh_keys := shrink (n_buckets h3) new_n (kh_keys h3), kh_vals := shrink (n_buckets h3) new_n (kh_vals h3),
      kh_flags := nf, n_buckets := new_n, n_occupied := kh_size h3, upper_bound := hash_upper new_n\<rparr>) M b"
    using room sz by simp
  then show ?thesis using l(1) counts by blast
qed

lemma resize_to_rep:
  assumes r: "kh_rep hash h M" and size: "table_size new_n b"
  shows "\<exists>r h'. resize_to mem hash h new_n = Inr (r, h') \<and> kh_rep hash h' M \<and> kh_size h' = kh_size h \<and>
    (r = 0 \<or> r = -1 \<and> \<not> enough_memory mem \<and> n_buckets h' = n_buckets h) \<and>
    (r = 0 \<and> kh_size h < hash_upper new_n \<longrightarrow> (\<exists>b. kh_table hash h' M b) \<and> n_occupied h' < upper_bound h')"
proof (cases "kh_size h < hash_upper new_n")
  case False
  then have "hash_upper new_n \<le> kh_size h" by simp
  then have "resize_to mem hash h new_n = Inr (0, h)" by (simp add: resize_to_def)
  then show ?thesis using r False by simp
next
  case True
  let ?grows = "n_buckets h < new_n"
  consider "\<not> mem_flags mem \<or> ?grows \<and> \<not> mem_keys mem" | "mem_flags mem" "mem_keys mem" "?grows" "\<not> mem_vals mem"
    | "mem_flags mem" "?grows \<longrightarrow> mem_keys mem \<and> mem_vals mem" by blast
  then show ?thesis
  proof cases
    case 1
    then have "resize_to mem hash h new_n = Inr (-1, h)" using True by (auto simp: resize_to_def Let_def)
    then show ?thesis using r 1 by (auto simp: enough_memory_def)
  next
    case 2
    then have "resize_to mem hash h new_n = Inr (-1, h\<lparr>kh_keys := realloc_list (kh_keys h) (unat new_n)\<rparr>)"
      using True by (auto simp: resize_to_def Let_def)
    then show ?thesis using kh_rep_grown_keys [OF r 2(3)] 2(4) by (simp add: enough_memory_def)
  next
    case 3
    let ?h2 = "h\<lparr>kh_keys := grow (n_buckets h) new_n (kh_keys h), kh_vals := grow (n_buckets h) new_n (kh_vals h)\<rparr>"
    obtain h3 nf where w: "rehash_loop hash new_n (unat (n_buckets h)) ?h2 (fresh_flags new_n) 0 = Inr (h3, nf)"
      "same_counts h h3"
      "kh_table hash (h3\<lparr>kh_keys := shrink (n_buckets h3) new_n (kh_keys h3), kh_vals := shrink (n_buckets h3) new_n (kh_vals h3),
        kh_flags := nf, n_buckets := new_n, n_occupied := kh_size h3, upper_bound := hash_upper new_n\<rparr>) M b"
      using rehash_whole [OF r size True] by blast
    let ?h' = "h3\<lparr>kh_keys := shrink (n_buckets h3) new_n (kh_keys h3), kh_vals := shrink (n_buckets h3) new_n (kh_vals h3),
        kh_flags := nf, n_buckets := new_n, n_occupied := kh_size h3, upper_bound := hash_upper new_n\<rparr>"
    have "resize_to mem hash h new_n = Inr (0, ?h')"
      using True 3 w(1) grown_arrays [where h = h and new_n = new_n] shrunk_arrays [where h = h3 and new_n = new_n and nf = nf and u = "hash_upper new_n"]
      unfolding resize_to_def Let_def by (simp add: not_le)
    moreover have "kh_size h3 = kh_size h" using w(2) by (simp add: same_counts_def)
    ultimately show ?thesis using w(3) True by (auto simp: kh_rep_def)
  qed
qed

subsection \<open>Clearing a table\<close>

lemma kh_clear_rep:
  assumes "kh_rep hash h M"
  shows "kh_rep hash (kh_clear h) Map.empty"
proof -
  from assms consider "kh_unused h" | b where "kh_table hash h M b" by (auto simp: kh_rep_def)
  then show ?thesis
  proof cases
    case 1
    then show ?thesis by (simp add: kh_clear_def kh_unused_def kh_rep_def)
  next
    case (2 b)
    then have size: "table_size (n_buckets h) b" and "2 ^ b \<le> 16 * length (kh_flags h)" by (simp_all add: kh_table_def)
    moreover note fresh = length_fresh_flags [OF size]
    moreover have "live_buckets (fresh_flags (n_buckets h)) (2 ^ b) = {}"
      using used_fresh [OF fresh] live_used by blast
    ultimately have "kh_flags h \<noteq> []" "kh_table hash (kh_clear h) Map.empty b"
      using 2 by (auto simp: kh_clear_def kh_table_def used_fresh stored_empty)
    then show ?thesis by (auto simp: kh_rep_def)
  qed
qed

end
