(* ===== verification/Khash_Map.thy ===== *)
theory Khash_Map
  imports Khash_Resize
begin

text \<open>
  Insertion with its resizing, and the interface of a hash table to its clients: a locale of the operations
  and their laws over finite maps, interpreted on the table of \<^verbatim>\<open>khash.h\<close>.
\<close>

subsection \<open>Insertion\<close>

text \<open>The five shifts of \<open>kroundup32\<close> spread the highest bit to all below it.\<close>

lemma exists_below_double: "(\<exists>d < k. P d) \<or> (\<exists>d < k. P (k + d)) \<longleftrightarrow> (\<exists>d < 2 * k. P (d :: nat))"
proof
  assume "\<exists>d < 2 * k. P d"
  then obtain d where d: "d < 2 * k" "P d" by blast
  show "(\<exists>d < k. P d) \<or> (\<exists>d < k. P (k + d))"
  proof (cases "d < k")
    case False
    then have "d - k < k" "P (k + (d - k))" using d by simp_all
    then show ?thesis by blast
  qed (use d in blast)
next
  assume "(\<exists>d < k. P d) \<or> (\<exists>d < k. P (k + d))"
  then show "\<exists>d < 2 * k. P d"
  proof (elim disjE exE conjE)
    fix d assume "d < k" "P d"
    then show ?thesis by (intro exI [of _ d]) simp
  next
    fix d assume "d < k" "P (k + d)"
    then show ?thesis by (intro exI [of _ "k + d"]) simp
  qed
qed

lemma smear_step:
  assumes "\<And>n. bit y n \<longleftrightarrow> (\<exists>d < k. bit (x :: khint) (n + d))"
  shows "bit (y OR drop_bit k y) n \<longleftrightarrow> (\<exists>d < 2 * k. bit x (n + d))"
proof -
  have "bit (y OR drop_bit k y) n \<longleftrightarrow> (\<exists>d < k. bit x (n + d)) \<or> (\<exists>d < k. bit x (n + (k + d)))"
    by (simp add: bit_or_iff bit_drop_bit_eq assms add.assoc add.left_commute)
  then show ?thesis by (simp only: exists_below_double [of k "\<lambda>d. bit x (n + d)"])
qed

lemma kroundup32_power:
  assumes low: "2 ^ c \<le> unat (x - 1)" and high: "unat (x - 1) < 2 ^ Suc c" and c: "c \<le> 30"
  shows "kroundup32 x = 2 ^ Suc c"
proof -
  let ?x = "x - 1"
  define x1 where "x1 = ?x OR drop_bit 1 ?x"
  define x2 where "x2 = x1 OR drop_bit 2 x1"
  define x3 where "x3 = x2 OR drop_bit 4 x2"
  define x4 where "x4 = x3 OR drop_bit 8 x3"
  define x5 where "x5 = x4 OR drop_bit 16 x4"
  have b1: "bit x1 n \<longleftrightarrow> (\<exists>d < 2. bit ?x (n + d))" for n
    using smear_step [of ?x 1 ?x n] by (simp add: x1_def)
  have b2: "bit x2 n \<longleftrightarrow> (\<exists>d < 4. bit ?x (n + d))" for n
    using smear_step [of x1 2 ?x n] b1 by (simp add: x2_def)
  have b3: "bit x3 n \<longleftrightarrow> (\<exists>d < 8. bit ?x (n + d))" for n
    using smear_step [of x2 4 ?x n] b2 by (simp add: x3_def)
  have b4: "bit x4 n \<longleftrightarrow> (\<exists>d < 16. bit ?x (n + d))" for n
    using smear_step [of x3 8 ?x n] b3 by (simp add: x4_def)
  have b5: "bit x5 n \<longleftrightarrow> (\<exists>d < 32. bit ?x (n + d))" for n
    using smear_step [of x4 16 ?x n] b4 by (simp add: x5_def)
  have bits: "bit ?x n = bit (unat ?x) n" for n
    by (auto simp: bit_unsigned_iff dest: bit_imp_le_length)
  have top: "bit ?x c"
  proof -
    have "unat ?x div 2 ^ c = 1" using low high by (intro div_nat_eqI) auto
    then show ?thesis unfolding bits by (simp add: bit_iff_odd)
  qed
  have above: "\<not> bit ?x n" if "c < n" for n
  proof -
    have "(2 :: nat) ^ Suc c \<le> 2 ^ n" using that by (intro power_increasing) auto
    then have "unat ?x < 2 ^ n" using high by simp
    then show ?thesis unfolding bits by (simp add: bit_iff_odd)
  qed
  have "x5 = mask (Suc c)"
  proof (rule bit_word_eqI)
    fix n assume "n < LENGTH(32)"
    have "(\<exists>d < 32. bit ?x (n + d)) \<longleftrightarrow> n < Suc c"
    proof
      assume "n < Suc c"
      then have "n + (c - n) = c" "c - n < 32" using c by auto
      then show "\<exists>d < 32. bit ?x (n + d)" using top by metis
    next
      assume "\<exists>d < 32. bit ?x (n + d)"
      then show "n < Suc c" using above by (metis not_less_eq trans_less_add1 leI less_Suc_eq_le)
    qed
    then show "bit x5 n = bit (mask (Suc c) :: khint) n" using b5 \<open>n < LENGTH(32)\<close> by (simp add: bit_mask_iff)
  qed
  moreover have "kroundup32 x = x5 + 1"
    by (simp add: kroundup32_def Let_def x1_def x2_def x3_def x4_def x5_def)
  ultimately show ?thesis by (simp add: mask_eq_exp_minus_1)
qed

lemma size_word: "table_size m b \<Longrightarrow> m = 2 ^ b"
  unfolding table_size_def by (metis of_nat_numeral of_nat_power of_nat_unat ucast_id)

lemma roundup_same:
  assumes m: "table_size m b"
  shows "kroundup32 (m - 1) = m"
proof -
  obtain c where b: "b = Suc c" "1 \<le> c" "c \<le> 30" using m by (cases b) (auto simp: table_size_def)
  have "(2 :: nat) ^ 1 \<le> 2 ^ c" using b(2) by (intro power_increasing) auto
  moreover have "unat (m - 1 - 1) = 2 ^ b - 2"
  proof -
    have "2 \<le> m" using m \<open>2 ^ 1 \<le> 2 ^ c\<close> b(1) by (simp add: table_size_def word_le_nat_alt)
    then have "unat (m - 2) = unat m - 2" by (simp add: unat_sub)
    then show ?thesis using m by (simp add: table_size_def diff_diff_eq)
  qed
  ultimately have "kroundup32 (m - 1) = 2 ^ Suc c" using b by (intro kroundup32_power) simp_all
  then show ?thesis using b(1) size_word [OF m] by simp
qed

lemma roundup_double:
  assumes m: "table_size m b" and b: "b \<le> 30"
  shows "table_size (kroundup32 (m + 1)) (Suc b)"
proof -
  have r: "kroundup32 (m + 1) = 2 ^ Suc b"
    using m b by (intro kroundup32_power) (simp_all add: table_size_def)
  have "(2 :: nat) ^ Suc b < 2 ^ 32" using b by (intro power_strict_increasing) auto
  then have "unat (word_of_nat (2 ^ Suc b) :: khint) = 2 ^ Suc b"
    using b by (subst unsigned_of_nat) (simp add: take_bit_nat_eq_self del: power_Suc)
  moreover have "word_of_nat (2 ^ Suc b) = (2 :: khint) ^ Suc b" by simp
  ultimately have "unat ((2 :: khint) ^ Suc b) = 2 ^ Suc b" by (simp only:)
  then show ?thesis using m b unfolding r table_size_def by simp
qed

lemma table_size_4: "table_size m b \<Longrightarrow> \<not> m < 4"
proof -
  assume m: "table_size m b"
  then have "(2 :: nat) ^ 2 \<le> 2 ^ b" by (intro power_increasing) (auto simp: table_size_def)
  then show ?thesis using m by (simp add: table_size_def word_less_nat_alt)
qed

lemma kh_resize_size: "table_size (kroundup32 req) b \<Longrightarrow> kh_resize mem hash h req = resize_to mem hash h (kroundup32 req)"
  by (simp add: kh_resize_def Let_def table_size_4)

lemma unat_double: "unat (s :: khint) < 2 ^ 29 \<Longrightarrow> unat (push_bit 1 s) = 2 * unat s"
proof -
  assume "unat s < 2 ^ 29"
  moreover have "push_bit 1 s = s * 2" by (simp add: push_bit_eq_mult)
  ultimately show ?thesis by (simp add: unat_word_ariths)
qed

text \<open>The size \<open>kh_put\<close> asks for has room for another entry.\<close>

lemma put_resize:
  assumes r: "kh_rep hash h M" and small: "unat (kh_size h) < 2 ^ 29" and full: "upper_bound h \<le> n_occupied h"
  shows "\<exists>b new_n. table_size new_n b \<and> kh_size h < hash_upper new_n \<and>
    (if n_buckets h > push_bit 1 (kh_size h) then kh_resize mem hash h (n_buckets h - 1)
     else kh_resize mem hash h (n_buckets h + 1)) = resize_to mem hash h new_n"
proof -
  from r consider "kh_unused h" | b where "kh_table hash h M b" by (auto simp: kh_rep_def)
  then show ?thesis
  proof cases
    case 1
    have "table_size 4 2" by (simp add: table_size_def)
    moreover have "kroundup32 1 < 4" "(0 :: khint) < hash_upper 4" by code_simp+
    ultimately show ?thesis
      using 1 by (intro exI [of _ 2] exI [of _ 4]) (simp add: kh_unused_def kh_resize_def)
  next
    case (2 b)
    then have size: "table_size (n_buckets h) b" and n: "unat (n_buckets h) = 2 ^ b" by (simp_all add: kh_table_def table_size_def)
    note up = unat_hash_upper [OF size]
    have le: "unat (kh_size h) \<le> unat (n_occupied h)" "unat (n_occupied h) \<le> unat (hash_upper (n_buckets h))"
      using 2 card_mono [OF finite_buckets(2) live_used] by (simp_all add: kh_table_def word_le_nat_alt)
    have four: "(2 :: nat) ^ 2 \<le> 2 ^ b" using size by (intro power_increasing) (auto simp: table_size_def)
    show ?thesis
    proof (cases "n_buckets h > push_bit 1 (kh_size h)")
      case True
      then have "2 * unat (kh_size h) < 2 ^ b" using n unat_double [OF small] by (simp add: word_less_nat_alt)
      then have "unat (kh_size h) < unat (hash_upper (n_buckets h))" using up four by simp
      then show ?thesis
        using True size roundup_same [OF size] kh_resize_size [of "n_buckets h - 1" b mem hash h]
        by (intro exI [of _ b] exI [of _ "n_buckets h"]) (simp add: word_less_nat_alt)
    next
      case False
      then have "2 ^ b \<le> 2 * unat (kh_size h)" using n unat_double [OF small] by (simp add: word_less_nat_alt)
      then have "(2 :: nat) ^ b < 2 ^ 30" using small by simp
      then have b: "b < 30" by (rule power_less_imp_less_exp [rotated]) simp
      have big: "table_size (kroundup32 (n_buckets h + 1)) (Suc b)" using b by (intro roundup_double size) simp
      have "unat (kh_size h) < unat (hash_upper (kroundup32 (n_buckets h + 1)))"
        using le up unat_hash_upper [OF big] four by simp
      then show ?thesis
        using False big kh_resize_size [OF big]
        by (intro exI [of _ "Suc b"] exI [of _ "kroundup32 (n_buckets h + 1)"]) (simp add: word_less_nat_alt)
    qed
  qed
qed

lemma kh_put_rep:
  assumes r: "kh_rep hash h M" and small: "unat (kh_size h) < 2 ^ 29"
  shows "\<exists>x r h'. kh_put mem hash h k = Inr (x, r, h') \<and>
    (\<not> enough_memory mem \<and> r = -1 \<and> x = n_buckets h' \<and> kh_rep hash h' M \<or>
     0 \<le> r \<and> (r = 0 \<longleftrightarrow> M k \<noteq> None) \<and> place_for hash M k x h' \<and> unat (kh_size h') \<le> unat (kh_size h) + 1)"
proof (cases "upper_bound h \<le> n_occupied h")
  case False
  then have room: "n_occupied h < upper_bound h" by simp
  then obtain b where "kh_table hash h M b" using r by (auto simp: kh_rep_def kh_unused_def)
  from put_here_table [OF this room, of k] show ?thesis using False by (auto simp: kh_put_def)
next
  case True
  let ?resize = "if n_buckets h > push_bit 1 (kh_size h) then kh_resize mem hash h (n_buckets h - 1)
     else kh_resize mem hash h (n_buckets h + 1)"
  obtain b new_n where n: "table_size new_n b" "kh_size h < hash_upper new_n" "?resize = resize_to mem hash h new_n"
    using put_resize [OF r small True] by blast
  obtain c h1 where h1: "resize_to mem hash h new_n = Inr (c, h1)" "kh_rep hash h1 M" "kh_size h1 = kh_size h"
    "c = 0 \<or> c = -1 \<and> \<not> enough_memory mem" "c = 0 \<Longrightarrow> (\<exists>b. kh_table hash h1 M b) \<and> n_occupied h1 < upper_bound h1"
    using resize_to_rep [OF r n(1), of mem] n(2) by blast
  have put: "kh_put mem hash h k = (if c < 0 then Inr (n_buckets h1, -1, h1) else put_here hash h1 k)"
    using True n(3) h1(1) by (simp add: kh_put_def)
  show ?thesis
  proof (cases "c = 0")
    case True
    then obtain b' where "kh_table hash h1 M b'" "n_occupied h1 < upper_bound h1" using h1(5) by blast
    from put_here_table [OF this, of k] show ?thesis using put True h1(3) by auto
  next
    case False
    then show ?thesis using put h1 by auto
  qed
qed

subsection \<open>The interface of a table\<close>

text \<open>
  What the clients of a hash table rely on. \<open>rep h M\<close>: the table \<open>h\<close> holds the map \<open>M\<close>; \<open>place h k x\<close>: \<open>x\<close> is
  the bucket of the key \<open>k\<close>. An insertion promises room while the table has fewer than \<open>cap\<close> entries.
\<close>

locale bucket_table =
  fixes rep :: "'h \<Rightarrow> ('k \<Rightarrow> 'v option) \<Rightarrow> bool" and place :: "'h \<Rightarrow> 'k \<Rightarrow> 'x \<Rightarrow> bool"
    and new_table :: 'h and last_bucket :: "'h \<Rightarrow> 'x" and entries :: "'h \<Rightarrow> nat" and cap :: nat
    and lookup :: "'h \<Rightarrow> 'k \<Rightarrow> 'x res" and value_at :: "'h \<Rightarrow> 'x \<Rightarrow> 'v res"
    and assign :: "'h \<Rightarrow> 'x \<Rightarrow> 'v \<Rightarrow> 'h res" and insert_key :: "'h \<Rightarrow> 'k \<Rightarrow> ('x \<times> int \<times> 'h) res"
    and delete_bucket :: "'h \<Rightarrow> 'x \<Rightarrow> 'h res"
  assumes new: "rep new_table Map.empty" "entries new_table = 0"
    and absent: "rep h M \<Longrightarrow> M k = None \<Longrightarrow> lookup h k = Inr (last_bucket h)"
    and present: "rep h M \<Longrightarrow> M k = Some v \<Longrightarrow>
      \<exists>x. lookup h k = Inr x \<and> x \<noteq> last_bucket h \<and> place h k x \<and> value_at h x = Inr v"
    and assigned: "rep h M \<Longrightarrow> place h k x \<Longrightarrow>
      \<exists>h'. assign h x v = Inr h' \<and> rep h' (M(k \<mapsto> v)) \<and> place h' k x \<and> entries h' = entries h"
    and inserted: "rep h M \<Longrightarrow> entries h < cap \<Longrightarrow>
      \<exists>x r h'. insert_key h k = Inr (x, r, h') \<and> (\<forall>v. \<exists>h''. assign h' x v = Inr h'' \<and> rep h'' (M(k \<mapsto> v)) \<and>
        place h'' k x \<and> entries h'' \<le> entries h + 1)"
    and deleted: "rep h M \<Longrightarrow> place h k x \<Longrightarrow>
      \<exists>h'. delete_bucket h x = Inr h' \<and> rep h' (M(k := None)) \<and> entries h' \<le> entries h \<and>
        (\<forall>v. \<exists>h''. assign h' x v = Inr h'' \<and> rep h'' (M(k := None)) \<and> entries h'' \<le> entries h)"
begin

text \<open>The value of a key, with a default for a key that is not there.\<close>

lemma find_value:
  assumes "rep h M"
  shows "and_then (lookup h k) (\<lambda>x. if x \<noteq> last_bucket h then and_then (value_at h x) f else g) =
    (case M k of None \<Rightarrow> g | Some v \<Rightarrow> f v)"
  using absent [OF assms, of k] present [OF assms, of k] by (cases "M k") auto

text \<open>The bucket of a key, after an insertion with the value \<open>v0\<close> when it was not there.\<close>

lemma find_or_insert:
  assumes "rep h M" and "entries h < cap"
  shows "\<exists>h' x. and_then (lookup h k) (\<lambda>x. if x \<noteq> last_bucket h then and_then (value_at h x) (\<lambda>v. f (h, x, v))
      else and_then (insert_key h k) (\<lambda>(x, r, h). and_then (assign h x v0) (\<lambda>h. f (h, x, v0)))) =
        f (h', x, case M k of None \<Rightarrow> v0 | Some v \<Rightarrow> v) \<and>
    rep h' (M(k \<mapsto> (case M k of None \<Rightarrow> v0 | Some v \<Rightarrow> v))) \<and> place h' k x \<and> entries h' \<le> entries h + 1"
proof (cases "M k")
  case None
  obtain x r h' where i: "insert_key h k = Inr (x, r, h')" "\<forall>v. \<exists>h''. assign h' x v = Inr h'' \<and>
    rep h'' (M(k \<mapsto> v)) \<and> place h'' k x \<and> entries h'' \<le> entries h + 1"
    using inserted [OF assms] by blast
  then obtain h'' where "assign h' x v0 = Inr h''" "rep h'' (M(k \<mapsto> v0))" "place h'' k x" "entries h'' \<le> entries h + 1"
    by blast
  then show ?thesis using absent [OF assms(1) None] i(1) None by auto
next
  case (Some v)
  obtain x where "lookup h k = Inr x" "x \<noteq> last_bucket h" "place h k x" "value_at h x = Inr v"
    using present [OF assms(1) Some] by blast
  moreover have "M(k \<mapsto> v) = M" using Some by auto
  ultimately show ?thesis using assms(1) Some by (intro exI [of _ h] exI [of _ x]) simp
qed

text \<open>Deleting a key: the bucket first, then a null in it, or the null first.\<close>

lemma find_and_delete:
  assumes "rep h M"
  shows "\<exists>h'. and_then (lookup h k) (\<lambda>x. if x \<noteq> last_bucket h
      then and_then (delete_bucket h x) (\<lambda>h. assign h x null) else Inr h) = Inr h' \<and>
    rep h' (M(k := None)) \<and> entries h' \<le> entries h"
proof (cases "M k")
  case None
  moreover have "M(k := None) = M" using None by auto
  ultimately show ?thesis using absent [OF assms None] assms by simp
next
  case (Some v)
  then show ?thesis using present [OF assms Some] deleted [OF assms, of k] by fastforce
qed

lemma null_and_delete:
  assumes "rep h M" and "place h k x"
  shows "\<exists>h'. and_then (assign h x null) (\<lambda>h. delete_bucket h x) = Inr h' \<and> rep h' (M(k := None)) \<and>
    entries h' \<le> entries h"
proof -
  obtain h1 where 1: "assign h x null = Inr h1" "rep h1 (M(k \<mapsto> null))" "place h1 k x" "entries h1 = entries h"
    using assigned [OF assms] by blast
  obtain h2 where "delete_bucket h1 x = Inr h2" "rep h2 ((M(k \<mapsto> null))(k := None))" "entries h2 \<le> entries h1"
    using deleted [OF 1(2,3)] by blast
  moreover have "(M(k \<mapsto> null))(k := None) = M(k := None)" by auto
  ultimately show ?thesis using 1 by simp
qed

end

subsection \<open>The table of khash.h is one\<close>

lemma kh_unused_get: "kh_unused h \<Longrightarrow> kh_get hash h k = Inr (n_buckets h)"
  by (simp add: kh_unused_def kh_get_def)

lemma place_in_table:
  assumes "kh_rep hash h M" and "kh_place h k x"
  obtains b where "kh_table hash h M b" "unat x \<in> live_buckets (kh_flags h) (2 ^ b)" "kh_keys h ! unat x = Some k"
proof -
  have "\<not> kh_unused h" using assms(2) by (auto simp: kh_place_def kh_unused_def)
  then obtain b where "kh_table hash h M b" using assms(1) by (auto simp: kh_rep_def)
  then show ?thesis using assms(2) that by (auto simp: kh_place_def kh_table_def table_size_def live_buckets_def)
qed

lemma kh_get_absent: "kh_rep hash h M \<Longrightarrow> M k = None \<Longrightarrow> kh_get hash h k = Inr (n_buckets h)"
  unfolding kh_rep_def by (elim disjE exE conjE) (auto intro: kh_unused_get kh_get_table(1))

lemma kh_get_present:
  assumes "kh_rep hash h M" and "M k = Some v"
  shows "\<exists>x. kh_get hash h k = Inr x \<and> x \<noteq> n_buckets h \<and> kh_place h k x \<and> kh_val h x = Inr v"
proof -
  obtain b where t: "kh_table hash h M b" using assms by (auto simp: kh_rep_def)
  from kh_get_table(2) [OF this assms(2)] obtain x where x: "kh_get hash h k = Inr x" "x \<noteq> n_buckets h"
    "unat x \<in> live_buckets (kh_flags h) (2 ^ b)" "kh_keys h ! unat x = Some k" "kh_vals h ! unat x = Some v" by blast
  then have "kh_place h k x" "kh_val h x = Inr v"
    using t by (auto simp: kh_place_def kh_table_def table_size_def live_buckets_def kh_val_def intro!: kh_load_in)
  then show ?thesis using x by blast
qed

lemma kh_set_val_place:
  assumes "kh_rep hash h M" and "kh_place h k x"
  shows "\<exists>h'. kh_set_val h x v = Inr h' \<and> kh_rep hash h' (M(k \<mapsto> v)) \<and> kh_place h' k x \<and> kh_size h' = kh_size h"
proof -
  obtain b where t: "kh_table hash h M b" "unat x \<in> live_buckets (kh_flags h) (2 ^ b)" "kh_keys h ! unat x = Some k"
    using place_in_table [OF assms] .
  from kh_set_val_live [OF t] obtain h' where h': "kh_set_val h x v = Inr h'"
    "kh_table hash h' (M(k \<mapsto> v)) b" "kh_flags h' = kh_flags h" "kh_keys h' = kh_keys h"
    "n_buckets h' = n_buckets h" "kh_size h' = kh_size h" by blast
  then have "kh_rep hash h' (M(k \<mapsto> v))" "kh_place h' k x" using assms(2) by (auto simp: kh_rep_def kh_place_def)
  then show ?thesis using h' by blast
qed

lemma kh_del_place:
  assumes "kh_rep hash h M" and "kh_place h k x"
  shows "\<exists>h'. kh_del h x = Inr h' \<and> kh_rep hash h' (M(k := None)) \<and> unat (kh_size h') \<le> unat (kh_size h) \<and>
    (\<forall>v. \<exists>h''. kh_set_val h' x v = Inr h'' \<and> kh_rep hash h'' (M(k := None)) \<and> unat (kh_size h'') \<le> unat (kh_size h))"
proof -
  obtain b where t: "kh_table hash h M b" "unat x \<in> live_buckets (kh_flags h) (2 ^ b)" "kh_keys h ! unat x = Some k"
    using place_in_table [OF assms] .
  obtain h' where h': "kh_del h x = Inr h'" "kh_table hash h' (M(k := None)) b" "\<not> f_live (kh_flags h') (unat x)"
    "unat (kh_size h') \<le> unat (kh_size h)"
    using kh_del_table [OF t] by blast
  have "unat x < 2 ^ b" using t(2) by (simp add: live_buckets_def)
  then have "\<exists>h''. kh_set_val h' x v = Inr h'' \<and> kh_rep hash h'' (M(k := None)) \<and> unat (kh_size h'') \<le> unat (kh_size h)" for v
    using kh_set_val_dead [OF h'(2) _ h'(3), of v] h'(4) unfolding kh_rep_def by force
  then show ?thesis using h' by (auto simp: kh_rep_def)
qed

lemma kh_put_place:
  assumes "kh_rep hash h M" and "unat (kh_size h) < 2 ^ 29" and "enough_memory mem"
  shows "\<exists>x r h'. kh_put mem hash h k = Inr (x, r, h') \<and>
    (\<forall>v. \<exists>h''. kh_set_val h' x v = Inr h'' \<and> kh_rep hash h'' (M(k \<mapsto> v)) \<and> kh_place h'' k x \<and>
      unat (kh_size h'') \<le> unat (kh_size h) + 1)"
proof -
  obtain x r h' where p: "kh_put mem hash h k = Inr (x, r, h')" "place_for hash M k x h'"
    "unat (kh_size h') \<le> unat (kh_size h) + 1"
    using kh_put_rep [OF assms(1,2), of mem k] assms(3) by blast
  then show ?thesis unfolding place_for_def by metis
qed

definition plenty :: kh_memory where
  "plenty = \<lparr>mem_flags = True, mem_keys = True, mem_vals = True\<rparr>"

lemma plenty_iff: "enough_memory mem \<longleftrightarrow> mem = plenty"
  by (cases mem) (auto simp: enough_memory_def plenty_def)

interpretation kt: bucket_table "kh_rep hash" kh_place kh_init n_buckets "\<lambda>h. unat (kh_size h)" "2 ^ 29"
  "kh_get hash" kh_val kh_set_val "kh_put plenty hash" kh_del
proof unfold_locales
  show "kh_rep hash kh_init Map.empty" by (rule kh_init_rep)
  show "unat (kh_size kh_init) = 0" by (simp add: kh_init_def)
next
  fix h :: "('a, 'b) khash" and M k x v
  assume "kh_rep hash h M" and "kh_place h k x"
  from kh_set_val_place [OF this, of v]
  show "\<exists>h'. kh_set_val h x v = Inr h' \<and> kh_rep hash h' (M(k \<mapsto> v)) \<and> kh_place h' k x \<and> unat (kh_size h') = unat (kh_size h)"
    by auto
qed (blast intro: kh_get_absent kh_get_present kh_del_place kh_put_place plenty_iff [THEN iffD2, OF refl])+

end
