(* ===== verification/Khash_Clients.thy ===== *)
theory Khash_Clients
  imports Khash_Map Latency_Handler Fix_Properties
begin

text \<open>
  The two users of the hash table as they call it, the fragments of \<^verbatim>\<open>src/fix.c\<close> and the latency table of
  \<^verbatim>\<open>src/latency_handler.c\<close>, and the proof that they behave as the models over finite maps of
  \<^verbatim>\<open>Capture_Context\<close> and \<^verbatim>\<open>Latency_Handler\<close> say. The values of both tables are pointers: \<open>None\<close> is NULL.
\<close>

subsection \<open>The fragments\<close>

type_synonym fragment_table = "(ipv4_stream, fragment option) khash"

text \<open>\<open>state\<close> is \<open>None\<close> as long as it is NULL.\<close>

definition table_get_fragment :: "fragment_table option \<Rightarrow> ipv4_stream \<Rightarrow> fragment option res" where
  "table_get_fragment state stream_id =
     (case state of
        None \<Rightarrow> Inr None
      | Some fragment_map \<Rightarrow>
          and_then (kh_get ipv4_stream_hash fragment_map stream_id) (\<lambda>k.
          if k \<noteq> n_buckets fragment_map then kh_val fragment_map k else Inr None))"

definition table_put_fragment ::
    "kh_memory \<Rightarrow> fragment_table option \<Rightarrow> ipv4_stream \<Rightarrow> byte list \<Rightarrow> int \<Rightarrow> fragment_table res" where
  "table_put_fragment mem state stream_id message len =
     (let fragment_map = (case state of None \<Rightarrow> kh_init | Some h \<Rightarrow> h) in
      and_then
        (and_then (kh_get ipv4_stream_hash fragment_map stream_id) (\<lambda>k.
         if k \<noteq> n_buckets fragment_map
         then and_then (kh_val fragment_map k) (\<lambda>fragment. Inr (fragment_map, k, fragment))
         else
           and_then (kh_put mem ipv4_stream_hash fragment_map stream_id) (\<lambda>(k, r, fragment_map).
           and_then (kh_set_val fragment_map k (Some new_fragment)) (\<lambda>fragment_map.
             Inr (fragment_map, k, Some new_fragment)))))
        (\<lambda>(fragment_map, k, fragment).
         case fragment of
           None \<Rightarrow> Inl OutOfBounds
         | Some f \<Rightarrow>
             and_then (fragment_store f 0 message (int_to_size len)) (\<lambda>f'.
             kh_set_val fragment_map k (Some (f'\<lparr>frag_len := len\<rparr>)))))"

definition table_remove_fragment :: "fragment_table option \<Rightarrow> ipv4_stream \<Rightarrow> fragment_table option res" where
  "table_remove_fragment state stream_id =
     (case state of
        None \<Rightarrow> Inr None
      | Some fragment_map \<Rightarrow>
          and_then
            (and_then (kh_get ipv4_stream_hash fragment_map stream_id) (\<lambda>k.
             if k \<noteq> n_buckets fragment_map
             then and_then (kh_del fragment_map k) (\<lambda>fragment_map. kh_set_val fragment_map k None)
             else Inr fragment_map))
            (\<lambda>fragment_map. Inr (Some fragment_map)))"

definition state_rel :: "fragment_table option \<Rightarrow> (ipv4_stream \<Rightarrow> fragment option) option \<Rightarrow> bool" where
  "state_rel state fragments =
     (case (state, fragments) of
        (None, None) \<Rightarrow> True
      | (Some h, Some M) \<Rightarrow> kh_rep ipv4_stream_hash h (\<lambda>s. map_option Some (M s))
      | _ \<Rightarrow> False)"

definition state_size :: "fragment_table option \<Rightarrow> nat" where
  "state_size state = (case state of None \<Rightarrow> 0 | Some h \<Rightarrow> unat (kh_size h))"

lemma state_relE:
  assumes "state_rel state fragments"
  obtains "state = None" "fragments = None"
  | h M where "state = Some h" "fragments = Some M" "kh_rep ipv4_stream_hash h (\<lambda>s. map_option Some (M s))"
  using assms by (auto simp: state_rel_def split: option.splits)

lemma and_then_return: "and_then m Inr = m"
  by (cases m) simp_all

lemma table_get_correct: "state_rel state (ctx_state ctx) \<Longrightarrow> table_get_fragment state s = Inr (get_fragment ctx s)"
proof (erule state_relE)
  fix h M assume s: "state = Some h" "ctx_state ctx = Some M" "kh_rep ipv4_stream_hash h (\<lambda>s. map_option Some (M s))"
  show ?thesis
    using kt.find_value [OF s(3), of s Inr "Inr None"] s(1,2) unfolding and_then_return
    by (cases "M s") (simp_all add: table_get_fragment_def get_fragment_def)
qed (simp add: table_get_fragment_def get_fragment_def)

lemma wrapped_update: "(\<lambda>s. map_option Some (M s))(k \<mapsto> Some v) = (\<lambda>s. map_option Some ((M(k \<mapsto> v)) s))"
    "(\<lambda>s. map_option Some (M s))(k := None) = (\<lambda>s. map_option Some ((M(k := None)) s))"
  by auto

lemma table_remove_correct:
  assumes "state_rel state (ctx_state ctx)"
  shows "\<exists>state'. table_remove_fragment state s = Inr state' \<and> state_rel state' (ctx_state (remove_fragment ctx s)) \<and>
    state_size state' \<le> state_size state"
  using assms
proof (cases rule: state_relE)
  case 1
  then show ?thesis using assms by (simp add: table_remove_fragment_def remove_fragment_def)
next
  case (2 h M)
  obtain h' where "and_then (kh_get ipv4_stream_hash h s) (\<lambda>k. if k \<noteq> n_buckets h
      then and_then (kh_del h k) (\<lambda>h. kh_set_val h k None) else Inr h) = Inr h'"
    "kh_rep ipv4_stream_hash h' (\<lambda>s'. map_option Some ((M(s := None)) s'))" "unat (kh_size h') \<le> unat (kh_size h)"
    using kt.find_and_delete [OF 2(3), of s None] unfolding wrapped_update by blast
  moreover have "ctx_state (remove_fragment ctx s) = Some (M(s := None))"
    using 2(2) by (auto simp: remove_fragment_def)
  ultimately show ?thesis using 2(1)
    by (auto simp: table_remove_fragment_def state_rel_def state_size_def)
qed

lemma table_put_correct:
  assumes "state_rel state (ctx_state ctx)" and "state_size state < 2 ^ 29"
  shows "case put_fragment ctx s m n of
      Inl e \<Rightarrow> table_put_fragment plenty state s m n = Inl e
    | Inr ctx' \<Rightarrow> \<exists>h'. table_put_fragment plenty state s m n = Inr h' \<and> state_rel (Some h') (ctx_state ctx') \<and>
        state_size (Some h') \<le> state_size state + 1"
proof -
  define h where "h = (case state of None \<Rightarrow> kh_init | Some h \<Rightarrow> h)"
  define M where "M = (case ctx_state ctx of None \<Rightarrow> Map.empty | Some m \<Rightarrow> m)"
  define f where "f = (case M s of None \<Rightarrow> new_fragment | Some f \<Rightarrow> f)"
  have rep: "kh_rep ipv4_stream_hash h (\<lambda>s. map_option Some (M s))" and size: "unat (kh_size h) = state_size state"
    using assms(1) kt.new by (auto simp: h_def M_def state_size_def elim!: state_relE)
  have val_eq: "(case map_option Some (M s) of None \<Rightarrow> Some new_fragment | Some v \<Rightarrow> v) = Some f"
    by (simp add: f_def split: option.split)
  obtain h1 x where up: "kh_rep ipv4_stream_hash h1 (\<lambda>s'. map_option Some ((M(s \<mapsto> f)) s'))" "kh_place h1 s x"
    "unat (kh_size h1) \<le> unat (kh_size h) + 1"
    "and_then (kh_get ipv4_stream_hash h s) (\<lambda>k. if k \<noteq> n_buckets h
         then and_then (kh_val h k) (\<lambda>fragment. Inr (h, k, fragment))
         else
           and_then (kh_put plenty ipv4_stream_hash h s) (\<lambda>(k, r, h).
           and_then (kh_set_val h k (Some new_fragment)) (\<lambda>h. Inr (h, k, Some new_fragment)))) = Inr (h1, x, Some f)"
    using kt.find_or_insert [OF rep, of s Inr "Some new_fragment"] assms(2) size
    unfolding val_eq wrapped_update by auto
  have put: "put_fragment ctx s m n = and_then (fragment_store f 0 m (int_to_size n))
      (\<lambda>f'. Inr (ctx\<lparr>ctx_state := Some (M(s \<mapsto> f'\<lparr>frag_len := n\<rparr>))\<rparr>))"
    by (simp add: put_fragment_def M_def f_def Let_def)
  have tput: "table_put_fragment plenty state s m n = and_then (fragment_store f 0 m (int_to_size n))
      (\<lambda>f'. kh_set_val h1 x (Some (f'\<lparr>frag_len := n\<rparr>)))"
    unfolding table_put_fragment_def h_def [symmetric] Let_def up(4) by simp
  show ?thesis
  proof (cases "fragment_store f 0 m (int_to_size n)")
    case (Inl e)
    then show ?thesis by (simp add: put tput)
  next
    case (Inr f')
    obtain h2 where "kh_set_val h1 x (Some (f'\<lparr>frag_len := n\<rparr>)) = Inr h2"
      "kh_rep ipv4_stream_hash h2 (\<lambda>s'. map_option Some ((M(s \<mapsto> f, s \<mapsto> f'\<lparr>frag_len := n\<rparr>)) s'))"
      "unat (kh_size h2) = unat (kh_size h1)"
      using kt.assigned [OF up(1,2), of "Some (f'\<lparr>frag_len := n\<rparr>)"] unfolding wrapped_update by blast
    moreover have "M(s \<mapsto> f, s \<mapsto> f'\<lparr>frag_len := n\<rparr>) = M(s \<mapsto> f'\<lparr>frag_len := n\<rparr>)" by simp
    ultimately show ?thesis using up(3) size Inr by (simp only: put tput and_then_Inr sum.case) (simp del: fun_upd_apply add: state_rel_def state_size_def)
  qed
qed

subsection \<open>Histories of fragment operations\<close>

datatype fragment_op =
    GetFragment ipv4_stream
  | PutFragment ipv4_stream "byte list" int
  | RemoveFragment ipv4_stream

text \<open>The results of the lookups of a history, on the hash table and on the finite map.\<close>

fun run_table :: "kh_memory \<Rightarrow> fragment_table option \<Rightarrow> fragment_op list \<Rightarrow> fragment option list res" where
  "run_table mem state [] = Inr []"
| "run_table mem state (GetFragment s # ops) =
     and_then (table_get_fragment state s) (\<lambda>f. and_then (run_table mem state ops) (\<lambda>fs. Inr (f # fs)))"
| "run_table mem state (PutFragment s m n # ops) =
     and_then (table_put_fragment mem state s m n) (\<lambda>h. run_table mem (Some h) ops)"
| "run_table mem state (RemoveFragment s # ops) =
     and_then (table_remove_fragment state s) (\<lambda>state'. run_table mem state' ops)"

fun run_context :: "vmars_capture_context \<Rightarrow> fragment_op list \<Rightarrow> fragment option list res" where
  "run_context ctx [] = Inr []"
| "run_context ctx (GetFragment s # ops) = and_then (run_context ctx ops) (\<lambda>fs. Inr (get_fragment ctx s # fs))"
| "run_context ctx (PutFragment s m n # ops) = and_then (put_fragment ctx s m n) (\<lambda>ctx'. run_context ctx' ops)"
| "run_context ctx (RemoveFragment s # ops) = run_context (remove_fragment ctx s) ops"

lemma run_table_context:
  "state_rel state (ctx_state ctx) \<Longrightarrow> state_size state + length ops \<le> 2 ^ 29 \<Longrightarrow>
    run_table plenty state ops = run_context ctx ops"
proof (induction ops arbitrary: state ctx)
  case Nil
  then show ?case by simp
next
  case (Cons op ops)
  have room: "state_size state < 2 ^ 29" using Cons.prems(2) by simp
  show ?case
  proof (cases op)
    case (GetFragment s)
    then show ?thesis using Cons by (simp add: table_get_correct)
  next
    case (PutFragment s m n)
    then show ?thesis
      using table_put_correct [OF Cons.prems(1) room, of s m n] Cons.IH Cons.prems(2)
      by (cases "put_fragment ctx s m n") fastforce+
  next
    case (RemoveFragment s)
    then show ?thesis
      using table_remove_correct [OF Cons.prems(1), of s] Cons.IH Cons.prems(2) by fastforce
  qed
qed

subsection \<open>The latency table\<close>

type_synonym latency_khash = "(byte list, latency_record option) khash"

definition table_calculate_latency ::
    "kh_memory \<Rightarrow> ('h \<Rightarrow> int \<Rightarrow> 'h) \<Rightarrow> latency_khash \<times> 'h \<Rightarrow> fix_message_summary \<Rightarrow> (latency_khash \<times> 'h) res" where
  "table_calculate_latency mem record_value st msg =
     (let (latency_table, histogram) = st in
      and_then (c_string (sm_key msg)) (\<lambda>msg_key.
      and_then (kh_get ac_X31_hash_string latency_table msg_key) (\<lambda>k.
      if k \<noteq> n_buckets latency_table then
        and_then (kh_val latency_table k) (\<lambda>latency_record.
        case latency_record of
          None \<Rightarrow> Inr st
        | Some r \<Rightarrow>
            if is_complement (sm_msg_type msg) (lr_msg_type r) then
              and_then
                (if is_begin (sm_msg_type msg)
                 then diff (sm_tv_sec msg) (sm_tv_nsec msg) (lr_tv_sec r) (lr_tv_nsec r)
                 else diff (lr_tv_sec r) (lr_tv_nsec r) (sm_tv_sec msg) (sm_tv_nsec msg)) (\<lambda>latency_nsec.
              and_then (and_then (kh_set_val latency_table k None) (\<lambda>latency_table. kh_del latency_table k)) (\<lambda>latency_table.
                Inr (latency_table, record_value histogram latency_nsec)))
            else Inr st)
      else
        and_then (copy_key msg) (\<lambda>record_key.
        and_then (kh_put mem ac_X31_hash_string latency_table record_key) (\<lambda>(k, ret, latency_table).
        and_then
          (kh_set_val latency_table k
             (Some \<lparr>lr_msg_type = sm_msg_type msg, lr_tv_sec = sm_tv_sec msg, lr_tv_nsec = sm_tv_nsec msg\<rparr>))
          (\<lambda>latency_table. Inr (latency_table, histogram)))))))"

definition latency_rel :: "latency_khash \<Rightarrow> latency_table \<Rightarrow> bool" where
  "latency_rel h M \<longleftrightarrow> kh_rep ac_X31_hash_string h (\<lambda>s. map_option Some (M s))"

lemma table_latency_correct:
  assumes "latency_rel h M" and "unat (kh_size h) < 2 ^ 29"
  shows "case calculate_latency f (M, a) msg of
      Inl e \<Rightarrow> table_calculate_latency plenty f (h, a) msg = Inl e
    | Inr (M', a') \<Rightarrow> \<exists>h'. table_calculate_latency plenty f (h, a) msg = Inr (h', a') \<and> latency_rel h' M' \<and>
        unat (kh_size h') \<le> unat (kh_size h) + 1"
proof (cases "c_string (sm_key msg)")
  case (Inl e)
  then show ?thesis by (simp add: calculate_latency_def table_calculate_latency_def)
next
  case (Inr k)
  note rep = assms(1) [unfolded latency_rel_def]
  show ?thesis
  proof (cases "M k")
    case None
    let ?r = "\<lparr>lr_msg_type = sm_msg_type msg, lr_tv_sec = sm_tv_sec msg, lr_tv_nsec = sm_tv_nsec msg\<rparr>"
    have get: "kh_get ac_X31_hash_string h k = Inr (n_buckets h)" using kt.absent [OF rep, of k] None by simp
    show ?thesis
    proof (cases "copy_key msg")
      case Inl
      then show ?thesis using Inr None get by (simp add: calculate_latency_def table_calculate_latency_def)
    next
      case key: (Inr key)
      obtain x ret h' h'' where "kh_put plenty ac_X31_hash_string h key = Inr (x, ret, h')"
        "kh_set_val h' x (Some ?r) = Inr h''" "latency_rel h'' (M(key \<mapsto> ?r))" "unat (kh_size h'') \<le> unat (kh_size h) + 1"
        using kt.inserted [OF rep assms(2), of key] unfolding latency_rel_def wrapped_update [symmetric] by blast
      then show ?thesis
        using Inr None get key
        by (simp add: calculate_latency_def table_calculate_latency_def del: fun_upd_apply)
    qed
  next
    case (Some r)
    obtain x where get: "kh_get ac_X31_hash_string h k = Inr x" "x \<noteq> n_buckets h" "kh_place h k x" "kh_val h x = Inr (Some r)"
      using kt.present [OF rep, of k "Some r"] Some by auto
    obtain h' where h': "and_then (kh_set_val h x None) (\<lambda>h. kh_del h x) = Inr h'" "latency_rel h' (M(k := None))"
      "unat (kh_size h') \<le> unat (kh_size h)"
      using kt.null_and_delete [OF rep get(3), of None] unfolding latency_rel_def wrapped_update by blast
    let ?d = "if is_begin (sm_msg_type msg)
                 then diff (sm_tv_sec msg) (sm_tv_nsec msg) (lr_tv_sec r) (lr_tv_nsec r)
                 else diff (lr_tv_sec r) (lr_tv_nsec r) (sm_tv_sec msg) (sm_tv_nsec msg)"
    have map: "calculate_latency f (M, a) msg = (if is_complement (sm_msg_type msg) (lr_msg_type r)
        then and_then ?d (\<lambda>l. Inr (M(k := None), f a l)) else Inr (M, a))"
      using Inr Some by (simp add: calculate_latency_def del: fun_upd_apply)
    have tab: "table_calculate_latency plenty f (h, a) msg = (if is_complement (sm_msg_type msg) (lr_msg_type r)
        then and_then ?d (\<lambda>l. Inr (h', f a l)) else Inr (h, a))"
      using Inr get h'(1) by (simp add: table_calculate_latency_def)
    show ?thesis
    proof (cases ?d)
      case Inl
      then show ?thesis unfolding map tab using assms(1) by simp
    next
      case (Inr l)
      then show ?thesis unfolding map tab using assms(1) h'(2,3) by (simp del: fun_upd_apply)
    qed
  qed
qed

text \<open>The histogram after a list of messages, with the hash table and with the finite map.\<close>

fun run_latency_table ::
    "kh_memory \<Rightarrow> ('h \<Rightarrow> int \<Rightarrow> 'h) \<Rightarrow> latency_khash \<times> 'h \<Rightarrow> fix_message_summary list \<Rightarrow> 'h res" where
  "run_latency_table mem f st [] = Inr (snd st)"
| "run_latency_table mem f st (msg # msgs) =
     and_then (table_calculate_latency mem f st msg) (\<lambda>st'. run_latency_table mem f st' msgs)"

fun run_latency_map ::
    "('h \<Rightarrow> int \<Rightarrow> 'h) \<Rightarrow> latency_table \<times> 'h \<Rightarrow> fix_message_summary list \<Rightarrow> 'h res" where
  "run_latency_map f st [] = Inr (snd st)"
| "run_latency_map f st (msg # msgs) =
     and_then (calculate_latency f st msg) (\<lambda>st'. run_latency_map f st' msgs)"

lemma run_latency_same:
  "latency_rel h M \<Longrightarrow> unat (kh_size h) + length msgs \<le> 2 ^ 29 \<Longrightarrow>
    run_latency_table plenty f (h, a) msgs = run_latency_map f (M, a) msgs"
proof (induction msgs arbitrary: h M a)
  case (Cons msg msgs)
  have room: "unat (kh_size h) < 2 ^ 29" using Cons.prems(2) by simp
  show ?case
    using table_latency_correct [OF Cons.prems(1) room, of f a msg] Cons.IH Cons.prems(2)
    by (cases "calculate_latency f (M, a) msg") fastforce+
qed simp

subsection \<open>The hash table cannot be told from the finite map\<close>

definition sample_stream :: ipv4_stream where
  "sample_stream = \<lparr>saddr = 0x0A000001, daddr = 0x0A000002, sport = 4000, dport = 9880\<rparr>"

definition other_stream :: ipv4_stream where
  "other_stream = \<lparr>saddr = 0x0A000001, daddr = 0x0A000002, sport = 4001, dport = 9849\<rparr>"

lemma same_hash: "ipv4_stream_hash other_stream = ipv4_stream_hash sample_stream" "other_stream \<noteq> sample_stream"
  by (simp_all add: ipv4_stream_hash_def sample_stream_def other_stream_def)

definition sample_history :: "fragment_op list" where
  "sample_history =
     [GetFragment sample_stream, PutFragment sample_stream [56, 61, 70] 3, PutFragment other_stream [57] 1,
      RemoveFragment sample_stream, GetFragment other_stream, GetFragment sample_stream]"

text \<open>
  C39: Any history of at most \<open>2 ^ 29\<close> fragment operations of a capture thread, with its hash table of
  \<^verbatim>\<open>khash.h\<close> created at the first insertion, rehashed in place when it fills up and probed past collisions and
  deleted buckets, gives the same results as the finite map from streams to fragments (the same fault where
  a copy does not fit), and no access leaves the arrays of the table.
\<close>

theorem fragments_over_khash:
  assumes "enough_memory mem" and "ctx_state ctx = None" and "length ops \<le> 2 ^ 29"
  shows "run_table mem None ops = run_context ctx ops"
proof -
  have "state_rel None (ctx_state ctx)" using assms(2) by (simp add: state_rel_def)
  moreover have "state_size None + length ops \<le> 2 ^ 29" using assms(3) by (simp add: state_size_def)
  moreover have "mem = plenty" using assms(1) by (simp add: plenty_iff)
  ultimately show ?thesis using run_table_context by simp
qed

theorem fragments_over_khash_witness:
  "run_table plenty None sample_history =
    Inr [None, Some \<lparr>frag_len = 1, frag_capacity = 4088, frag_s = [57]\<rparr>, None]"
proof -
  have "run_table plenty None sample_history = run_context sample_ctx sample_history"
    by (rule fragments_over_khash) (simp_all add: plenty_iff sample_ctx_def sample_history_def)
  moreover have sizes: "int_to_size 3 = Suc (Suc (Suc 0))" "int_to_size 1 = Suc 0"
    by (simp_all add: int_to_size_def)
  have "run_context sample_ctx sample_history = Inr [None, Some \<lparr>frag_len = 1, frag_capacity = 4088, frag_s = [57]\<rparr>, None]"
    by (simp add: sample_history_def get_fragment_def put_fragment_def remove_fragment_def sample_ctx_def same_hash(2)
        same_hash(2) [symmetric] new_fragment_def FRAGMENT_CAPACITY_def MAX_FRAGMENT_TOTAL_SIZE_def fragment_store_def sizes)
  ultimately show ?thesis by simp
qed

definition summary_of :: "byte list \<Rightarrow> int \<Rightarrow> int \<Rightarrow> fix_message_summary" where
  "summary_of key msg_type sec = \<lparr>sm_tv_sec = sec, sm_tv_nsec = 0, sm_msg_type = msg_type,
     sm_key_len = int (length key) + 1, sm_key = key @ [0]\<rparr>"

text \<open>
  C40: The latency thread with its hash table over \<open>__ac_X31_hash_string\<close> records the same latencies in its
  histogram, in the same order, as with a finite map from key strings to records, for every list of at most
  \<open>2 ^ 29\<close> messages, or stops at the same fault.
\<close>

theorem latencies_over_khash:
  assumes "enough_memory mem" and "length msgs \<le> 2 ^ 29"
  shows "run_latency_table mem record_value (kh_init, histogram) msgs =
    run_latency_map record_value (Map.empty, histogram) msgs"
proof -
  have "latency_rel kh_init Map.empty" using kt.new(1) by (simp add: latency_rel_def)
  moreover have "unat (kh_size (kh_init :: latency_khash)) + length msgs \<le> 2 ^ 29" using assms(2) by (simp add: kt.new(2))
  moreover have "mem = plenty" using assms(1) by (simp add: plenty_iff)
  ultimately show ?thesis by (simp add: run_latency_same del: fun_upd_apply)
qed

theorem latencies_over_khash_witness:
  "run_latency_table plenty (\<lambda>h x. h @ [x]) (kh_init, [])
      [summary_of [65] MSG_TYPE_NEW_ORDER_SINGLE 10, summary_of [66] MSG_TYPE_EXECUTION_REPORT 14,
       summary_of [65] MSG_TYPE_EXECUTION_REPORT 12] = Inr [2000000000]"
proof -
  let ?ms = "[summary_of [65] MSG_TYPE_NEW_ORDER_SINGLE 10, summary_of [66] MSG_TYPE_EXECUTION_REPORT 14,
       summary_of [65] MSG_TYPE_EXECUTION_REPORT 12]"
  have "run_latency_table plenty (\<lambda>h x. h @ [x]) (kh_init, []) ?ms = run_latency_map (\<lambda>h x. h @ [x]) (Map.empty, []) ?ms"
    by (rule latencies_over_khash) (simp_all add: plenty_iff)
  also have "\<dots> = Inr [2000000000]" by code_simp
  finally show ?thesis .
qed

end
