(* ===== verification/Khash_Iterate.thy ===== *)
theory Khash_Iterate
  imports Khash_Clients
begin

text \<open>
  The rest of \<^verbatim>\<open>src/khash.h\<close>: the iteration macros, the release of a table and the hash functions on integers. An
  iteration visits exactly the entries of the map that the table holds, each once.
\<close>

subsection \<open>Iterators and iteration\<close>

definition kh_exist :: "('k, 'v) khash \<Rightarrow> khint \<Rightarrow> bool res" where
  "kh_exist h x = and_then (ac_iseither (kh_flags h) x) (\<lambda>b. Inr (\<not> b))"

definition kh_key :: "('k, 'v) khash \<Rightarrow> khint \<Rightarrow> 'k res" where
  "kh_key h x = kh_load (kh_keys h) x"

definition kh_begin :: "('k, 'v) khash \<Rightarrow> khint" where
  "kh_begin h = 0"

definition kh_end :: "('k, 'v) khash \<Rightarrow> khint" where
  "kh_end h = n_buckets h"

definition kh_n_buckets :: "('k, 'v) khash \<Rightarrow> khint" where
  "kh_n_buckets h = n_buckets h"

text \<open>
  The loop of \<open>kh_foreach\<close> from the iterator \<open>i\<close>. The block of code is a function of the key, the value
  and a state; it does not change the table.
\<close>

lemma next_closer: "i \<noteq> m \<Longrightarrow> unat (m - (i + 1)) < unat (m - i)" for i m :: khint
proof -
  assume "i \<noteq> m"
  then have "m - i \<noteq> 0" by simp
  then have "unat (m - i - 1) < unat (m - i)" by (rule measure_unat)
  then show ?thesis by (simp only: diff_diff_eq)
qed

function foreach_from ::
    "('k, 'v) khash \<Rightarrow> ('k \<Rightarrow> 'v \<Rightarrow> 's \<Rightarrow> 's res) \<Rightarrow> khint \<Rightarrow> 's \<Rightarrow> 's res" where
  "foreach_from h code i s =
     (if i \<noteq> kh_end h
      then and_then (kh_exist h i) (\<lambda>e.
        if \<not> e then foreach_from h code (i + 1) s
        else and_then (kh_key h i) (\<lambda>k. and_then (kh_val h i) (\<lambda>v.
          and_then (code k v s) (\<lambda>s'. foreach_from h code (i + 1) s'))))
      else Inr s)"
  by pat_completeness auto
termination
  by (relation "measure (\<lambda>(h, code, i, s). unat (n_buckets h - i))") (auto simp: kh_end_def next_closer)

declare foreach_from.simps [simp del]

definition kh_foreach :: "('k, 'v) khash \<Rightarrow> ('k \<Rightarrow> 'v \<Rightarrow> 's \<Rightarrow> 's res) \<Rightarrow> 's \<Rightarrow> 's res" where
  "kh_foreach h code s = foreach_from h code (kh_begin h) s"

function foreach_value_from :: "('k, 'v) khash \<Rightarrow> ('v \<Rightarrow> 's \<Rightarrow> 's res) \<Rightarrow> khint \<Rightarrow> 's \<Rightarrow> 's res" where
  "foreach_value_from h code i s =
     (if i \<noteq> kh_end h
      then and_then (kh_exist h i) (\<lambda>e.
        if \<not> e then foreach_value_from h code (i + 1) s
        else and_then (kh_val h i) (\<lambda>v.
          and_then (code v s) (\<lambda>s'. foreach_value_from h code (i + 1) s')))
      else Inr s)"
  by pat_completeness auto
termination
  by (relation "measure (\<lambda>(h, code, i, s). unat (n_buckets h - i))") (auto simp: kh_end_def next_closer)

declare foreach_value_from.simps [simp del]

definition kh_foreach_value :: "('k, 'v) khash \<Rightarrow> ('v \<Rightarrow> 's \<Rightarrow> 's res) \<Rightarrow> 's \<Rightarrow> 's res" where
  "kh_foreach_value h code s = foreach_value_from h code (kh_begin h) s"

subsection \<open>The release of a table\<close>

text \<open>The blocks of memory of a table, and those that \<open>kh_destroy\<close> passes to \<open>free\<close>, in order.\<close>

datatype kh_block = Keys_Block | Flags_Block | Vals_Block | Table_Block

definition kh_destroy :: "('k, 'v) khash option \<Rightarrow> kh_block list" where
  "kh_destroy h =
     (case h of None \<Rightarrow> [] | Some h \<Rightarrow> [Keys_Block, Flags_Block, Vals_Block, Table_Block])"

subsection \<open>Hash functions on integers\<close>

definition kh_int_hash_func :: "32 word \<Rightarrow> khint" where
  "kh_int_hash_func key = key"

definition kh_int64_hash_func :: "64 word \<Rightarrow> khint" where
  "kh_int64_hash_func key = ucast (drop_bit 33 key XOR key XOR push_bit 11 key)"

definition ac_Wang_hash :: "khint \<Rightarrow> khint" where
  "ac_Wang_hash key =
     (let key = key + NOT (push_bit 15 key); key = key XOR drop_bit 10 key; key = key + push_bit 3 key;
          key = key XOR drop_bit 6 key; key = key + NOT (push_bit 11 key); key = key XOR drop_bit 16 key
      in key)"

subsection \<open>An iteration visits the map\<close>

text \<open>The code run on a list of entries, and the entries of the buckets from \<open>i\<close> on.\<close>

fun run_entries :: "('k \<Rightarrow> 'v \<Rightarrow> 's \<Rightarrow> 's res) \<Rightarrow> ('k \<times> 'v) list \<Rightarrow> 's \<Rightarrow> 's res" where
  "run_entries code [] s = Inr s"
| "run_entries code ((k, v) # es) s = and_then (code k v s) (run_entries code es)"

definition entries_from :: "('k, 'v) khash \<Rightarrow> nat \<Rightarrow> ('k \<times> 'v) list" where
  "entries_from h i = map (\<lambda>j. (the (kh_keys h ! j), the (kh_vals h ! j)))
     (filter (f_live (kh_flags h)) [i..<unat (n_buckets h)])"

lemma entries_from_step:
  "i < unat (n_buckets h) \<Longrightarrow> entries_from h i =
    (if f_live (kh_flags h) i then [(the (kh_keys h ! i), the (kh_vals h ! i))] else []) @ entries_from h (Suc i)"
  by (simp add: entries_from_def upt_conv_Cons)

lemma entries_from_end: "unat (n_buckets h) \<le> i \<Longrightarrow> entries_from h i = []"
  by (simp add: entries_from_def)

lemma table_entry:
  assumes t: "kh_table hash h M b" and i: "unat i < 2 ^ b"
  shows "kh_exist h i = Inr (f_live (kh_flags h) (unat i))"
    and "f_live (kh_flags h) (unat i) \<Longrightarrow> kh_key h i = Inr (the (kh_keys h ! unat i)) \<and> kh_val h i = Inr (the (kh_vals h ! unat i))"
proof -
  have "unat i < 16 * length (kh_flags h)" using t i by (simp add: kh_table_def)
  then show "kh_exist h i = Inr (f_live (kh_flags h) (unat i))" by (simp add: kh_exist_def ac_iseither_in)
  assume "f_live (kh_flags h) (unat i)"
  then have "unat i \<in> live_buckets (kh_flags h) (2 ^ b)" using i by (simp add: live_buckets_def)
  moreover have "stored (kh_keys h) (kh_vals h) (live_buckets (kh_flags h) (2 ^ b)) M" using t by (simp add: kh_table_def)
  ultimately obtain k v where "unat i < length (kh_keys h)" "unat i < length (kh_vals h)" "kh_keys h ! unat i = Some k"
    "kh_vals h ! unat i = Some v" using storedD by metis
  then show "kh_key h i = Inr (the (kh_keys h ! unat i)) \<and> kh_val h i = Inr (the (kh_vals h ! unat i))"
    by (simp add: kh_key_def kh_val_def kh_load_in)
qed

lemma foreach_from_entries:
  assumes t: "kh_table hash h M b"
  shows "unat i \<le> 2 ^ b \<Longrightarrow> foreach_from h code i s = run_entries code (entries_from h (unat i)) s"
    and "unat i \<le> 2 ^ b \<Longrightarrow> foreach_value_from h vcode i s = run_entries (\<lambda>_. vcode) (entries_from h (unat i)) s"
proof -
  have n: "unat (n_buckets h) = 2 ^ b" "b \<le> 31" using t by (simp_all add: kh_table_def table_size_def)
  have step: "unat i < 2 ^ b \<and> unat (i + 1) = Suc (unat i)" if "i \<noteq> kh_end h" "unat i \<le> 2 ^ b" for i
  proof -
    have "unat i \<noteq> 2 ^ b" using that(1) n(1) word_unat_eq_iff [of i "n_buckets h"] by (auto simp: kh_end_def)
    then have less: "unat i < 2 ^ b" using that(2) by simp
    then have "unat i < 2147483648" using pow_le_31 [OF n(2)] by linarith
    then show ?thesis using less by (simp add: unat_word_ariths)
  qed
  have stop: "entries_from h (unat (kh_end h)) = []" by (simp add: kh_end_def entries_from_end)
  show "unat i \<le> 2 ^ b \<Longrightarrow> foreach_from h code i s = run_entries code (entries_from h (unat i)) s"
  proof (induction "2 ^ b - unat i" arbitrary: i s rule: less_induct)
    case less
    show ?case
    proof (cases "i = kh_end h")
      case True
      then show ?thesis by (simp add: foreach_from.simps [of h code "kh_end h"] stop)
    next
      case False
      note i = step [OF False less.prems]
      then have "2 ^ b - Suc (unat i) < 2 ^ b - unat i" by (intro diff_less_mono2) simp_all
      note closer = this
      have "foreach_from h code (i + 1) = run_entries code (entries_from h (Suc (unat i)))"
        using less.hyps [of "i + 1"] i closer by (intro ext) simp
      then show ?thesis
        using False i table_entry [OF t conjunct1 [OF i]] n(1)
        by (simp add: foreach_from.simps [of h code i] entries_from_step)
    qed
  qed
  show "unat i \<le> 2 ^ b \<Longrightarrow> foreach_value_from h vcode i s = run_entries (\<lambda>_. vcode) (entries_from h (unat i)) s"
  proof (induction "2 ^ b - unat i" arbitrary: i s rule: less_induct)
    case less
    show ?case
    proof (cases "i = kh_end h")
      case True
      then show ?thesis by (simp add: foreach_value_from.simps [of h vcode "kh_end h"] stop)
    next
      case False
      note i = step [OF False less.prems]
      then have "2 ^ b - Suc (unat i) < 2 ^ b - unat i" by (intro diff_less_mono2) simp_all
      note closer = this
      have "foreach_value_from h vcode (i + 1) = run_entries (\<lambda>_. vcode) (entries_from h (Suc (unat i)))"
        using less.hyps [of "i + 1"] i closer by (intro ext) simp
      then show ?thesis
        using False i table_entry [OF t conjunct1 [OF i]] n(1)
        by (simp add: foreach_value_from.simps [of h vcode i] entries_from_step)
    qed
  qed
qed

text \<open>The entries of all buckets are the map.\<close>

lemma table_entries:
  assumes t: "kh_table hash h M b"
  shows "map_of (entries_from h 0) = M" and "distinct (map fst (entries_from h 0))"
    and "length (entries_from h 0) = unat (kh_size h)"
proof -
  have n: "unat (n_buckets h) = 2 ^ b" using t by (simp add: kh_table_def table_size_def)
  let ?A = "live_buckets (kh_flags h) (2 ^ b)" and ?js = "filter (f_live (kh_flags h)) [0..<2 ^ b]"
  have st: "stored (kh_keys h) (kh_vals h) ?A M" using t by (simp add: kh_table_def)
  have js: "set ?js = ?A" "distinct ?js" by (auto simp: live_buckets_def)
  have es: "entries_from h 0 = map (\<lambda>j. (the (kh_keys h ! j), the (kh_vals h ! j))) ?js"
    by (simp add: entries_from_def n)
  have inj: "inj_on (\<lambda>j. the (kh_keys h ! j)) ?A"
  proof (rule inj_onI)
    fix i j assume ij: "i \<in> ?A" "j \<in> ?A" "the (kh_keys h ! i) = the (kh_keys h ! j)"
    then have "kh_keys h ! i = kh_keys h ! j" using storedD [OF st ij(1)] storedD [OF st ij(2)] by (metis option.sel)
    then show "i = j" by (rule stored_unique [OF st ij(1,2)])
  qed
  show d: "distinct (map fst (entries_from h 0))"
    unfolding es using js inj by (simp add: distinct_map o_def)
  have "map_of (entries_from h 0) k = Some v \<longleftrightarrow> M k = Some v" for k v
  proof -
    have "map_of (entries_from h 0) k = Some v \<longleftrightarrow> (\<exists>j\<in>?A. k = the (kh_keys h ! j) \<and> v = the (kh_vals h ! j))"
      using map_of_eq_Some_iff [OF d, of k v] unfolding es set_map js(1) by auto
    also have "\<dots> \<longleftrightarrow> M k = Some v"
      using stored_at [OF st] storedD [OF st] by (metis option.sel)
    finally show ?thesis .
  qed
  then show "map_of (entries_from h 0) = M" by (metis not_None_eq ext)
  show "length (entries_from h 0) = unat (kh_size h)"
    using t distinct_card [OF js(2)] unfolding es js(1) by (simp add: kh_table_def)
qed

text \<open>
  C26: \<open>kh_foreach\<close> and \<open>kh_foreach_value\<close> run their block once on each entry of the map that the table holds and on
  nothing else, in the order of the buckets, whatever the block does with its state; no deleted or empty
  bucket is read, the loop ends, and the number of entries is \<open>kh_size\<close>.
\<close>

theorem foreach_visits_map:
  assumes "kh_rep hash h M"
  shows "\<exists>es. map_of es = M \<and> distinct (map fst es) \<and> length es = unat (kh_size h) \<and>
    kh_foreach h code s = run_entries code es s \<and> kh_foreach_value h vcode s = run_entries (\<lambda>_. vcode) es s"
proof (cases "kh_unused h \<and> M = Map.empty")
  case True
  then have "kh_end h = kh_begin h" by (simp add: kh_unused_def kh_end_def kh_begin_def)
  then show ?thesis
    using True by (intro exI [of _ "[]"]) (simp add: kh_foreach_def kh_foreach_value_def foreach_from.simps
      foreach_value_from.simps kh_unused_def)
next
  case False
  then obtain b where t: "kh_table hash h M b" using assms by (auto simp: kh_rep_def)
  have first: "unat (kh_begin h) = 0" by (simp add: kh_begin_def)
  show ?thesis
    using table_entries [OF t] foreach_from_entries(1) [OF t, of "kh_begin h" code s]
      foreach_from_entries(2) [OF t, of "kh_begin h" vcode s]
    by (intro exI [of _ "entries_from h 0"]) (simp add: kh_foreach_def kh_foreach_value_def first)
qed

lemma single_entry:
  assumes "map_of es = [k \<mapsto> v]" and "distinct (map fst es)"
  shows "es = [(k, v)]"
proof -
  have "(a, b) \<in> set es \<longleftrightarrow> a = k \<and> b = v" for a b
    using map_of_eq_Some_iff [OF assms(2), of a b] by (cases "a = k") (auto simp: assms(1))
  then have es: "set es = {(k, v)}" by auto
  then obtain e es' where e: "es = e # es'" by (cases es) auto
  have "e \<notin> set es'" using assms(2) e by (auto simp: distinct_map)
  moreover have "set es' \<subseteq> {e}" "e = (k, v)" using es e by auto
  ultimately have "set es' = {}" by (simp add: subset_singleton_iff) blast
  then show ?thesis using e \<open>e = (k, v)\<close> by simp
qed

theorem foreach_visits_map_witness:
  "\<exists>h. and_then (kh_put plenty ac_Wang_hash kh_init 7) (\<lambda>(x, r, h). kh_set_val h x (1 :: nat)) = Inr h \<and>
     kh_foreach h (\<lambda>k v s. Inr (s @ [(k, v)])) [] = Inr [(7, 1)]"
proof -
  have "unat (kh_size (kh_init :: (khint, nat) khash)) < 2 ^ 29" by (simp add: kh_init_def)
  from kh_put_rep [OF kh_init_rep this, of plenty ac_Wang_hash 7] obtain x r h where
    h: "kh_put plenty ac_Wang_hash kh_init 7 = Inr (x, r, h)" "place_for ac_Wang_hash Map.empty 7 x (h :: (khint, nat) khash)"
    by (auto simp: plenty_iff)
  then obtain h' where h': "kh_set_val h x 1 = Inr h'" "kh_rep ac_Wang_hash h' [7 \<mapsto> 1]" by (auto simp: place_for_def)
  from foreach_visits_map [OF h'(2), of "\<lambda>k v s. Inr (s @ [(k, v)])" "[]"] obtain es where
    es: "map_of es = [7 \<mapsto> 1]" "distinct (map fst es)"
      "kh_foreach h' (\<lambda>k v s. Inr (s @ [(k, v)])) [] = run_entries (\<lambda>k v s. Inr (s @ [(k, v)])) es []" by blast
  have "es = [(7, 1)]" using es(1,2) by (rule single_entry)
  then show ?thesis using h(1) h'(1) es(3) by simp
qed

subsection \<open>Wang's hash function is a permutation\<close>

text \<open>Each step can be undone: a multiplication by an odd number, a complement, an exclusive or with a shift.\<close>

lemma xor_zero: "a XOR b = 0 \<Longrightarrow> a = b" for a b :: khint
  by (auto simp: bit_eq_iff bit_xor_iff)

lemma xor_shift_inj:
  assumes "0 < k" and "x XOR drop_bit k x = y XOR drop_bit k (y :: khint)"
  shows "x = y"
proof -
  define z where "z = x XOR y"
  have "z XOR drop_bit k z = (x XOR drop_bit k x) XOR (y XOR drop_bit k y)"
    by (simp add: z_def drop_bit_xor ac_simps)
  also have "\<dots> = 0" using assms(2) by simp
  finally have "z = drop_bit k z" by (rule xor_zero)
  then have "unat z = unat z div 2 ^ k" by (metis unat_drop_bit_eq drop_bit_eq_div)
  moreover have "(1 :: nat) < 2 ^ k" using assms(1) by (intro one_less_power) simp_all
  ultimately have "unat z = 0" by (metis div_less_dividend less_irrefl neq0_conv)
  then have "z = 0" by (simp add: unat_eq_zero)
  then show ?thesis unfolding z_def by (rule xor_zero)
qed

lemma mult_inj: "c * d = 1 \<Longrightarrow> x * c = y * c \<Longrightarrow> x = y" for x y c d :: khint
proof -
  assume "c * d = 1" "x * c = y * c"
  from \<open>x * c = y * c\<close> have "x * c * d = y * c * d" by (rule arg_cong)
  then show "x = y" unfolding mult.assoc \<open>c * d = 1\<close> mult_1_right .
qed

lemma shift_complement: "x + NOT (push_bit k x) = x * (1 - 2 ^ k) - 1" for x :: khint
proof -
  define y where "y = push_bit k x"
  have "x * (1 - 2 ^ k) = x - y" unfolding y_def push_bit_eq_mult right_diff_distrib mult_1_right by (rule refl)
  moreover have "NOT y = - y - 1" by (rule not_eq_complement)
  ultimately show ?thesis unfolding y_def [symmetric] by simp
qed

theorem Wang_hash_bijective: "bij ac_Wang_hash"
proof -
  have "ac_Wang_hash x = ac_Wang_hash y \<Longrightarrow> x = y" for x y
  proof -
    define f1 :: "khint \<Rightarrow> khint" where "f1 = (\<lambda>x. x + NOT (push_bit 15 x))"
    define f2 :: "khint \<Rightarrow> khint" where "f2 = (\<lambda>x. x XOR drop_bit 10 x)"
    define f3 :: "khint \<Rightarrow> khint" where "f3 = (\<lambda>x. x + push_bit 3 x)"
    define f4 :: "khint \<Rightarrow> khint" where "f4 = (\<lambda>x. x XOR drop_bit 6 x)"
    define f5 :: "khint \<Rightarrow> khint" where "f5 = (\<lambda>x. x + NOT (push_bit 11 x))"
    define f6 :: "khint \<Rightarrow> khint" where "f6 = (\<lambda>x. x XOR drop_bit 16 x)"
    have w: "ac_Wang_hash z = f6 (f5 (f4 (f3 (f2 (f1 z)))))" for z
      by (simp add: ac_Wang_hash_def f1_def f2_def f3_def f4_def f5_def f6_def Let_def)
    have i1_inverse: "(1 - 2 ^ 15) * 1073774593 = (1 :: khint)" and i5_inverse: "(1 - 2 ^ 11) * 4196353 = (1 :: khint)"
      and i3_inverse: "9 * 954437177 = (1 :: khint)" by code_simp+
    have i1: "f1 a = f1 b \<Longrightarrow> a = b" for a b
      using mult_inj [OF i1_inverse, of a b] by (simp add: f1_def shift_complement)
    have i5: "f5 a = f5 b \<Longrightarrow> a = b" for a b
      using mult_inj [OF i5_inverse, of a b] by (simp add: f5_def shift_complement)
    have i3: "f3 a = f3 b \<Longrightarrow> a = b" for a b
      using mult_inj [OF i3_inverse, of a b] by (simp add: f3_def push_bit_eq_mult algebra_simps)
    have i246: "f2 a = f2 b \<Longrightarrow> a = b" "f4 a = f4 b \<Longrightarrow> a = b" "f6 a = f6 b \<Longrightarrow> a = b" for a b
      by (auto simp: f2_def f4_def f6_def intro: xor_shift_inj [rotated])
    assume "ac_Wang_hash x = ac_Wang_hash y"
    then show "x = y" unfolding w by (blast dest: i1 i3 i5 i246)
  qed
  then have "inj ac_Wang_hash" by (rule injI)
  then show ?thesis by (simp add: bij_def finite_UNIV_inj_surj)
qed

end
