(* ===== verification/Map_Buffer.thy ===== *)
theory Map_Buffer
  imports Spsc_Ring
begin

text \<open>
  \<open>map_buffer\<close> of \<^verbatim>\<open>src/spsc_rb.c\<close>, which maps one file twice behind itself, over the system calls as
  parameters, and the proof that the memory it returns is the double mapping that the model of the ring in
  \<^verbatim>\<open>Spsc_Ring\<close> reads and writes.
\<close>

subsection \<open>The system calls\<close>

text \<open>
  The calls change a state \<open>'k\<close> of the kernel. \<open>k_mmap k fixed len fd\<close> maps \<open>len\<close> bytes, at the address
  \<open>fixed\<close> when it is given (\<open>MAP_FIXED\<close>), of the start of the file \<open>fd\<close> or, without one, of anonymous memory;
  \<open>None\<close> is \<open>MAP_FAILED\<close>. \<open>k_mkstemp\<close> returns a descriptor, negative on failure, and the name it made.
\<close>

record ('k, 'n) kernel =
  k_mmap :: "'k \<Rightarrow> nat option \<Rightarrow> nat \<Rightarrow> int option \<Rightarrow> nat option \<times> 'k"
  k_mkstemp :: "'k \<Rightarrow> int \<times> 'n \<times> 'k"
  k_ftruncate :: "'k \<Rightarrow> int \<Rightarrow> nat \<Rightarrow> int \<times> 'k"
  k_close :: "'k \<Rightarrow> int \<Rightarrow> 'k"
  k_unlink :: "'k \<Rightarrow> 'n \<Rightarrow> 'k"

text \<open>\<open>length * 2\<close> is a \<open>size_t\<close>. The result of \<open>ftruncate\<close> is not looked at.\<close>

definition map_halves :: "('k, 'n) kernel \<Rightarrow> 'k \<Rightarrow> nat \<Rightarrow> int \<Rightarrow> nat \<Rightarrow> nat option \<times> 'k" where
  "map_halves api k full_address fd len =
     (case k_mmap api k (Some full_address) len (Some fd) of
        (None, k) \<Rightarrow> (None, k)
      | (Some first_half_address, k) \<Rightarrow>
          (case k_mmap api k (Some (full_address + len)) len (Some fd) of
             (None, k) \<Rightarrow> (None, k)
           | (Some second_half_address, k) \<Rightarrow> (Some first_half_address, k)))"

definition map_buffer :: "('k, 'n) kernel \<Rightarrow> 'k \<Rightarrow> nat \<Rightarrow> nat option \<times> 'k" where
  "map_buffer api k len =
     (case k_mmap api k None (len * 2 mod 2 ^ 64) None of
        (None, k) \<Rightarrow> (None, k)
      | (Some full_address, k) \<Rightarrow>
          (case k_mkstemp api k of
             (fd, name, k) \<Rightarrow>
               if fd < 0 then (None, k)
               else
                 let k = snd (k_ftruncate api k fd len);
                     (address, k) = map_halves api k full_address fd len;
                     k = k_close api k fd
                 in (address, k_unlink api k name)))"

text \<open>What \<open>ftruncate\<close> answers in this call, which the code does not ask.\<close>

definition ftruncate_answer :: "('k, 'n) kernel \<Rightarrow> 'k \<Rightarrow> nat \<Rightarrow> int" where
  "ftruncate_answer api k len =
     (case k_mkstemp api (snd (k_mmap api k None (len * 2 mod 2 ^ 64) None)) of
        (fd, name, k) \<Rightarrow> fst (k_ftruncate api k fd len))"

subsection \<open>What the kernel documents\<close>

text \<open>
  The observable part of the kernel: the page table, from an address to the byte of a file (or of the
  anonymous memory) behind it; the files of the descriptors; and the contents of the files.
\<close>

record ('k, 'f) kernel_view =
  page_table :: "'k \<Rightarrow> nat \<Rightarrow> ('f \<times> nat) option"
  file_of :: "'k \<Rightarrow> int \<Rightarrow> 'f option"
  contents :: "'k \<Rightarrow> 'f \<Rightarrow> byte list"

text \<open>Mapping \<open>n\<close> bytes of the file \<open>f\<close> at the address \<open>a\<close>.\<close>

definition remap :: "nat \<Rightarrow> nat \<Rightarrow> 'f \<Rightarrow> (nat \<Rightarrow> ('f \<times> nat) option) \<Rightarrow> nat \<Rightarrow> ('f \<times> nat) option" where
  "remap a n f pt = (\<lambda>x. if a \<le> x \<and> x < a + n then Some (f, x - a) else pt x)"

text \<open>Memory is mapped by pages of \<open>P\<close> bytes: the length is rounded up to whole pages.\<close>

definition whole_pages :: "nat \<Rightarrow> nat \<Rightarrow> nat" where
  "whole_pages P n = (n + P - 1) div P * P"

lemma whole_pages_dvd: "P dvd n \<Longrightarrow> 0 < n \<Longrightarrow> whole_pages P n = n"
proof (elim dvdE)
  fix k assume "0 < n" and n: "n = P * k"
  then have "0 < P" by simp
  then have "(P - 1 + P * k) div P = k" by (subst div_mult_self2) simp_all
  moreover have "n + P - 1 = P - 1 + P * k" using n \<open>0 < P\<close> by simp
  ultimately show "whole_pages P n = n" using n by (simp only: whole_pages_def mult.commute)
qed

text \<open>
  mmap(2) with \<open>MAP_FIXED\<close> takes a length that is not 0 and an address at the start of a page, and maps whole pages at
  exactly that address, in place of what was there; mkstemp(3) creates a file of no bytes; ftruncate(2) cuts it or
  extends it by zeros, or fails and leaves it as it is; close(2) and unlink(2) leave mappings and the contents of
  mapped files alone.
\<close>

definition posix_files :: "nat \<Rightarrow> ('k, 'n) kernel \<Rightarrow> ('k, 'f) kernel_view \<Rightarrow> bool" where
  "posix_files P api v \<longleftrightarrow>
     (\<forall>k a n fd f p k'. k_mmap api k (Some a) n (Some fd) = (Some p, k') \<longrightarrow> file_of v k fd = Some f \<longrightarrow>
        0 < n \<and> P dvd a \<and> p = a \<and> page_table v k' = remap a (whole_pages P n) f (page_table v k) \<and>
        file_of v k' = file_of v k \<and> contents v k' = contents v k) \<and>
     (\<forall>k fd name k'. k_mkstemp api k = (fd, name, k') \<longrightarrow> 0 \<le> fd \<longrightarrow>
        (\<exists>f. file_of v k' fd = Some f \<and> contents v k' f = [])) \<and>
     (\<forall>k fd f n r k'. k_ftruncate api k fd n = (r, k') \<longrightarrow> file_of v k fd = Some f \<longrightarrow>
        file_of v k' = file_of v k \<and>
        (r = 0 \<longrightarrow> contents v k' f = take n (contents v k f) @ replicate (n - length (contents v k f)) 0) \<and>
        (r \<noteq> 0 \<longrightarrow> contents v k' f = contents v k f)) \<and>
     (\<forall>k fd. page_table v (k_close api k fd) = page_table v k \<and> contents v (k_close api k fd) = contents v k) \<and>
     (\<forall>k name. page_table v (k_unlink api k name) = page_table v k \<and> contents v (k_unlink api k name) = contents v k)"

subsection \<open>Reads and writes through the page table\<close>

text \<open>An access of a byte that is not mapped, or lies behind the end of the mapped file, is a fault.\<close>

definition poke :: "(nat \<Rightarrow> ('f \<times> nat) option) \<Rightarrow> ('f \<Rightarrow> byte list) \<Rightarrow> nat \<Rightarrow> byte \<Rightarrow> ('f \<Rightarrow> byte list) res" where
  "poke pt c a b =
     (case pt a of
        None \<Rightarrow> Inl OutOfBounds
      | Some (f, i) \<Rightarrow> if i < length (c f) then Inr (c(f := (c f)[i := b])) else Inl OutOfBounds)"

definition peek :: "(nat \<Rightarrow> ('f \<times> nat) option) \<Rightarrow> ('f \<Rightarrow> byte list) \<Rightarrow> nat \<Rightarrow> byte res" where
  "peek pt c a =
     (case pt a of
        None \<Rightarrow> Inl OutOfBounds
      | Some (f, i) \<Rightarrow> if i < length (c f) then Inr (c f ! i) else Inl OutOfBounds)"

fun poke_bytes :: "(nat \<Rightarrow> ('f \<times> nat) option) \<Rightarrow> ('f \<Rightarrow> byte list) \<Rightarrow> nat \<Rightarrow> byte list \<Rightarrow> ('f \<Rightarrow> byte list) res" where
  "poke_bytes pt c a [] = Inr c"
| "poke_bytes pt c a (b # bs) = and_then (poke pt c a b) (\<lambda>c'. poke_bytes pt c' (Suc a) bs)"

fun peek_bytes :: "(nat \<Rightarrow> ('f \<times> nat) option) \<Rightarrow> ('f \<Rightarrow> byte list) \<Rightarrow> nat \<Rightarrow> nat \<Rightarrow> byte list res" where
  "peek_bytes pt c a 0 = Inr []"
| "peek_bytes pt c a (Suc n) = and_then (peek pt c a) (\<lambda>b. and_then (peek_bytes pt c (Suc a) n) (\<lambda>bs. Inr (b # bs)))"

text \<open>Every address from \<open>a\<close> below \<open>a + 2 * n\<close> reaches the byte of \<open>f\<close> at its distance from \<open>a\<close> modulo \<open>n\<close>.\<close>

definition mapped_twice :: "(nat \<Rightarrow> ('f \<times> nat) option) \<Rightarrow> 'f \<Rightarrow> nat \<Rightarrow> nat \<Rightarrow> bool" where
  "mapped_twice pt f a n \<longleftrightarrow> (\<forall>i < 2 * n. pt (a + i) = Some (f, i mod n))"

lemma remap_twice: "mapped_twice (remap (a + n) n f (remap a n f pt)) f a n"
  unfolding mapped_twice_def
proof (intro allI impI)
  fix i assume "i < 2 * n"
  then show "remap (a + n) n f (remap a n f pt) (a + i) = Some (f, i mod n)"
    by (cases "i < n") (auto simp: remap_def mod_if)
qed

lemma poke_bytes_twice:
  "mapped_twice pt f a n \<Longrightarrow> length (c f) = n \<Longrightarrow> off + length bs \<le> 2 * n \<Longrightarrow>
    poke_bytes pt c (a + off) bs = Inr (c(f := ring_store (c f) off bs))"
proof (induction bs arbitrary: c off)
  case (Cons b bs)
  have pt: "pt (a + off) = Some (f, off mod n)" and "off mod n < n"
    using Cons.prems by (auto simp: mapped_twice_def)
  then have p: "poke pt c (a + off) b = Inr (c(f := (c f)[off mod n := b]))"
    using Cons.prems(2) by (simp add: poke_def)
  define c' where "c' = c(f := (c f)[off mod n := b])"
  have c': "c' f = (c f)[off mod n := b]" "\<And>y. c'(f := y) = c(f := y)" by (simp_all add: c'_def)
  have "poke_bytes pt c' (a + Suc off) bs = Inr (c'(f := ring_store (c' f) (Suc off) bs))"
    using Cons.prems c'(1) by (intro Cons.IH) simp_all
  then show ?case using p Cons.prems(2) c' unfolding c'_def [symmetric] by (simp del: fun_upd_apply)
qed simp

lemma peek_bytes_twice:
  "mapped_twice pt f a n \<Longrightarrow> length (c f) = n \<Longrightarrow> off + m \<le> 2 * n \<Longrightarrow>
    peek_bytes pt c (a + off) m = Inr (ring_load (c f) off m)"
proof (induction m arbitrary: off)
  case (Suc m)
  have pt: "pt (a + off) = Some (f, off mod n)" and "off mod n < n"
    using Suc.prems by (auto simp: mapped_twice_def)
  then have "peek pt c (a + off) = Inr (c f ! (off mod n))"
    using Suc.prems(2) by (simp add: peek_def)
  moreover have "peek_bytes pt c (a + Suc off) m = Inr (ring_load (c f) (Suc off) m)"
    using Suc by (intro Suc.IH) simp_all
  moreover have "ring_load (c f) off (Suc m) = c f ! (off mod n) # ring_load (c f) (Suc off) m"
    using Suc.prems(2) unfolding ring_load_def by (simp add: upt_conv_Cons map_Suc_upt [symmetric] del: upt_Suc)
  ultimately show ?case by simp
qed (simp add: ring_load_def)

subsection \<open>The mapping\<close>

lemma posix_mmap:
  "posix_files P api v \<Longrightarrow> k_mmap api k (Some a) n (Some fd) = (Some p, k') \<Longrightarrow> file_of v k fd = Some f \<Longrightarrow>
    0 < n \<and> P dvd a \<and> p = a \<and> page_table v k' = remap a (whole_pages P n) f (page_table v k) \<and>
    file_of v k' = file_of v k \<and> contents v k' = contents v k"
  unfolding posix_files_def by (drule conjunct1) blast

lemma posix_mkstemp:
  "posix_files P api v \<Longrightarrow> k_mkstemp api k = (fd, name, k') \<Longrightarrow> 0 \<le> fd \<Longrightarrow>
    \<exists>f. file_of v k' fd = Some f \<and> contents v k' f = []"
  unfolding posix_files_def by (drule conjunct2, drule conjunct1) blast

lemma posix_ftruncate:
  "posix_files P api v \<Longrightarrow> k_ftruncate api k fd n = (r, k') \<Longrightarrow> file_of v k fd = Some f \<Longrightarrow>
    file_of v k' = file_of v k \<and>
    (r = 0 \<longrightarrow> contents v k' f = take n (contents v k f) @ replicate (n - length (contents v k f)) 0) \<and>
    (r \<noteq> 0 \<longrightarrow> contents v k' f = contents v k f)"
  unfolding posix_files_def by (drule conjunct2, drule conjunct2, drule conjunct1) blast

lemma posix_release:
  "posix_files P api v \<Longrightarrow> page_table v (k_unlink api (k_close api k fd) name) = page_table v k \<and>
    contents v (k_unlink api (k_close api k fd) name) = contents v k"
  unfolding posix_files_def by simp

lemma map_halves_twice:
  assumes api: "posix_files P api v" and m: "map_halves api k full fd n = (Some a, k')" and f: "file_of v k fd = Some f"
  shows "0 < n \<and> P dvd n \<and> mapped_twice (page_table v k') f a n \<and> contents v k' = contents v k"
proof -
  obtain k1 p where h: "k_mmap api k (Some full) n (Some fd) = (Some a, k1)"
    "k_mmap api k1 (Some (full + n)) n (Some fd) = (Some p, k')"
    using m by (auto simp: map_halves_def split: prod.splits option.splits)
  have 1: "0 < n \<and> P dvd full \<and> a = full \<and> page_table v k1 = remap full (whole_pages P n) f (page_table v k) \<and>
      file_of v k1 = file_of v k \<and> contents v k1 = contents v k"
    by (rule posix_mmap [OF api h(1) f])
  then have "file_of v k1 fd = Some f" using f by simp
  then have 2: "P dvd full + n \<and> page_table v k' = remap (full + n) (whole_pages P n) f (page_table v k1) \<and>
      contents v k' = contents v k1"
    using posix_mmap [OF api h(2)] by blast
  with 1 have n: "P dvd n" by (simp add: dvd_add_right_iff)
  with 1 have "whole_pages P n = n" by (simp add: whole_pages_dvd)
  then show ?thesis using 1 2 n remap_twice by metis
qed

text \<open>A mapping that is returned is the double mapping of one file, which \<open>ftruncate\<close> was asked to extend.\<close>

lemma map_buffer_file:
  assumes api: "posix_files P api v" and m: "map_buffer api k n = (Some a, k')"
  shows "0 < n \<and> P dvd n \<and> (\<exists>f. mapped_twice (page_table v k') f a n \<and>
    contents v k' f = (if ftruncate_answer api k n = 0 then replicate n 0 else []))"
proof -
  obtain full k0 fd name k1 k3 where
    c: "k_mmap api k None (n * 2 mod 2 ^ 64) None = (Some full, k0)" "k_mkstemp api k0 = (fd, name, k1)" "\<not> fd < 0"
      "map_halves api (snd (k_ftruncate api k1 fd n)) full fd n = (Some a, k3)" "k' = k_unlink api (k_close api k3 fd) name"
    using m by (auto simp: map_buffer_def Let_def split: prod.splits option.splits if_splits)
  obtain r k2 where r: "k_ftruncate api k1 fd n = (r, k2)" by (rule prod.exhaust)
  have ans: "ftruncate_answer api k n = r" using c(1,2) r by (simp add: ftruncate_answer_def)
  obtain f where f: "file_of v k1 fd = Some f" "contents v k1 f = []"
    using posix_mkstemp [OF api c(2)] c(3) by auto
  have t: "file_of v k2 = file_of v k1" "r = 0 \<longrightarrow> contents v k2 f = replicate n 0" "r \<noteq> 0 \<longrightarrow> contents v k2 f = []"
    using posix_ftruncate [OF api r f(1)] f(2) by simp_all
  have h: "0 < n" "P dvd n" "mapped_twice (page_table v k3) f a n" "contents v k3 = contents v k2"
    using map_halves_twice [OF api c(4)] t(1) f(1) r by simp_all
  have "page_table v k' = page_table v k3" "contents v k' = contents v k3"
    using posix_release [OF api] c(5) by simp_all
  then show ?thesis using h t(2,3) ans by auto
qed

lemma mapped_empty_faults:
  "mapped_twice pt f a n \<Longrightarrow> c f = [] \<Longrightarrow> i < 2 * n \<Longrightarrow>
    peek pt c (a + i) = Inl OutOfBounds \<and> poke pt c (a + i) b = Inl OutOfBounds"
  by (simp add: mapped_twice_def peek_def poke_def)

text \<open>A small kernel that behaves as documented, with pages of 8 bytes: one file, mapped at one address.\<close>

record small_kernel =
  sk_pages :: "nat \<Rightarrow> (nat \<times> nat) option"
  sk_fds :: "int \<Rightarrow> nat option"
  sk_files :: "nat \<Rightarrow> byte list"

definition small_mmap :: "small_kernel \<Rightarrow> nat option \<Rightarrow> nat \<Rightarrow> int option \<Rightarrow> nat option \<times> small_kernel" where
  "small_mmap k fixed n fd =
     (case (fixed, fd) of
        (Some a, Some d) \<Rightarrow>
          (case sk_fds k d of
             None \<Rightarrow> (None, k)
           | Some f \<Rightarrow>
               if n = 0 \<or> \<not> 8 dvd a then (None, k)
               else (Some a, k\<lparr>sk_pages := remap a (whole_pages 8 n) f (sk_pages k)\<rparr>))
      | _ \<Rightarrow> (Some 4096, k\<lparr>sk_pages := remap 4096 (whole_pages 8 n) 0 (sk_pages k)\<rparr>))"

definition small_api :: "(small_kernel, string) kernel" where
  "small_api = \<lparr>k_mmap = small_mmap,
     k_mkstemp = (\<lambda>k. (3, ''/dev/shm/spsc_rb_a'', k\<lparr>sk_fds := (sk_fds k)(3 \<mapsto> 1), sk_files := (sk_files k)(1 := [])\<rparr>)),
     k_ftruncate = (\<lambda>k fd n. case sk_fds k fd of None \<Rightarrow> (-1, k)
       | Some f \<Rightarrow> (0, k\<lparr>sk_files := (sk_files k)(f := take n (sk_files k f) @ replicate (n - length (sk_files k f)) 0)\<rparr>)),
     k_close = (\<lambda>k fd. k\<lparr>sk_fds := (sk_fds k)(fd := None)\<rparr>),
     k_unlink = (\<lambda>k name. k)\<rparr>"

definition small_view :: "(small_kernel, nat) kernel_view" where
  "small_view = \<lparr>page_table = sk_pages, file_of = sk_fds, contents = sk_files\<rparr>"

definition small_start :: small_kernel where
  "small_start = \<lparr>sk_pages = (\<lambda>a. None), sk_fds = (\<lambda>d. None), sk_files = (\<lambda>f. [])\<rparr>"

lemma small_posix: "posix_files 8 small_api small_view"
  unfolding posix_files_def
  by (intro conjI allI impI)
    (auto simp: small_api_def small_view_def small_mmap_def split: option.splits if_splits)

text \<open>
  C23: What is behind an address that \<open>map_buffer\<close> returns, on a kernel with pages of \<open>P\<close> bytes: the size \<open>n\<close> asked for
  was a positive number of whole pages, and if \<open>ftruncate\<close> succeeded the memory is the double mapping that the ring
  buffer needs, a file of \<open>n\<close> zero bytes where any bytes written or read within \<open>2 * n\<close> of the address, across the seam
  included, are those that the memory of the model of the ring has at that offset. If \<open>ftruncate\<close> failed, which the
  code does not look at, the address is returned all the same and every access within \<open>2 * n\<close> of it faults.
\<close>

theorem buffer_mapped_twice:
  assumes "posix_files P api v" and "map_buffer api k n = (Some a, k')"
  shows "0 < n \<and> P dvd n \<and>
    (if ftruncate_answer api k n = 0
     then \<exists>f. contents v k' f = replicate n 0 \<and>
       (\<forall>c off bs. length (c f) = n \<longrightarrow> off + length bs \<le> 2 * n \<longrightarrow>
         poke_bytes (page_table v k') c (a + off) bs = Inr (c(f := ring_store (c f) off bs)) \<and>
         peek_bytes (page_table v k') c (a + off) (length bs) = Inr (ring_load (c f) off (length bs)))
     else \<forall>i < 2 * n. \<forall>b. peek (page_table v k') (contents v k') (a + i) = Inl OutOfBounds \<and>
       poke (page_table v k') (contents v k') (a + i) b = Inl OutOfBounds)"
proof -
  obtain f where f: "0 < n" "P dvd n" "mapped_twice (page_table v k') f a n"
    "contents v k' f = (if ftruncate_answer api k n = 0 then replicate n 0 else [])"
    using map_buffer_file [OF assms] by blast
  show ?thesis
  proof (cases "ftruncate_answer api k n = 0")
    case True
    with f poke_bytes_twice [OF f(3)] peek_bytes_twice [OF f(3)] show ?thesis by auto
  next
    case False
    with f mapped_empty_faults [OF f(3)] show ?thesis by auto
  qed
qed

theorem buffer_mapped_twice_witness:
  "\<exists>a k' f. map_buffer small_api small_start 8 = (Some a, k') \<and>
    poke_bytes (sk_pages k') (sk_files k') (a + 6) [1, 2, 3, 4] =
      Inr ((sk_files k')(f := [3, 4, 0, 0, 0, 0, 1, 2]))"
proof -
  define k' where "k' = snd (map_buffer small_api small_start 8)"
  have m: "map_buffer small_api small_start 8 = (Some 4096, k')"
    by (simp add: k'_def map_buffer_def map_halves_def small_api_def small_mmap_def small_start_def Let_def)
  have trunc: "ftruncate_answer small_api small_start 8 = 0"
    by (simp add: ftruncate_answer_def small_api_def small_mmap_def small_start_def)
  obtain f where f: "contents small_view k' f = replicate 8 0"
    "\<forall>c off bs. length (c f) = 8 \<longrightarrow> off + length bs \<le> 2 * 8 \<longrightarrow>
      poke_bytes (page_table small_view k') c (4096 + off) bs = Inr (c(f := ring_store (c f) off bs)) \<and>
      peek_bytes (page_table small_view k') c (4096 + off) (length bs) = Inr (ring_load (c f) off (length bs))"
    using buffer_mapped_twice [OF small_posix m] unfolding if_P [OF trunc] by blast
  have len: "length (sk_files k' f) = 8" using f(1) by (simp add: small_view_def)
  have "6 + length [1, 2, 3, 4 :: byte] \<le> 2 * 8" by simp
  with f(2) len have "poke_bytes (page_table small_view k') (sk_files k') (4096 + 6) [1, 2, 3, 4] =
      Inr ((sk_files k')(f := ring_store (sk_files k' f) 6 [1, 2, 3, 4]))"
    by blast
  moreover have "ring_store (sk_files k' f) 6 [1, 2, 3, 4] = [3, 4, 0, 0, 0, 0, 1, 2]"
  proof -
    have "sk_files k' f = replicate 8 0" using f(1) by (simp add: small_view_def)
    moreover have "ring_store (replicate 8 0) 6 [1, 2, 3, 4] = [3, 4, 0, 0, 0, 0, 1, 2]" by code_simp
    ultimately show ?thesis by simp
  qed
  ultimately show ?thesis using m
    by (intro exI [of _ 4096] exI [of _ k'] exI [of _ f]) (simp add: small_view_def del: fun_upd_apply poke_bytes.simps)
qed

text \<open>
  The small kernel with a disk that is full: \<open>map_buffer\<close> returns the address of a mapping that faults on the first
  access, where the comment before the call says what the call is there to avoid.
\<close>

definition full_disk_api :: "(small_kernel, string) kernel" where
  "full_disk_api = small_api\<lparr>k_ftruncate := (\<lambda>k fd n. (-1, k))\<rparr>"

lemma failed_ftruncate_unnoticed:
  "\<exists>a k'. map_buffer full_disk_api small_start 8 = (Some a, k') \<and> peek (sk_pages k') (sk_files k') a = Inl OutOfBounds"
  by (simp add: full_disk_api_def map_buffer_def map_halves_def small_api_def small_mmap_def small_start_def Let_def
      peek_def remap_def whole_pages_def)

end
