(* ===== verification/Context_Types.thy ===== *)
theory Context_Types
  imports Packet_Streams
begin

text \<open>
  The well-formed states of a capture thread, and that every block of bytes the kernel may hand over leads from
  a well-formed state to a well-formed one: whatever was sent to the port, the fragments stay within
  their memory and the ring holds whole summaries, which is what the latency thread relies on.
\<close>

subsection \<open>Well-formed states\<close>

text \<open>
  A fragment: its length is that of bytes that were written, within the room of its block of memory. A
  record of the ring: a summary whose \<open>key_len\<close> is the length of its key, which ends with a NUL.
\<close>

definition fragment_ok :: "fragment \<Rightarrow> bool" where
  "fragment_ok f \<longleftrightarrow> 0 \<le> frag_len f \<and> frag_len f \<le> int (length (frag_s f)) \<and>
     int (length (frag_s f)) \<le> FRAGMENT_CAPACITY \<and> frag_capacity f = FRAGMENT_CAPACITY"

definition fragments_ok :: "(ipv4_stream \<Rightarrow> fragment option) option \<Rightarrow> bool" where
  "fragments_ok st \<longleftrightarrow> (\<forall>m sid f. st = Some m \<longrightarrow> m sid = Some f \<longrightarrow> fragment_ok f)"

definition record_ok :: "byte list \<Rightarrow> bool" where
  "record_ok r \<longleftrightarrow> (\<exists>tv_sec tv_nsec t key. r = summary_bytes tv_sec tv_nsec t key)"

definition context_ok :: "nat \<Rightarrow> vmars_capture_context \<Rightarrow> byte list list \<Rightarrow> bool" where
  "context_ok n ctx rs \<longleftrightarrow> rb_holds n (ctx_rb ctx) rs 0 \<and> (\<forall>r\<in>set rs. record_ok r) \<and>
     fragments_ok (ctx_state ctx) \<and> matcher_for FIX_PATTERN (ctx_matcher ctx)"

text \<open>
  A step of the thread: it keeps the state well-formed, only adds records to the ring and changes neither
  the port nor the matcher.
\<close>

definition well_kept :: "nat \<Rightarrow> vmars_capture_context \<Rightarrow> byte list list \<Rightarrow> vmars_capture_context \<Rightarrow> bool" where
  "well_kept n ctx rs ctx' \<longleftrightarrow> (\<exists>qs. context_ok n ctx' (rs @ qs)) \<and> ctx_port ctx' = ctx_port ctx \<and>
     ctx_matcher ctx' = ctx_matcher ctx"

lemma well_kept_refl: "context_ok n ctx rs \<Longrightarrow> well_kept n ctx rs ctx"
  unfolding well_kept_def by (intro conjI exI [of _ "[]"]) simp_all

lemma well_kept_trans:
  assumes "well_kept n a rs b" and "\<And>qs. context_ok n b (rs @ qs) \<Longrightarrow> well_kept n b (rs @ qs) c"
  shows "well_kept n a rs c"
proof -
  obtain qs where "context_ok n b (rs @ qs)" using assms(1) by (auto simp: well_kept_def)
  with assms(2) obtain ps where "context_ok n c (rs @ (qs @ ps))" "ctx_port c = ctx_port b" "ctx_matcher c = ctx_matcher b"
    by (fastforce simp: well_kept_def)
  then show ?thesis using assms(1) by (auto simp: well_kept_def)
qed

lemma well_kept_counters [simp]:
  "well_kept n ctx rs (ctx'\<lparr>ctx_counters := c\<rparr>) = well_kept n ctx rs ctx'"
  "context_ok n (ctx'\<lparr>ctx_counters := c\<rparr>) rs = context_ok n ctx' rs"
  by (simp_all add: well_kept_def context_ok_def)

lemma well_kept_from_counters [simp]: "well_kept n (ctx\<lparr>ctx_counters := c\<rparr>) rs ctx' = well_kept n ctx rs ctx'"
  by (simp add: well_kept_def)

subsection \<open>Fragments\<close>

text \<open>A length that fits in the block of memory as a \<open>size_t\<close> was not negative.\<close>

lemma small_size:
  assumes "int (int_to_size x) \<le> 4088" and "- (2 ^ 62) \<le> x" and "x < 2 ^ 62"
  shows "0 \<le> x \<and> x \<le> 4088 \<and> int (int_to_size x) = x"
proof (cases "0 \<le> x")
  case True
  then show ?thesis using assms by (simp add: int_to_size_def)
next
  case False
  have "x mod 2 ^ 64 = (x + 2 ^ 64) mod 2 ^ 64" by simp
  also have "\<dots> = x + 2 ^ 64" using assms False by (intro mod_pos_pos_trivial) simp_all
  finally show ?thesis using assms False by (simp add: int_to_size_def)
qed

lemma fragment_store_ok:
  assumes "fragment_store f off src len = Inr f'" and "int (length (frag_s f)) \<le> FRAGMENT_CAPACITY"
  shows "0 \<le> off \<and> off + int len \<le> FRAGMENT_CAPACITY \<and> off + int len \<le> int (length (frag_s f')) \<and>
    int (length (frag_s f')) \<le> FRAGMENT_CAPACITY \<and> frag_capacity f' = frag_capacity f \<and> frag_len f' = frag_len f"
  using assms by (auto simp: fragment_store_def and_then_eq_Inr dest!: c_strncpy_length split: if_splits)

lemma new_fragment_room: "int (length (frag_s new_fragment)) \<le> FRAGMENT_CAPACITY" "frag_capacity new_fragment = FRAGMENT_CAPACITY"
  by (simp_all add: new_fragment_def FRAGMENT_CAPACITY_def MAX_FRAGMENT_TOTAL_SIZE_def)

lemma put_fragment_kept:
  assumes put: "put_fragment ctx sid message len = Inr ctx'" and ok: "context_ok n ctx rs"
    and len: "- (2 ^ 62) \<le> len" "len < 2 ^ 62"
  shows "well_kept n ctx rs ctx'"
proof -
  let ?m = "case ctx_state ctx of None \<Rightarrow> Map.empty | Some m \<Rightarrow> m"
  let ?f = "case ?m sid of None \<Rightarrow> new_fragment | Some f \<Rightarrow> f"
  have old: "fragment_ok f" if "?m s = Some f" for s f
    using that ok by (auto simp: context_ok_def fragments_ok_def split: option.splits)
  then have f: "int (length (frag_s ?f)) \<le> FRAGMENT_CAPACITY" "frag_capacity ?f = FRAGMENT_CAPACITY"
    using new_fragment_room by (auto simp: fragment_ok_def split: option.splits)
  obtain g where g: "fragment_store ?f 0 message (int_to_size len) = Inr g"
    "ctx' = ctx\<lparr>ctx_state := Some (?m(sid \<mapsto> g\<lparr>frag_len := len\<rparr>))\<rparr>"
    using put by (auto simp: put_fragment_def Let_def and_then_eq_Inr)
  note s = fragment_store_ok [OF g(1) f(1)]
  have "int (int_to_size len) \<le> 4088" using s by (simp add: capacity_value)
  with s f(2) small_size [OF _ len] have "fragment_ok (g\<lparr>frag_len := len\<rparr>)" by (simp add: fragment_ok_def)
  with old have "fragments_ok (ctx_state ctx')" unfolding g(2) by (auto simp: fragments_ok_def)
  then have "context_ok n ctx' rs" using ok unfolding g(2) by (simp add: context_ok_def)
  from well_kept_refl [OF this] show ?thesis unfolding g(2) by (simp add: well_kept_def)
qed

lemma remove_fragment_kept:
  assumes "context_ok n ctx rs"
  shows "well_kept n ctx rs (remove_fragment ctx sid)"
proof -
  have "context_ok n (remove_fragment ctx sid) rs"
    using assms by (auto simp: remove_fragment_def context_ok_def fragments_ok_def split: option.splits if_splits)
  then show ?thesis
    by (auto simp: well_kept_def remove_fragment_def split: option.splits intro!: exI [of _ "[]"])
qed

subsection \<open>The details of a message\<close>

text \<open>A string of the details has at most \<open>L\<close> bytes, and they lie in memory.\<close>

definition str_fits :: "nat \<Rightarrow> fix_str \<Rightarrow> bool" where
  "str_fits L s \<longleftrightarrow> (\<exists>b. str_ok s b \<and> length b \<le> L)"

definition details_fit :: "nat \<Rightarrow> fix_details \<Rightarrow> bool" where
  "details_fit L d \<longleftrightarrow> str_fits L (sender_comp_id d) \<and> str_fits L (cl_ord_id d) \<and> str_fits L (target_comp_id d) \<and>
     str_fits L (symbol d) \<and> str_fits L (security_id d)"

lemma str_fits_null [simp]: "str_fits L null_str"
  by (simp add: str_fits_def)

lemma details_fit_zero [simp]: "details_fit L details_zero"
  by (simp add: details_fit_def details_zero_def)

lemma str_fits_of:
  assumes "0 \<le> len" "len \<le> int (length v)" "length v \<le> L" "L < 2 ^ 31"
  shows "str_fits L (fix_str_of v len)"
proof -
  have n: "int_to_size len = nat len" using assms by (intro int_to_size_in) simp_all
  have "nat len \<le> length v" using assms by simp
  then obtain r where "c_strncpy v (nat len) = Inr r" using c_strncpy_total by blast
  then have "str_ok (fix_str_of v len) r" "length r = nat len"
    using assms(1) n by (auto simp: str_ok_def str_bytes_def fix_str_of_def dest: c_strncpy_length)
  then show ?thesis using assms by (auto simp: str_fits_def)
qed

lemma handle_tag_fits:
  assumes "handle_tag d t v len = Inr d'" and "details_fit L d"
    and "0 \<le> len" "len \<le> int (length v)" "length v \<le> L" "L < 2 ^ 31"
  shows "details_fit L d'"
proof -
  note fits = str_fits_of [OF assms(3-6)] and effects = handle_tag_effects [OF assms(1)]
  have d: "str_fits L (sender_comp_id d)" "str_fits L (cl_ord_id d)" "str_fits L (target_comp_id d)"
    "str_fits L (symbol d)" "str_fits L (security_id d)" using assms(2) by (simp_all only: details_fit_def)
  have one: "str_fits L (if b then fix_str_of v len else s)" if "str_fits L s" for b s
    using that fits by (simp split: if_split)
  show ?thesis unfolding details_fit_def effects by (intro conjI one d)
qed

lemma value_loop_bounds:
  "value_loop buf len p = Inr (p', e) \<Longrightarrow> e \<noteq> -1 \<Longrightarrow> p \<le> e \<and> e < int (length buf)"
proof (induction buf len p rule: value_loop.induct)
  case (1 buf len p)
  from "1.prems" show ?case
    by (subst (asm) value_loop.simps)
       (auto simp: and_then_eq_Inr c_read_def split: if_splits dest!: "1.IH")
qed

lemma fields_loop_fits:
  "fields_loop buf len 0 checksum handle_tag p d = Inr (r, d') \<Longrightarrow> details_fit L d \<Longrightarrow>
    length buf \<le> L \<Longrightarrow> L < 2 ^ 31 \<Longrightarrow> details_fit L d'"
proof (induction "nat (len - p)" arbitrary: p d rule: less_induct)
  case less
  obtain f where f: "tag_loop buf len p 0 = Inr f"
    using less.prems(1) by (subst (asm) fields_loop.simps) (auto simp: and_then_eq_Inr)
  show ?case
  proof (cases f)
    case (Early e)
    then show ?thesis using less.prems f by (subst (asm) fields_loop.simps) simp
  next
    case (Go x)
    obtain q tag where x: "x = (q, tag)" by (cases x)
    have pq: "p \<le> q" using number_loop_mono [of EQ] f Go x by (simp add: tag_loop_def)
    obtain p' e where v: "value_loop buf len q = Inr (p', e)"
      using less.prems(1) f Go x by (subst (asm) fields_loop.simps) (auto simp: and_then_eq_Inr)
    show ?thesis
    proof (cases "e = -1")
      case True
      then show ?thesis using less.prems f Go x v by (subst (asm) fields_loop.simps) simp
    next
      case False
      from less.prems(1) f Go x v False obtain w d1 where w: "c_offset buf q = Inr w" "handle_tag d tag w (e - q) = Inr d1"
        "(if p' < len then fields_loop buf len 0 checksum handle_tag p' d1 else Inr (None, d1)) = Inr (r, d')"
        by (subst (asm) fields_loop.simps) (auto simp: and_then_eq_Inr plain_options)
      have "w = drop (nat q) buf" "0 \<le> q" using w(1) by (auto simp: c_offset_def split: if_splits)
      then have "details_fit L d1"
        using value_loop_bounds [OF v False] less.prems by (intro handle_tag_fits [OF w(2)]) auto
      moreover have "p < p'" using value_loop_mono [OF v False] pq by simp
      ultimately show ?thesis
        using w(3) less.prems less.hyps [of p' d1] by (auto split: if_splits)
    qed
  qed
qed

lemma number_loop_nonneg:
  "number_loop delim buf len p acc = Inr (Go (p', acc')) \<Longrightarrow> 0 \<le> acc \<Longrightarrow> 0 \<le> acc'"
proof (induction delim buf len p acc rule: number_loop.induct)
  case (1 delim buf len p acc)
  from "1.prems" show ?case
    by (subst (asm) number_loop.simps)
       (auto simp: and_then_eq_Inr c_int_def is_digit_def split: if_splits dest!: "1.IH")
qed

text \<open>
  Whatever the parser returns, for any length it is told: it has consumed a part of that length, and the strings
  it hands to the callback lie in the memory it has read.
\<close>

lemma parse_fits:
  assumes "vmars_fix_parse_msg buf len details_zero None handle_tag None 0 = Inr (r, d)"
    and "length buf \<le> L" "L < 2 ^ 31"
  shows "details_fit L d \<and> (len < 0 \<longrightarrow> r = \<lparr>pr_result = FIX_EMESSAGETOOSHORT, pr_bytes_consumed = len\<rparr>) \<and>
    (0 \<le> len \<longrightarrow> 0 \<le> pr_bytes_consumed r \<and> pr_bytes_consumed r \<le> len)"
proof (cases "INITIAL_HEADER_LEN > len")
  case True
  then show ?thesis using assms(1) by (auto simp: vmars_fix_parse_msg_def parse_result_def)
next
  case False
  then have len: "12 \<le> len" by (simp add: INITIAL_HEADER_LEN_def)
  note fits = fields_loop_fits [OF _ details_fit_zero assms(2,3)]
  obtain b42 b44 where b: "c_strncmp_eq buf INITIAL_HEADER_42 (nat INITIAL_HEADER_LEN) = Inr b42"
    "c_strncmp_eq buf INITIAL_HEADER_44 (nat INITIAL_HEADER_LEN) = Inr b44"
    using assms(1) False by (auto simp: vmars_fix_parse_msg_def and_then_eq_Inr)
  show ?thesis
  proof (cases "b42 \<or> b44")
    case False
    then show ?thesis using assms(1) \<open>\<not> INITIAL_HEADER_LEN > len\<close> b len
      by (auto simp: vmars_fix_parse_msg_def parse_result_def)
  next
    case True
    then have ty: "(if b44 then 44 else if b42 then 42 else - 1) \<noteq> (- 1 :: int)" by auto
    note parse = assms(1) [unfolded vmars_fix_parse_msg_def if_not_P [OF False] b and_then_Inr Let_def if_not_P [OF ty] option.case(1)]
    obtain f where f: "body_length_loop buf len INITIAL_HEADER_LEN 0 = Inr f"
      using parse by (auto simp: and_then_eq_Inr)
    show ?thesis
    proof (cases f)
      case (Early e)
      then show ?thesis using parse f len number_loop_Early [of SOH buf len 12 0 e]
        by (auto simp: body_length_loop_def INITIAL_HEADER_LEN_def)
    next
      case (Go x)
      obtain p m where x: "x = (p, m)" by (cases x)
      have m: "0 \<le> m" "12 \<le> p"
        using f Go x number_loop_nonneg [of SOH buf len 12 0] number_loop_mono [of SOH buf len 12 0]
        by (auto simp: body_length_loop_def INITIAL_HEADER_LEN_def)
      show ?thesis
      proof (cases "0 = m \<or> m > (len - p) - CHECK_SUM_LEN")
        case True
        then show ?thesis using parse f Go x len by (auto simp: parse_result_def)
      next
        case False
        then have l: "m + p + CHECK_SUM_LEN \<le> len" "0 \<le> m + p + CHECK_SUM_LEN" using m by (auto simp: CHECK_SUM_LEN_def)
        have loop: "details_fit L d2 \<and> (\<forall>e. ro = Some e \<longrightarrow> pr_bytes_consumed e = m + p + CHECK_SUM_LEN)"
          if "fields_loop buf (m + p + CHECK_SUM_LEN) 0 c handle_tag p details_zero = Inr (ro, d2)" for c ro d2
          using fits [OF that] that by (auto dest: fields_loop_Some)
        from parse f Go x False show ?thesis
          using l len
          by (auto simp: and_then_eq_Inr parse_result_def dest!: loop split: if_split_asm option.split_asm)
      qed
    qed
  qed
qed

subsection \<open>A message\<close>

text \<open>A summary is always written whole, or not at all when the ring is full.\<close>

lemma process_kept:
  assumes ok: "context_ok n ctx rs" and fit: "details_fit L d" and L: "L \<le> 2 ^ 28"
  shows "\<exists>ctx'. process_for_latency_measurement ctx tv_sec tv_nsec d = Inr ctx' \<and> well_kept n ctx rs ctx'"
proof (cases "fst (latency_ids d)")
  case False
  then show ?thesis using process_skips well_kept_refl [OF ok] by blast
next
  case True
  then obtain remote local instruction where ids: "latency_ids d = (True, remote, local, instruction)"
    by (cases "latency_ids d") auto
  have "str_fits L remote \<and> str_fits L local \<and> str_fits L instruction \<and> str_fits L (instrument_id d)"
    using ids fit by (auto simp: latency_ids_def instrument_id_def details_fit_def split: if_splits)
  then obtain b1 b2 b3 b4 where b: "str_ok remote b1" "str_ok local b2" "str_ok instruction b3" "str_ok (instrument_id d) b4"
    "length b1 \<le> L" "length b2 \<le> L" "length b3 \<le> L" "length b4 \<le> L" by (auto simp: str_fits_def)
  let ?p = "summary_bytes tv_sec tv_nsec (message_type d) (latency_key b1 b2 b3 b4)"
  have holds: "rb_holds n (ctx_rb ctx) rs 0" using ok by (simp add: context_ok_def)
  have "length ?p < 2 ^ 31" using b(5-8) L by (simp add: summary_bytes_def latency_key_def)
  from process_ok [OF holds ids b(1-4) refl this] obtain rb' where p: "process_for_latency_measurement ctx tv_sec tv_nsec d =
      Inr (ctx\<lparr>ctx_counters := record_message_type_counter (ctx_counters ctx) (message_type d), ctx_rb := rb'\<rparr>)"
    "rb_holds n rb' (if rb_room n rs ?p then rs @ [?p] else rs) 0" by blast
  let ?qs = "if rb_room n rs ?p then [?p] else []"
  have "rb_holds n rb' (rs @ ?qs) 0" using p(2) by (simp split: if_splits)
  moreover have "record_ok ?p" unfolding record_ok_def by blast
  ultimately have c: "context_ok n (ctx\<lparr>ctx_counters := record_message_type_counter (ctx_counters ctx) (message_type d),
      ctx_rb := rb'\<rparr>) (rs @ ?qs)" (is "context_ok n ?ctx' _")
    using ok by (auto simp: context_ok_def)
  have "well_kept n ctx rs ?ctx'"
    unfolding well_kept_def by (intro conjI, rule exI, rule c) simp_all
  with p(1) show ?thesis by blast
qed

lemma try_parse_kept:
  assumes t: "try_parse_fix_message ctx m len = Inr (r, d, ctx')" and ok: "context_ok n ctx rs"
    and m: "length m \<le> L" "L < 2 ^ 31"
  shows "well_kept n ctx rs ctx' \<and> details_fit L d \<and>
    (len < 0 \<longrightarrow> r = \<lparr>pr_result = FIX_EMESSAGETOOSHORT, pr_bytes_consumed = len\<rparr>) \<and>
    (0 \<le> len \<longrightarrow> 0 \<le> pr_bytes_consumed r \<and> pr_bytes_consumed r \<le> len)"
proof -
  obtain c where c: "vmars_fix_parse_msg m len details_zero None handle_tag None 0 = Inr (r, d)"
    "ctx' = ctx\<lparr>ctx_counters := c\<rparr>"
    using t by (auto simp: try_parse_fix_message_def and_then_eq_Inr Let_def)
  then show ?thesis using parse_fits [OF c(1) m] well_kept_refl [OF ok] by simp
qed

subsection \<open>The rest of a fragmented message\<close>

lemma leading_fragment_kept:
  assumes lead: "leading_fragment ctx sid tv_sec tv_nsec data data_len fragment_len = Inr ctx'"
    and ok: "context_ok n ctx rs"
  shows "well_kept n ctx rs ctx'"
proof (cases "get_fragment ctx sid")
  case None
  have "- (2 ^ 62) \<le> size_to_int data_len" "size_to_int data_len < 2 ^ 62"
    by (simp_all add: size_to_int_def) 
  then show ?thesis
    using lead None put_fragment_kept [OF _ ok] well_kept_refl [OF ok]
    by (auto simp: leading_fragment_def Let_def split: if_splits)
next
  case (Some f)
  have f: "fragment_ok f"
    using Some ok by (auto simp: get_fragment_def context_ok_def fragments_ok_def split: option.splits)
  show ?thesis
  proof (cases "size_add (int_to_size (frag_len f)) fragment_len < int_to_size (frag_capacity f)")
    case False
    then show ?thesis using lead Some well_kept_refl [OF ok] by (simp add: leading_fragment_def)
  next
    case True
    let ?m = "case ctx_state ctx of None \<Rightarrow> Map.empty | Some m \<Rightarrow> m"
    let ?len = "size_to_int (size_add (int_to_size (frag_len f)) fragment_len)"
    have "and_then (fragment_store f (frag_len f) data fragment_len) (\<lambda>g.
        and_then (try_parse_fix_message (ctx\<lparr>ctx_state := Some (?m(sid \<mapsto> g\<lparr>frag_len := ?len\<rparr>))\<rparr>) (frag_s g) ?len) (\<lambda>(r, d, ctx2).
        and_then (if pr_result r = 0 then process_for_latency_measurement ctx2 tv_sec tv_nsec d else Inr ctx2) (\<lambda>ctx3.
        Inr (if pr_result r \<noteq> FIX_EMESSAGETOOSHORT then remove_fragment ctx3 sid else ctx3)))) = Inr ctx'"
      using lead Some True by (simp add: leading_fragment_def Let_def)
    then obtain g x where g: "fragment_store f (frag_len f) data fragment_len = Inr g"
      and x: "try_parse_fix_message (ctx\<lparr>ctx_state := Some (?m(sid \<mapsto> g\<lparr>frag_len := ?len\<rparr>))\<rparr>) (frag_s g) ?len = Inr x"
      "(case x of (r, d, ctx2) \<Rightarrow>
        and_then (if pr_result r = 0 then process_for_latency_measurement ctx2 tv_sec tv_nsec d else Inr ctx2) (\<lambda>ctx3.
        Inr (if pr_result r \<noteq> FIX_EMESSAGETOOSHORT then remove_fragment ctx3 sid else ctx3))) = Inr ctx'"
      by (elim and_thenE) blast
    obtain r d ctx2 where rd: "x = (r, d, ctx2)" by (cases x)
    note t = x(1) [unfolded rd]
    obtain ctx3 where p: "(if pr_result r = 0 then process_for_latency_measurement ctx2 tv_sec tv_nsec d else Inr ctx2) = Inr ctx3"
      and ctx': "ctx' = (if pr_result r \<noteq> FIX_EMESSAGETOOSHORT then remove_fragment ctx3 sid else ctx3)"
      using x(2) unfolding rd prod.case by (elim and_thenE) (blast dest: sum.inject(2) [THEN iffD1])
    have cap: "int (length (frag_s f)) \<le> FRAGMENT_CAPACITY" using f by (simp add: fragment_ok_def)
    note s = fragment_store_ok [OF g cap, unfolded capacity_value]
    have "int_to_size (frag_len f) = nat (frag_len f)" using s by (intro int_to_size_in) simp_all
    moreover have "nat (frag_len f) + fragment_len < 2 ^ 31"
    proof -
      have "int (nat (frag_len f) + fragment_len) \<le> 4088" using s by simp
      then have "nat (frag_len f) + fragment_len \<le> 4088" by linarith
      then show ?thesis by simp
    qed
    ultimately have "?len = frag_len f + int fragment_len"
      using s by (simp add: size_add_in size_to_int_in)
    then have new: "fragment_ok (g\<lparr>frag_len := ?len\<rparr>)"
      using s f by (simp add: fragment_ok_def capacity_value)
    have old: "fragment_ok h" if "?m s = Some h" for s h
      using that ok by (auto simp: context_ok_def fragments_ok_def split: option.splits)
    let ?ctx1 = "ctx\<lparr>ctx_state := Some (?m(sid \<mapsto> g\<lparr>frag_len := ?len\<rparr>))\<rparr>"
    have "context_ok n ?ctx1 rs"
      using ok new old by (auto simp: context_ok_def fragments_ok_def)
    note ok1 = this
    have k1: "well_kept n ctx rs ?ctx1" using well_kept_refl [OF ok1] by (simp add: well_kept_def)
    have "length (frag_s g) \<le> 4088" using s by simp
    then have k2: "well_kept n ?ctx1 rs ctx2" "details_fit 4088 d" using try_parse_kept [OF t ok1, of 4088] by simp_all
    have k3: "well_kept n ctx2 (rs @ qs) ctx3" if "context_ok n ctx2 (rs @ qs)" for qs
      using p process_kept [OF that k2(2), of tv_sec tv_nsec] well_kept_refl [OF that] by (auto split: if_splits)
    have k4: "well_kept n ctx3 (rs @ qs) ctx'" if "context_ok n ctx3 (rs @ qs)" for qs
      using remove_fragment_kept [OF that] well_kept_refl [OF that] by (simp add: ctx')
    have "well_kept n ?ctx1 rs ctx'"
      by (rule well_kept_trans [OF well_kept_trans [OF k2(1) k3] k4])
    with k1 show ?thesis by (simp add: well_kept_def)
  qed
qed

subsection \<open>The messages of a packet\<close>

lemma bm_compare_found: "bm_compare pat hay j k = Inr (-1, k') \<Longrightarrow> 0 \<le> j \<Longrightarrow> 0 \<le> k' + 1"
proof (induction pat hay j k rule: bm_compare.induct)
  case (1 pat hay j k)
  then obtain h c where h: "c_read hay k = Inr h" "c_read pat j = Inr c"
    by (subst (asm) bm_compare.simps) (auto simp: and_then_eq_Inr)
  have k: "0 \<le> k" using h(1) by (simp add: c_read_def split: if_splits)
  have step: "bm_compare pat hay (j - 1) (k - 1) = Inr (-1, k')"
    using "1.prems" h by (subst (asm) bm_compare.simps) (auto split: if_splits)
  show ?case
  proof (cases "0 \<le> j - 1")
    case True
    have "h = c" using "1.prems" h by (subst (asm) bm_compare.simps) (auto split: if_splits)
    from "1.IH" [OF "1.prems"(2) h this step True] show ?thesis .
  next
    case False
    then show ?thesis using step k by (subst (asm) bm_compare.simps) simp
  qed
qed

lemma bm_scan_found:
  "bm_scan fuel m hay n i = Inr (Some r) \<Longrightarrow> 0 \<le> size_to_int (size_sub (bm_len m) 1) \<Longrightarrow> 0 \<le> r"
proof (induction fuel arbitrary: i)
  case (Suc fuel)
  then show ?case by (auto simp: and_then_eq_Inr dest!: bm_compare_found split: if_splits)
qed simp

lemma search_found:
  assumes "boyermoore_search m hay n = Inr (Some r)" and "matcher_for p m"
  shows "0 \<le> r"
proof -
  have "0 < bm_len m" "bm_len m < 2 ^ 31" using assms(2) by (auto simp: matcher_for_def)
  then have "0 \<le> size_to_int (size_sub (bm_len m) 1)" by (simp add: size_sub_in size_to_int_in)
  then show ?thesis using assms(1) by (auto simp: boyermoore_search_def simp del: bm_scan.simps split: if_splits dest: bm_scan_found)
qed

lemma find_next_found:
  assumes "find_next m data current rem = Inr (Some k)" and "matcher_for p m"
  shows "current \<le> k"
proof -
  obtain q r where "boyermoore_search m q (rem - size_to_int (bm_len m)) = Inr (Some r)" "k = current + int (bm_len m) + r"
    using assms(1) by (auto simp: find_next_def Let_def and_then_eq_Inr split: if_splits)
  with search_found [OF _ assms(2)] show ?thesis by fastforce
qed

lemma extract_loop_kept:
  "extract_loop fuel ctx sid tv_sec tv_nsec data current rem = Inr (ctx', rem') \<Longrightarrow> context_ok n ctx rs \<Longrightarrow>
    length data \<le> 2 ^ 28 \<Longrightarrow> - (2 ^ 33) \<le> rem + current \<Longrightarrow> rem < 2 ^ 31 \<Longrightarrow>
    well_kept n ctx rs ctx' \<and> rem' < 2 ^ 31"
proof (induction fuel arbitrary: ctx current rem rs)
  case (Suc fuel)
  obtain nx where nx: "find_next (ctx_matcher ctx) data current rem = Inr nx"
    using Suc.prems(1) by (auto simp: and_then_eq_Inr)
  let ?len = "case nx of None \<Rightarrow> rem | Some k \<Rightarrow> k - current"
  obtain msg x where msg: "c_offset data current = Inr msg" and x: "try_parse_fix_message ctx msg ?len = Inr x"
    using Suc.prems(1) nx by (auto simp: and_then_eq_Inr Let_def)
  obtain r d ctx1 where rd: "x = (r, d, ctx1)" by (cases x)
  let ?rem = "rem - pr_bytes_consumed r"
  obtain ctx2 where c2: "(if pr_result r = 0 then process_for_latency_measurement ctx1 tv_sec tv_nsec d
       else if pr_result r = FIX_EMESSAGETOOSHORT then put_fragment ctx1 sid msg ?len else Inr ctx1) = Inr ctx2"
    and rest: "(case nx of None \<Rightarrow> Inr (ctx2, ?rem)
       | Some k \<Rightarrow> extract_loop fuel ctx2 sid tv_sec tv_nsec data k ?rem) = Inr (ctx', rem')"
    using Suc.prems(1) unfolding extract_loop.simps nx and_then_Inr Let_def msg x rd prod.case by (rule and_thenE)
  have cur: "0 \<le> current" "current \<le> 2 ^ 28" "length msg \<le> 2 ^ 28"
    using msg Suc.prems(3) by (auto simp: c_offset_def split: if_splits)
  have later: "current \<le> k" if "nx = Some k" for k
    using find_next_found nx Suc.prems(2) that by (auto simp: context_ok_def)
  have bounds: "- (2 ^ 62) \<le> ?len" "?len < 2 ^ 62 \<or> (\<exists>k. nx = Some k)"
    using Suc.prems(4,5) cur later by (auto split: option.split)
  have known: "?len < 2 ^ 62" if "nx = Some k" for k
  proof -
    have "k \<le> 2 ^ 28"
      using rest that Suc.prems(3) by (cases fuel) (auto simp: and_then_eq_Inr c_offset_def Let_def split: if_splits)
    then show ?thesis using that cur by simp
  qed
  note parsed = try_parse_kept [OF x [unfolded rd] Suc.prems(2) cur(3)]
  have k1: "well_kept n ctx rs ctx1" and fit: "details_fit (2 ^ 28) d" using parsed by simp_all
  have k2: "well_kept n ctx1 (rs @ qs) ctx2" if "context_ok n ctx1 (rs @ qs)" for qs
    using c2 process_kept [OF that fit, of tv_sec tv_nsec] well_kept_refl [OF that] put_fragment_kept [OF _ that bounds(1), of sid msg]
      bounds(2) known by (auto split: if_splits)
  note k12 = well_kept_trans [OF k1 k2]
  show ?case
  proof (cases nx)
    case None
    then show ?thesis using rest k12 parsed Suc.prems(5) by (cases "rem < 0") auto
  next
    case (Some k)
    have "0 \<le> ?len" using Some later by simp
    then have c: "0 \<le> pr_bytes_consumed r" "pr_bytes_consumed r \<le> k - current" using parsed Some by auto
    have "well_kept n ctx2 (rs @ qs) ctx' \<and> rem' < 2 ^ 31" if "context_ok n ctx2 (rs @ qs)" for qs
      using Suc.IH [OF _ that Suc.prems(3)] rest Some c Suc.prems(4,5) by simp
    moreover obtain qs where "context_ok n ctx2 (rs @ qs)" using k12 by (auto simp: well_kept_def)
    ultimately show ?thesis using well_kept_trans [OF k12] by blast
  qed
qed simp

lemma size_to_int_bounds: "- (2 ^ 31) \<le> size_to_int k" "size_to_int k < 2 ^ 31"
proof -
  have "0 \<le> (int k + 2147483648) mod 4294967296" "(int k + 2147483648) mod 4294967296 < 4294967296" by simp_all
  moreover have "size_to_int k = (int k + 2147483648) mod 4294967296 - 2147483648" by (simp add: size_to_int_def)
  ultimately show "- (2 ^ 31) \<le> size_to_int k" "size_to_int k < 2 ^ 31" by simp_all
qed

lemma extract_kept:
  assumes e: "vmars_extract_fix_messages ctx sa sp da dp tv_sec tv_nsec data data_len = Inr ctx'"
    and ok: "context_ok n ctx rs" and len: "length data \<le> 2 ^ 28"
  shows "well_kept n ctx rs ctx'"
proof -
  let ?sid = "\<lparr>saddr = sa, daddr = da, sport = sp, dport = dp\<rparr>"
  obtain current where cur: "boyermoore_search (ctx_matcher ctx) data (size_to_int data_len) = Inr current"
    using e by (auto simp: vmars_extract_fix_messages_def Let_def and_then_eq_Inr)
  let ?fl = "case current of Some c \<Rightarrow> int_to_size c | None \<Rightarrow> data_len"
  let ?lead = "if current = Some 0 then Inr (ctx, size_to_int data_len)
     else and_then (leading_fragment ctx ?sid tv_sec tv_nsec data data_len ?fl) (\<lambda>ctx'.
       Inr (ctx', size_to_int (size_sub (int_to_size (size_to_int data_len)) ?fl)))"
  have "and_then ?lead (\<lambda>(ctx1, rem1).
      and_then (case current of None \<Rightarrow> Inr (ctx1, rem1)
         | Some c \<Rightarrow> extract_loop (Suc (length data)) ctx1 ?sid tv_sec tv_nsec data c rem1) (\<lambda>(ctx2, rem2).
      if rem2 > 0 then and_then (c_offset data (int data_len - rem2)) (\<lambda>p. put_fragment ctx2 ?sid p rem2)
      else Inr ctx2)) = Inr ctx'"
    using e unfolding vmars_extract_fix_messages_def Let_def cur and_then_Inr .
  then obtain x where x: "?lead = Inr x" and rest: "(\<lambda>(ctx1, rem1).
      and_then (case current of None \<Rightarrow> Inr (ctx1, rem1)
         | Some c \<Rightarrow> extract_loop (Suc (length data)) ctx1 ?sid tv_sec tv_nsec data c rem1) (\<lambda>(ctx2, rem2).
      if rem2 > 0 then and_then (c_offset data (int data_len - rem2)) (\<lambda>p. put_fragment ctx2 ?sid p rem2)
      else Inr ctx2)) x = Inr ctx'" by (rule and_thenE)
  obtain ctx1 rem1 where c1: "x = (ctx1, rem1)" by (cases x)
  have k1: "well_kept n ctx rs ctx1" and rem1: "- (2 ^ 31) \<le> rem1" "rem1 < 2 ^ 31"
    using x leading_fragment_kept [OF _ ok] well_kept_refl [OF ok] size_to_int_bounds
    unfolding c1 by (auto simp: and_then_eq_Inr split: if_splits)
  obtain ctx2 rem2 where c2: "(case current of None \<Rightarrow> Inr (ctx1, rem1)
         | Some c \<Rightarrow> extract_loop (Suc (length data)) ctx1 ?sid tv_sec tv_nsec data c rem1) = Inr (ctx2, rem2)"
    and put: "(if rem2 > 0 then and_then (c_offset data (int data_len - rem2)) (\<lambda>p. put_fragment ctx2 ?sid p rem2)
      else Inr ctx2) = Inr ctx'"
    using rest unfolding c1 prod.case by (elim and_thenE) auto
  have found: "0 \<le> c" if "current = Some c" for c
    using search_found cur ok that by (auto simp: context_ok_def)
  have k2: "well_kept n ctx1 (rs @ qs) ctx2 \<and> rem2 < 2 ^ 31" if "context_ok n ctx1 (rs @ qs)" for qs
  proof (cases current)
    case None
    then show ?thesis using c2 well_kept_refl [OF that] rem1 by simp
  next
    case (Some c)
    have loop: "extract_loop (Suc (length data)) ctx1 ?sid tv_sec tv_nsec data c rem1 = Inr (ctx2, rem2)"
      using c2 unfolding Some option.case .
    show ?thesis using extract_loop_kept [OF loop that len] rem1 found [OF Some] by simp
  qed
  obtain qs1 where "context_ok n ctx1 (rs @ qs1)" using k1 by (auto simp: well_kept_def)
  then have rem2: "rem2 < 2 ^ 31" using k2 by blast
  have k3: "well_kept n ctx2 (rs @ qs) ctx'" if "context_ok n ctx2 (rs @ qs)" for qs
    using put put_fragment_kept [OF _ that] well_kept_refl [OF that] rem2 by (auto simp: and_then_eq_Inr split: if_splits)
  have "well_kept n ctx rs ctx2" using k2 by (intro well_kept_trans [OF k1]) blast
  from well_kept_trans [OF this k3] show ?thesis .
qed

subsection \<open>Blocks\<close>

definition all_kept :: "nat \<Rightarrow> vmars_capture_context \<Rightarrow> byte list list \<Rightarrow> vmars_capture_context res \<Rightarrow> bool" where
  "all_kept n ctx rs m \<longleftrightarrow> (\<forall>ctx'. m = Inr ctx' \<longrightarrow> well_kept n ctx rs ctx')"

lemma all_kept_bind: "(\<And>x. m = Inr x \<Longrightarrow> all_kept n ctx rs (f x)) \<Longrightarrow> all_kept n ctx rs (and_then m f)"
  by (auto simp: all_kept_def and_then_eq_Inr)

lemma all_kept_if: "all_kept n ctx rs x \<Longrightarrow> all_kept n ctx rs y \<Longrightarrow> all_kept n ctx rs (if b then x else y)"
  by simp

lemma all_kept_Inr: "context_ok n ctx rs \<Longrightarrow> all_kept n ctx rs (Inr ctx)"
  by (simp add: all_kept_def well_kept_refl)

lemma all_kept_extract:
  "c_offset blk p = Inr data \<Longrightarrow> context_ok n ctx rs \<Longrightarrow> length blk \<le> 2 ^ 28 \<Longrightarrow>
    all_kept n ctx rs (vmars_extract_fix_messages ctx sa sp da dp s ns data len)"
  using extract_kept by (auto simp: all_kept_def c_offset_def split: if_splits)

lemma display_kept:
  assumes "display ctx blk ppd = Inr ctx'" and "context_ok n ctx rs" and "length blk \<le> 2 ^ 28"
  shows "well_kept n ctx rs ctx'"
proof -
  have "all_kept n ctx rs (display ctx blk ppd)"
    unfolding display_def Let_def
    by (intro all_kept_bind all_kept_if all_kept_Inr assms(2)) (rule all_kept_extract [OF _ assms(2,3)])
  with assms(1) show ?thesis by (simp add: all_kept_def)
qed

lemma walk_packets_kept:
  "walk_packets k ctx blk ppd = Inr ctx' \<Longrightarrow> context_ok n ctx rs \<Longrightarrow> length blk \<le> 2 ^ 28 \<Longrightarrow> well_kept n ctx rs ctx'"
proof (induction k arbitrary: ctx ppd rs)
  case 0
  then show ?case using well_kept_refl by simp
next
  case (Suc k)
  obtain c q where "display ctx blk ppd = Inr c" and w: "walk_packets k c blk q = Inr ctx'"
    using Suc.prems(1) by (auto simp: and_then_eq_Inr)
  from display_kept [OF this(1) Suc.prems(2,3)] Suc.IH [OF w _ Suc.prems(3)] show ?case by (rule well_kept_trans)
qed

lemma walk_block_kept:
  assumes "walk_block ctx blk = Inr ctx'" and "context_ok n ctx rs" and "length blk \<le> 2 ^ 28"
  shows "well_kept n ctx rs ctx'"
proof -
  obtain k q c b where "walk_packets k ctx blk q = Inr c" "ctx' = c\<lparr>ctx_counters := b\<rparr>"
    using assms(1) by (auto simp: walk_block_def and_then_eq_Inr)
  then show ?thesis using walk_packets_kept [OF _ assms(2,3)] by simp
qed

lemma walk_blocks_kept:
  "walk_blocks bs ctx = Inr ctx' \<Longrightarrow> context_ok n ctx rs \<Longrightarrow> \<forall>b\<in>set bs. length b \<le> 2 ^ 28 \<Longrightarrow> well_kept n ctx rs ctx'"
proof (induction bs arbitrary: ctx rs)
  case Nil
  then show ?case using well_kept_refl by simp
next
  case (Cons b bs)
  obtain c where "walk_block ctx b = Inr c" and w: "walk_blocks bs c = Inr ctx'"
    using Cons.prems(1) by (auto simp: and_then_eq_Inr)
  then show ?case using Cons.prems walk_block_kept by (intro well_kept_trans [OF _ Cons.IH]) auto
qed

text \<open>
  C11: Whatever bytes the kernel hands over, in any number of blocks (frames that are cut, garbage, messages that lie
  about their length), a capture thread that comes back from them is in a well-formed state again: each
  fragment's length is that of bytes written within its memory, the ring still holds the summaries it held and
  behind them whole ones only, each with a key of the length it says and a NUL, and the port and the matcher
  are the same.
\<close>

theorem context_well_formed:
  assumes "context_ok n ctx rs" and "\<forall>b\<in>set bs. length b \<le> 2 ^ 28" and "walk_blocks bs ctx = Inr ctx'"
  shows "\<exists>qs. context_ok n ctx' (rs @ qs) \<and> ctx_port ctx' = ctx_port ctx \<and> ctx_matcher ctx' = ctx_matcher ctx"
  using walk_blocks_kept [OF assms(3,1,2)] by (auto simp: well_kept_def)

lemma sample_ctx_ok: "context_ok 12 sample_ctx []"
  using sample_ctx_ring fix_matcher by (simp add: context_ok_def fragments_ok_def sample_ctx_def)

lemma sample_walk: "\<exists>ctx'. walk_blocks sample_blocks sample_ctx = Inr ctx'"
proof -
  obtain x where "deliver_stream sample_out sample_ctx = Inr x"
    using deliver_stream_events [of sample_out 12 sample_ctx "[]"] sample_understood sample_ctx_ring sample_events_fit
    by auto
  moreover have "keeps sample_ctx (\<lambda>_. [])" using sample_start by (simp add: keeps_def)
  ultimately show ?thesis
    using walk_blocks_deliver [OF sample_blocks_hold refl sample_carried [folded sample_port]] by fastforce
qed

lemma sample_blocks_short: "\<forall>b\<in>set sample_blocks. length b \<le> 2 ^ 28"
proof -
  have "length (msg_bytes order_message) < 4088" "length (msg_bytes report_message) < 4088"
    using good_length [OF order_message_good] good_length [OF report_message_good] by (simp_all add: report_message_def)
  then show ?thesis
    by (simp add: sample_blocks_def sample_frames_def sample_block_def sample_frame_def frame_bytes_def min_def sample_arp_ok(3)) linarith
qed

theorem context_well_formed_witness:
  "\<exists>ctx' qs. walk_blocks sample_blocks sample_ctx = Inr ctx' \<and> context_ok 12 ctx' qs \<and> ctx_port ctx' = 9880"
  using sample_walk context_well_formed [OF sample_ctx_ok sample_blocks_short] sample_port by fastforce

end
