(* ===== verification/Counters_TSO.thy ===== *)
theory Counters_TSO
  imports Counter_Handler
begin

text \<open>
  The counters on the store buffers of x86-64: a capture thread increments them with a plain load and the
  release store of \<^verbatim>\<open>src/atomic.h\<close>, the counter thread of \<^verbatim>\<open>src/counter_handler.c\<close> reads them one by one without
  any synchronisation. Every value it reads is that of a point of the capture thread's own history, and the points
  never go back. The descriptor of its socket is stored once, with a locked exchange, before the first increment.
\<close>

subsection \<open>Counters by name\<close>

datatype counter_field =
  Valid_Messages | Invalid_Checksums | Corrupt_Messages | Mass_Quote | Mass_Quote_Ack | New_Order_Single
| Execution_Report_New | Trace_Request | Trace_Response | Bytes_Total | Parsing_Errors

fun get_counter :: "counter_field \<Rightarrow> vmars_monitoring_counters \<Rightarrow> 64 word" where
  "get_counter Valid_Messages = valid_messages"
| "get_counter Invalid_Checksums = invalid_checksums"
| "get_counter Corrupt_Messages = corrupt_messages"
| "get_counter Mass_Quote = mass_quote_count"
| "get_counter Mass_Quote_Ack = mass_quote_ack_count"
| "get_counter New_Order_Single = new_order_single_count"
| "get_counter Execution_Report_New = execution_report_new_count"
| "get_counter Trace_Request = trace_request_count"
| "get_counter Trace_Response = trace_repsonse_count"
| "get_counter Bytes_Total = bytes_total"
| "get_counter Parsing_Errors = parsing_errors"

fun set_counter :: "counter_field \<Rightarrow> 64 word \<Rightarrow> vmars_monitoring_counters \<Rightarrow> vmars_monitoring_counters" where
  "set_counter Valid_Messages v c = c\<lparr>valid_messages := v\<rparr>"
| "set_counter Invalid_Checksums v c = c\<lparr>invalid_checksums := v\<rparr>"
| "set_counter Corrupt_Messages v c = c\<lparr>corrupt_messages := v\<rparr>"
| "set_counter Mass_Quote v c = c\<lparr>mass_quote_count := v\<rparr>"
| "set_counter Mass_Quote_Ack v c = c\<lparr>mass_quote_ack_count := v\<rparr>"
| "set_counter New_Order_Single v c = c\<lparr>new_order_single_count := v\<rparr>"
| "set_counter Execution_Report_New v c = c\<lparr>execution_report_new_count := v\<rparr>"
| "set_counter Trace_Request v c = c\<lparr>trace_request_count := v\<rparr>"
| "set_counter Trace_Response v c = c\<lparr>trace_repsonse_count := v\<rparr>"
| "set_counter Bytes_Total v c = c\<lparr>bytes_total := v\<rparr>"
| "set_counter Parsing_Errors v c = c\<lparr>parsing_errors := v\<rparr>"

lemma get_set_counter [simp]: "get_counter f (set_counter g v c) = (if f = g then v else get_counter f c)"
  by (cases f; cases g) simp_all

lemma get_counter_zero [simp]: "get_counter f counters_zero = 0"
  by (cases f) (simp_all add: counters_zero_def)

lemma get_counter_fd [simp]: "get_counter f (c\<lparr>fd := v\<rparr>) = get_counter f c"
  by (cases f) simp_all

lemma fd_set_counter [simp]: "fd (set_counter f v c) = fd c"
  by (cases f) simp_all

text \<open>
  The loads of the counter thread from one capture thread, and those of a turn; \<open>None\<close> is the descriptor of its
  socket, which \<open>gather_socket_stats\<close> is called with behind the counters.
\<close>

type_synonym load = "nat \<times> counter_field option"

definition loads_of_thread :: "nat \<Rightarrow> load list" where
  "loads_of_thread t = map (\<lambda>f. (t, Some f)) [Valid_Messages, Invalid_Checksums, Corrupt_Messages, Mass_Quote, Mass_Quote_Ack,
     New_Order_Single, Execution_Report_New, Trace_Request, Trace_Response, Bytes_Total] @ [(t, None)]"

definition loads_of_turn :: "nat \<Rightarrow> load list" where
  "loads_of_turn n = concat (map loads_of_thread [0..<n])"

subsection \<open>The threads\<close>

text \<open>
  A capture thread: its counters in memory, its stores that have not reached them, the counter it has
  loaded into a register, whether it has opened its socket, and, as a ghost, the increments it has made. \<open>cc_view\<close> is
  what it loads: its own stores are forwarded to it. The store of the descriptor is a locked exchange, which needs an empty
  store buffer and is in memory at once; the increments follow it.
\<close>

record capture_counters =
  cc_memory :: vmars_monitoring_counters
  cc_pending :: "(counter_field \<times> 64 word) list"
  cc_loaded :: "(counter_field \<times> 64 word) option"
  cc_history :: "counter_field list"
  cc_running :: bool

definition cc_view :: "capture_counters \<Rightarrow> vmars_monitoring_counters" where
  "cc_view c = fold (\<lambda>(f, v). set_counter f v) (cc_pending c) (cc_memory c)"

text \<open>The two stores of \<^verbatim>\<open>src/atomic.h\<close>: into the store buffer, and, when that is empty (\<open>None\<close>: the store waits), into memory.\<close>

definition vmars_atomic_store_release_i64 :: "counter_field \<Rightarrow> 64 word \<Rightarrow> capture_counters \<Rightarrow> capture_counters" where
  "vmars_atomic_store_release_i64 f v c = c\<lparr>cc_pending := cc_pending c @ [(f, v)]\<rparr>"

definition vmars_atomic_store_seq_cst_int :: "int \<Rightarrow> capture_counters \<Rightarrow> capture_counters option" where
  "vmars_atomic_store_seq_cst_int v c =
     (if cc_pending c = [] then Some (c\<lparr>cc_memory := (cc_memory c)\<lparr>fd := v\<rparr>\<rparr>) else None)"

inductive capture_step :: "capture_counters \<Rightarrow> capture_counters \<Rightarrow> bool" where
  store_fd: "\<not> cc_running c \<Longrightarrow> 0 \<le> v \<Longrightarrow> vmars_atomic_store_seq_cst_int v c = Some c' \<Longrightarrow>
     capture_step c (c'\<lparr>cc_running := True\<rparr>)"
| load_counter: "cc_running c \<Longrightarrow> cc_loaded c = None \<Longrightarrow> capture_step c (c\<lparr>cc_loaded := Some (f, get_counter f (cc_view c))\<rparr>)"
| store_release: "cc_loaded c = Some (f, v) \<Longrightarrow>
     capture_step c ((vmars_atomic_store_release_i64 f (v + 1) c)\<lparr>cc_loaded := None, cc_history := cc_history c @ [f]\<rparr>)"
| store_leaves: "cc_pending c = (f, v) # ps \<Longrightarrow>
     capture_step c (c\<lparr>cc_memory := set_counter f v (cc_memory c), cc_pending := ps\<rparr>)"

text \<open>
  The counter thread: the loads that are left in the turn and the sums so far. The ghost \<open>cs_cuts\<close> notes for each load of
  the turn how many increments of the capture thread had reached memory, and \<open>cs_fds\<close> holds the descriptors it has
  loaded; a report keeps the sums and these notes.
\<close>

type_synonym cuts = "(nat \<times> counter_field \<times> nat) list"
type_synonym fds = "(nat \<times> int) list"
type_synonym report = "vmars_monitoring_counters \<times> cuts \<times> fds"

record counters_state =
  cs_threads :: "capture_counters list"
  cs_loads :: "load list"
  cs_sums :: vmars_monitoring_counters
  cs_cuts :: cuts
  cs_fds :: fds
  cs_reports :: "report list"

definition arrived :: "capture_counters \<Rightarrow> nat" where
  "arrived c = length (cc_history c) - length (cc_pending c)"

inductive counters_step :: "counters_state \<Rightarrow> counters_state \<Rightarrow> bool" where
  capture_moves: "t < length (cs_threads s) \<Longrightarrow> capture_step (cs_threads s ! t) c \<Longrightarrow>
     counters_step s (s\<lparr>cs_threads := (cs_threads s)[t := c]\<rparr>)"
| counter_loads: "cs_loads s = (t, Some f) # ls \<Longrightarrow> c = cs_threads s ! t \<Longrightarrow>
     counters_step s (s\<lparr>cs_loads := ls, cs_sums := set_counter f (get_counter f (cs_sums s) + get_counter f (cc_memory c)) (cs_sums s),
       cs_cuts := cs_cuts s @ [(t, f, arrived c)]\<rparr>)"
| fd_loads: "cs_loads s = (t, None) # ls \<Longrightarrow>
     counters_step s (s\<lparr>cs_loads := ls, cs_fds := cs_fds s @ [(t, fd (cc_memory (cs_threads s ! t)))]\<rparr>)"
| counter_reports: "cs_loads s = [] \<Longrightarrow>
     counters_step s (s\<lparr>cs_loads := loads_of_turn (length (cs_threads s)), cs_sums := counters_zero, cs_cuts := [],
       cs_fds := [], cs_reports := cs_reports s @ [(cs_sums s, cs_cuts s, cs_fds s)]\<rparr>)"

definition capture_start :: capture_counters where
  "capture_start = \<lparr>cc_memory = counters_zero, cc_pending = [], cc_loaded = None, cc_history = [],
     cc_running = False\<rparr>"

inductive counters_reach :: "nat \<Rightarrow> counters_state \<Rightarrow> bool" for n where
  counters_start: "counters_reach n \<lparr>cs_threads = replicate n capture_start, cs_loads = loads_of_turn n,
     cs_sums = counters_zero, cs_cuts = [], cs_fds = [], cs_reports = []\<rparr>"
| counters_more: "counters_reach n s \<Longrightarrow> counters_step s s' \<Longrightarrow> counters_reach n s'"

inductive_cases capture_stepE: "capture_step c c'"
inductive_cases counters_stepE: "counters_step s s'"

subsection \<open>A capture thread and its memory\<close>

text \<open>The counters after a list of increments, one after the other.\<close>

definition counters_after :: "counter_field list \<Rightarrow> vmars_monitoring_counters" where
  "counters_after fs = fold (\<lambda>f c. set_counter f (atomic_release_increment (get_counter f c)) c) fs counters_zero"

lemma counters_after_snoc:
  "counters_after (fs @ [f]) = set_counter f (get_counter f (counters_after fs) + 1) (counters_after fs)"
  by (simp add: counters_after_def atomic_release_increment_def)

lemma counters_after_count: "get_counter f (counters_after fs) = of_nat (count_list fs f)"
proof (induction fs rule: rev_induct)
  case Nil
  then show ?case by (simp add: counters_after_def)
next
  case (snoc g fs)
  then show ?case by (cases "f = g") (simp_all add: counters_after_snoc)
qed

text \<open>
  Memory holds the counters of a first part of the history, the store buffer the values of the rest.
\<close>

fun stores_match :: "counter_field list \<Rightarrow> counter_field list \<Rightarrow> (counter_field \<times> 64 word) list \<Rightarrow> bool" where
  "stores_match done_fs [] [] = True"
| "stores_match done_fs (f # fs) ((g, v) # ps) \<longleftrightarrow>
     (g = f \<and> v = get_counter f (counters_after (done_fs @ [f])) \<and> stores_match (done_fs @ [f]) fs ps)"
| "stores_match done_fs fs ps = False"

lemma stores_match_length: "stores_match ds fs ps \<Longrightarrow> length ps = length fs"
  by (induction ds fs ps rule: stores_match.induct) auto

lemma stores_match_view:
  "stores_match ds fs ps \<Longrightarrow> \<forall>g. get_counter g m = get_counter g (counters_after ds) \<Longrightarrow>
    get_counter g (fold (\<lambda>(f, v). set_counter f v) ps m) = get_counter g (counters_after (ds @ fs))"
proof (induction ds fs ps arbitrary: m rule: stores_match.induct)
  case (2 ds f fs h v ps)
  then have "\<forall>g. get_counter g (set_counter f v m) = get_counter g (counters_after (ds @ [f]))"
    by (simp add: counters_after_snoc)
  with 2 show ?case by simp
qed simp_all

lemma stores_match_snoc:
  "stores_match ds fs ps \<Longrightarrow> v = get_counter f (counters_after (ds @ fs)) + 1 \<Longrightarrow> stores_match ds (fs @ [f]) (ps @ [(f, v)])"
  by (induction ds fs ps rule: stores_match.induct) (simp_all add: counters_after_snoc)

definition capture_inv :: "capture_counters \<Rightarrow> bool" where
  "capture_inv c \<longleftrightarrow> (\<exists>ds fs. cc_history c = ds @ fs \<and>
     (\<forall>g. get_counter g (cc_memory c) = get_counter g (counters_after ds)) \<and> stores_match ds fs (cc_pending c) \<and>
     (\<forall>f v. cc_loaded c = Some (f, v) \<longrightarrow> v = get_counter f (counters_after (cc_history c)))) \<and>
     (\<not> cc_running c \<longrightarrow> cc_history c = [] \<and> cc_loaded c = None \<and> fd (cc_memory c) = 0)"

lemma capture_invI:
  assumes "cc_history c = ds @ fs" and "\<And>g. get_counter g (cc_memory c) = get_counter g (counters_after ds)"
    and "stores_match ds fs (cc_pending c)"
    and "\<And>f v. cc_loaded c = Some (f, v) \<Longrightarrow> v = get_counter f (counters_after (ds @ fs))"
    and "\<not> cc_running c \<Longrightarrow> cc_history c = [] \<and> cc_loaded c = None \<and> fd (cc_memory c) = 0"
  shows "capture_inv c"
proof -
  have "\<exists>ds fs. cc_history c = ds @ fs \<and> (\<forall>g. get_counter g (cc_memory c) = get_counter g (counters_after ds)) \<and>
     stores_match ds fs (cc_pending c) \<and> (\<forall>f v. cc_loaded c = Some (f, v) \<longrightarrow> v = get_counter f (counters_after (cc_history c)))"
    by (rule exI [of _ ds], rule exI [of _ fs]) (simp add: assms(1-4))
  then show ?thesis using assms(5) unfolding capture_inv_def by (rule conjI [OF _ impI])
qed

lemma capture_inv_view: "capture_inv c \<Longrightarrow> get_counter f (cc_view c) = get_counter f (counters_after (cc_history c))"
  by (auto simp: capture_inv_def cc_view_def stores_match_view)

lemma capture_inv_memory:
  "capture_inv c \<Longrightarrow> arrived c \<le> length (cc_history c) \<and>
    get_counter f (cc_memory c) = get_counter f (counters_after (take (arrived c) (cc_history c)))"
  by (auto simp: capture_inv_def arrived_def dest!: stores_match_length)

lemma capture_start_inv: "capture_inv capture_start"
  by (simp add: capture_inv_def capture_start_def counters_after_def) (simp add: counters_zero_def)

text \<open>What a step of a capture thread does not take back.\<close>

definition moves_on :: "capture_counters \<Rightarrow> capture_counters \<Rightarrow> bool" where
  "moves_on c c' \<longleftrightarrow> capture_inv c' \<and> arrived c \<le> arrived c' \<and> prefix (cc_history c) (cc_history c') \<and>
     (cc_running c \<longrightarrow> cc_running c' \<and> fd (cc_memory c') = fd (cc_memory c))"

lemma capture_step_inv:
  assumes "capture_step c c'" and "capture_inv c"
  shows "moves_on c c'"
proof -
  obtain ds fs where h: "cc_history c = ds @ fs" "\<forall>g. get_counter g (cc_memory c) = get_counter g (counters_after ds)"
    "stores_match ds fs (cc_pending c)"
    "\<forall>f v. cc_loaded c = Some (f, v) \<longrightarrow> v = get_counter f (counters_after (cc_history c))"
    "\<not> cc_running c \<longrightarrow> cc_history c = [] \<and> cc_loaded c = None \<and> fd (cc_memory c) = 0"
    using assms(2) unfolding capture_inv_def by blast
  from assms(1) show ?thesis
  proof cases
    case (store_fd v d)
    then have d: "d = c\<lparr>cc_memory := (cc_memory c)\<lparr>fd := v\<rparr>\<rparr>"
      by (simp add: vmars_atomic_store_seq_cst_int_def split: if_splits)
    have "capture_inv c'"
      by (rule capture_invI [of _ ds fs]) (use h store_fd d in auto)
    then show ?thesis using store_fd d by (simp add: moves_on_def arrived_def)
  next
    case (load_counter f)
    have "capture_inv c'"
      by (rule capture_invI [of _ ds fs]) (use h load_counter capture_inv_view [OF assms(2)] in auto)
    then show ?thesis by (simp add: load_counter moves_on_def arrived_def)
  next
    case (store_release f v)
    note store_release = store_release vmars_atomic_store_release_i64_def
    have "capture_inv c'"
      by (rule capture_invI [of _ ds "fs @ [f]"]) (use h store_release stores_match_snoc [OF h(3)] in auto)
    then show ?thesis by (simp add: store_release moves_on_def arrived_def)
  next
    case (store_leaves f v ps)
    then obtain fs' where fs: "fs = f # fs'" "v = get_counter f (counters_after (ds @ [f]))" "stores_match (ds @ [f]) fs' ps"
      using h(3) by (cases fs) auto
    have "capture_inv c'"
      by (rule capture_invI [of _ "ds @ [f]" fs']) (use h store_leaves fs in \<open>auto simp: counters_after_snoc\<close>)
    then show ?thesis by (simp add: store_leaves moves_on_def arrived_def)
  qed
qed

subsection \<open>What the counter thread has read\<close>

text \<open>
  The sum of the counters \<open>f\<close> over the notes of a turn: each is the value of the counter after the noted
  number of increments of its thread.
\<close>

definition cut_sum :: "(nat \<Rightarrow> counter_field list) \<Rightarrow> cuts \<Rightarrow> counter_field \<Rightarrow> 64 word" where
  "cut_sum h cuts f = (\<Sum>(t, g, k) \<leftarrow> cuts. if g = f then of_nat (count_list (take k (h t)) f) else 0)"

definition history :: "counters_state \<Rightarrow> nat \<Rightarrow> counter_field list" where
  "history s t = cc_history (cs_threads s ! t)"

definition socket :: "counters_state \<Rightarrow> nat \<Rightarrow> int" where
  "socket s t = fd (cc_memory (cs_threads s ! t))"

definition all_cuts :: "counters_state \<Rightarrow> cuts" where
  "all_cuts s = concat (map (fst \<circ> snd) (cs_reports s)) @ cs_cuts s"

definition cuts_of :: "nat \<Rightarrow> cuts \<Rightarrow> nat list" where
  "cuts_of t cuts = map (\<lambda>(u, f, k). k) (filter (\<lambda>(u, f, k). u = t) cuts)"

text \<open>The loads that a report's notes stand for: those of the counters, and those of the descriptors.\<close>

abbreviation cut_loads :: "cuts \<Rightarrow> load list" where
  "cut_loads cuts \<equiv> map (\<lambda>(t, f, k). (t, Some f)) cuts"

definition loads_noted :: "load list \<Rightarrow> cuts \<Rightarrow> fds \<Rightarrow> bool" where
  "loads_noted ls cuts fds \<longleftrightarrow> cut_loads cuts = filter (\<lambda>l. snd l \<noteq> None) ls \<and>
     map (\<lambda>(t, v). (t, None)) fds = filter (\<lambda>l. snd l = None) ls"

text \<open>
  A descriptor that was loaded is that of the thread's socket, or 0 if the socket was not open yet; the latter only where no
  increment of the thread was seen in the turn.
\<close>

definition fds_seen :: "(nat \<Rightarrow> int) \<Rightarrow> cuts \<Rightarrow> fds \<Rightarrow> bool" where
  "fds_seen sock cuts fds \<longleftrightarrow> (\<forall>(t, v)\<in>set fds. (v = 0 \<or> v = sock t) \<and> (\<forall>(u, f, k)\<in>set cuts. u = t \<and> 0 < k \<longrightarrow> v = sock t))"

definition report_ok :: "counters_state \<Rightarrow> load list \<Rightarrow> report \<Rightarrow> bool" where
  "report_ok s ls rep \<longleftrightarrow> (case rep of (r, cuts, fds) \<Rightarrow> loads_noted ls cuts fds \<and>
     (\<forall>f. get_counter f r = cut_sum (history s) cuts f) \<and> fds_seen (socket s) cuts fds \<and>
     (\<forall>(t, v)\<in>set fds. t < length (cs_threads s)) \<and>
     (\<forall>(t, f, k)\<in>set cuts. t < length (cs_threads s) \<and> k \<le> arrived (cs_threads s ! t)))"

definition counters_inv :: "nat \<Rightarrow> counters_state \<Rightarrow> bool" where
  "counters_inv n s \<longleftrightarrow> length (cs_threads s) = n \<and> (\<forall>c\<in>set (cs_threads s). capture_inv c) \<and>
     (\<exists>ls. ls @ cs_loads s = loads_of_turn n \<and> report_ok s ls (cs_sums s, cs_cuts s, cs_fds s)) \<and>
     (\<forall>rep\<in>set (cs_reports s). report_ok s (loads_of_turn n) rep) \<and> (\<forall>t. sorted (cuts_of t (all_cuts s)))"

lemma cut_sum_simps [simp]:
  "cut_sum h [] f = 0"
  "cut_sum h (cuts @ [(t, g, k)]) f = cut_sum h cuts f + (if g = f then of_nat (count_list (take k (h t)) f) else 0)"
  by (simp_all add: cut_sum_def)

lemma cut_sum_cong:
  assumes "\<And>t f k. (t, f, k) \<in> set cuts \<Longrightarrow> take k (h' t) = take k (h t)"
  shows "cut_sum h' cuts f = cut_sum h cuts f"
  unfolding cut_sum_def by (rule arg_cong [of _ _ sum_list], rule map_cong) (use assms in auto)

lemma loads_of_turn_threads: "(t, f) \<in> set (loads_of_turn n) \<Longrightarrow> t < n"
  by (auto simp: loads_of_turn_def loads_of_thread_def)

text \<open>The descriptor of a thread is loaded behind its counters.\<close>

lemma fd_behind_counters: "sorted_wrt (\<lambda>a b. snd a = None \<longrightarrow> fst a \<noteq> fst b) (loads_of_turn n)"
proof (induction n)
  case (Suc n)
  then show ?case
    using loads_of_turn_threads [of _ _ n]
    by (fastforce simp: loads_of_turn_def sorted_wrt_append loads_of_thread_def)
qed (simp add: loads_of_turn_def)

lemma counters_inv_start:
  "counters_inv n \<lparr>cs_threads = replicate n capture_start, cs_loads = loads_of_turn n,
     cs_sums = counters_zero, cs_cuts = [], cs_fds = [], cs_reports = []\<rparr>"
  by (simp add: counters_inv_def capture_start_inv all_cuts_def cuts_of_def report_ok_def loads_noted_def fds_seen_def)

lemma arrived_running: "capture_inv c \<Longrightarrow> 0 < arrived c \<Longrightarrow> cc_running c"
  by (auto simp: capture_inv_def arrived_def)

lemma moves_on_fd: "capture_inv c \<Longrightarrow> moves_on c c' \<Longrightarrow> \<not> cc_running c \<and> fd (cc_memory c) = 0 \<or> fd (cc_memory c') = fd (cc_memory c)"
  by (auto simp: capture_inv_def moves_on_def)

lemma fds_seen_moves:
  assumes "fds_seen (socket s) cuts fds"
    and m: "\<And>t v. (t, v) \<in> set fds \<Longrightarrow> capture_inv (cs_threads s ! t) \<and> moves_on (cs_threads s ! t) (cs_threads s' ! t)"
    and c: "\<And>t f k. (t, f, k) \<in> set cuts \<Longrightarrow> k \<le> arrived (cs_threads s ! t)"
  shows "fds_seen (socket s') cuts fds"
proof -
  have "(v = 0 \<or> v = socket s' t) \<and> (\<forall>(u, f, k)\<in>set cuts. u = t \<and> 0 < k \<longrightarrow> v = socket s' t)" if tv: "(t, v) \<in> set fds" for t v
  proof -
    have old: "v = 0 \<or> v = socket s t" "\<forall>(u, f, k)\<in>set cuts. u = t \<and> 0 < k \<longrightarrow> v = socket s t"
      using assms(1) tv by (auto simp: fds_seen_def)
    have sock: "\<not> cc_running (cs_threads s ! t) \<and> socket s t = 0 \<or> socket s' t = socket s t"
      using moves_on_fd m [OF tv] by (simp add: socket_def)
    have "cc_running (cs_threads s ! t)" if "(t, f, k) \<in> set cuts" "0 < k" for f k
      using arrived_running conjunct1 [OF m [OF tv]] c [OF that(1)] that(2) by force
    then show ?thesis using old sock by fastforce
  qed
  then show ?thesis by (fastforce simp: fds_seen_def)
qed

text \<open>A report stays true while the capture threads move on.\<close>

lemma report_ok_moves:
  assumes r: "report_ok s ls rep" and n: "length (cs_threads s') = length (cs_threads s)"
    and m: "\<And>t. t < length (cs_threads s) \<Longrightarrow> capture_inv (cs_threads s ! t) \<and> moves_on (cs_threads s ! t) (cs_threads s' ! t)"
  shows "report_ok s' ls rep"
proof -
  obtain r cuts fds where rep: "rep = (r, cuts, fds)" by (cases rep)
  have cut: "t < length (cs_threads s) \<and> k \<le> arrived (cs_threads s ! t)" if "(t, f, k) \<in> set cuts" for t f k
    using r that by (auto simp: report_ok_def rep)
  have past: "take k (history s' t) = take k (history s t) \<and> k \<le> arrived (cs_threads s' ! t)" if "(t, f, k) \<in> set cuts" for t f k
  proof -
    have "k \<le> length (history s t)" "prefix (history s t) (history s' t)" "k \<le> arrived (cs_threads s' ! t)"
      using cut [OF that] m [of t] capture_inv_memory [of "cs_threads s ! t"]
      by (auto simp: moves_on_def history_def intro: order_trans)
    then show ?thesis by (auto simp: prefix_def)
  qed
  have "cut_sum (history s') cuts f = cut_sum (history s) cuts f" for f
    using past by (intro cut_sum_cong) blast
  moreover have "fds_seen (socket s') cuts fds"
    using r m cut by (intro fds_seen_moves [of s cuts fds s']) (auto simp: report_ok_def rep)
  ultimately show ?thesis using r n cut past by (auto simp: report_ok_def rep)
qed

lemma capture_moves_inv:
  assumes i: "counters_inv n s" and t: "t < length (cs_threads s)" and step: "capture_step (cs_threads s ! t) c"
  shows "counters_inv n (s\<lparr>cs_threads := (cs_threads s)[t := c]\<rparr>)" (is "counters_inv n ?s")
proof -
  have old: "capture_inv (cs_threads s ! u)" if "u < length (cs_threads s)" for u using i that by (simp add: counters_inv_def)
  note c = capture_step_inv [OF step old [OF t]]
  have m: "capture_inv (cs_threads s ! u) \<and> moves_on (cs_threads s ! u) (cs_threads ?s ! u)" if "u < length (cs_threads s)" for u
    using old [OF that] c by (cases "u = t") (simp_all add: t moves_on_def)
  have n: "length (cs_threads ?s) = length (cs_threads s)" by simp
  note kept = report_ok_moves [OF _ n m]
  have same: "cs_loads ?s = cs_loads s" "cs_sums ?s = cs_sums s" "cs_cuts ?s = cs_cuts s" "cs_fds ?s = cs_fds s"
    "cs_reports ?s = cs_reports s" "all_cuts ?s = all_cuts s" by (simp_all add: all_cuts_def)
  have "\<forall>c\<in>set (cs_threads ?s). capture_inv c"
    using i c set_update_subset_insert [of "cs_threads s" t c] by (auto simp: counters_inv_def moves_on_def)
  then show ?thesis using i kept unfolding counters_inv_def same n by blast
qed

lemma noted_snoc:
  assumes "ls @ l # ms = loads_of_turn n"
  shows "(ls @ [l]) @ ms = loads_of_turn n" and "fst l < n" and "(fst l, None) \<in> set ls \<Longrightarrow> snd l = None"
proof -
  show "(ls @ [l]) @ ms = loads_of_turn n" using assms by simp
  have "l \<in> set (loads_of_turn n)" unfolding assms [symmetric] by simp
  then show "fst l < n" using loads_of_turn_threads [of "fst l" "snd l"] by simp
  assume "(fst l, None) \<in> set ls"
  then show "snd l = None" using fd_behind_counters [of n] unfolding assms [symmetric] sorted_wrt_append by force
qed

lemma counter_loads_inv:
  assumes i: "counters_inv n s" and l: "cs_loads s = (t, Some f) # ls"
  shows "counters_inv n (s\<lparr>cs_loads := ls,
    cs_sums := set_counter f (get_counter f (cs_sums s) + get_counter f (cc_memory (cs_threads s ! t))) (cs_sums s),
    cs_cuts := cs_cuts s @ [(t, f, arrived (cs_threads s ! t))]\<rparr>)" (is "counters_inv n ?s")
proof -
  let ?k = "arrived (cs_threads s ! t)"
  obtain ms where ms: "ms @ (t, Some f) # ls = loads_of_turn n" "report_ok s ms (cs_sums s, cs_cuts s, cs_fds s)"
    using i l by (auto simp: counters_inv_def)
  note noted = noted_snoc [OF ms(1), unfolded fst_conv snd_conv]
  have inv: "capture_inv (cs_threads s ! t)" using i noted(2) by (simp add: counters_inv_def)
  have h: "history ?s = history s" "socket ?s = socket s" by (simp_all add: history_def socket_def fun_eq_iff)
  have loaded: "get_counter f (cc_memory (cs_threads s ! t)) = of_nat (count_list (take ?k (history s t)) f)"
    using capture_inv_memory [OF inv, of f] by (simp add: counters_after_count history_def)
  have "(t, v) \<notin> set (cs_fds s)" for v
  proof
    assume "(t, v) \<in> set (cs_fds s)"
    then have "(t, None :: counter_field option) \<in> set (map (\<lambda>(t, v). (t, None)) (cs_fds s))" by force
    moreover have "map (\<lambda>(t, v). (t, None)) (cs_fds s) = filter (\<lambda>l. snd l = None) ms"
      using ms(2) by (simp add: report_ok_def loads_noted_def)
    ultimately have "(t, None) \<in> set (filter (\<lambda>l. snd l = None) ms)" by (simp only:)
    then have "(t, None) \<in> set ms" by simp
    with noted(3) show False by simp
  qed
  then have "report_ok ?s (ms @ [(t, Some f)]) (cs_sums ?s, cs_cuts ?s, cs_fds ?s)"
    using ms(2) noted(2) i loaded unfolding report_ok_def h by (auto simp: loads_noted_def fds_seen_def counters_inv_def)
  moreover have "report_ok ?s = report_ok s" unfolding report_ok_def h by (simp add: fun_eq_iff)
  moreover have "sorted (cuts_of u (all_cuts ?s))" for u
  proof -
    have "k \<le> ?k" if "(t, g, k) \<in> set (all_cuts s)" for g k
      using i that by (fastforce simp: counters_inv_def all_cuts_def report_ok_def)
    then show ?thesis
      using i by (auto simp: counters_inv_def all_cuts_def cuts_of_def sorted_append)
  qed
  moreover have "\<exists>ls'. ls' @ cs_loads ?s = loads_of_turn n \<and> report_ok ?s ls' (cs_sums ?s, cs_cuts ?s, cs_fds ?s)"
    using calculation(1) noted(1) by (intro exI [of _ "ms @ [(t, Some f)]"]) simp
  ultimately show ?thesis using i unfolding counters_inv_def by simp
qed

lemma fd_loads_inv:
  assumes i: "counters_inv n s" and l: "cs_loads s = (t, None) # ls"
  shows "counters_inv n (s\<lparr>cs_loads := ls, cs_fds := cs_fds s @ [(t, fd (cc_memory (cs_threads s ! t)))]\<rparr>)" (is "counters_inv n ?s")
proof -
  obtain ms where ms: "ms @ (t, None) # ls = loads_of_turn n" "report_ok s ms (cs_sums s, cs_cuts s, cs_fds s)"
    using i l by (auto simp: counters_inv_def)
  note noted = noted_snoc [OF ms(1), unfolded fst_conv snd_conv]
  have h: "history ?s = history s" "socket ?s = socket s" "all_cuts ?s = all_cuts s"
    by (simp_all add: history_def socket_def all_cuts_def fun_eq_iff)
  have "report_ok ?s (ms @ [(t, None)]) (cs_sums ?s, cs_cuts ?s, cs_fds ?s)"
    using ms(2) noted(2) i unfolding report_ok_def h
    by (auto simp: loads_noted_def fds_seen_def counters_inv_def socket_def)
  moreover have "report_ok ?s = report_ok s" unfolding report_ok_def h by (simp add: fun_eq_iff)
  moreover have "\<exists>ls'. ls' @ cs_loads ?s = loads_of_turn n \<and> report_ok ?s ls' (cs_sums ?s, cs_cuts ?s, cs_fds ?s)"
    using calculation(1) noted(1) by (intro exI [of _ "ms @ [(t, None)]"]) simp
  ultimately show ?thesis using i unfolding counters_inv_def h by simp
qed

lemma counter_reports_inv:
  assumes i: "counters_inv n s" and l: "cs_loads s = []"
  shows "counters_inv n (s\<lparr>cs_loads := loads_of_turn (length (cs_threads s)), cs_sums := counters_zero, cs_cuts := [],
    cs_fds := [], cs_reports := cs_reports s @ [(cs_sums s, cs_cuts s, cs_fds s)]\<rparr>)" (is "counters_inv n ?s")
proof -
  have h: "history ?s = history s" "socket ?s = socket s" "all_cuts ?s = all_cuts s"
    by (simp_all add: history_def socket_def all_cuts_def fun_eq_iff)
  have "report_ok ?s = report_ok s" unfolding report_ok_def h by (simp add: fun_eq_iff)
  moreover have "report_ok s [] (counters_zero, [], [])" by (simp add: report_ok_def loads_noted_def fds_seen_def)
  ultimately show ?thesis using i l unfolding counters_inv_def h by auto
qed

lemma counters_reach_inv: "counters_reach n s \<Longrightarrow> counters_inv n s"
proof (induction rule: counters_reach.induct)
  case counters_start
  show ?case by (rule counters_inv_start)
next
  case (counters_more s s')
  from counters_more.hyps(2) counters_more.IH show ?case
    by cases (auto intro: capture_moves_inv counter_loads_inv fd_loads_inv counter_reports_inv)
qed

lemma capture_past:
  assumes "counters_reach n s" and "t < n"
  shows "capture_inv (cs_threads s ! t)" and "arrived (cs_threads s ! t) \<le> length (history s t)"
proof -
  show "capture_inv (cs_threads s ! t)" using counters_reach_inv [OF assms(1)] assms(2) by (simp add: counters_inv_def)
  then show "arrived (cs_threads s ! t) \<le> length (history s t)" using capture_inv_memory by (simp add: history_def)
qed

lemma report_past:
  assumes "report_ok s ls (r, cuts, fds)" and "\<And>t. t < length (cs_threads s) \<Longrightarrow> arrived (cs_threads s ! t) \<le> length (history s t)"
  shows "loads_noted ls cuts fds \<and> (\<forall>f. get_counter f r = cut_sum (history s) cuts f) \<and>
    (\<forall>(t, f, k)\<in>set cuts. k \<le> length (history s t)) \<and> fds_seen (socket s) cuts fds"
proof -
  have "k \<le> length (history s t)" if "(t, f, k) \<in> set cuts" for t f k
    using assms(1) assms(2) [of t] that by (fastforce simp: report_ok_def)
  then show ?thesis using assms(1) by (auto simp: report_ok_def)
qed

text \<open>
  C19: Whatever the store buffers delay, no increment is lost or counted twice: what a capture thread loads is always
  the number of its own increments, and each report of the counter thread adds up, for every
  counter of every capture thread, the number of increments that the thread had made at some point of its past. From one
  load of a thread's counters to the next, within a turn and from turn to turn, these points never go back. The
  statistics of a thread's socket are asked for in every turn that has seen an increment of the thread, and never those of
  another descriptor.
\<close>

theorem counters_observed:
  assumes "counters_reach n s"
  shows "(\<forall>t<n. \<forall>f. get_counter f (cc_view (cs_threads s ! t)) = of_nat (count_list (history s t) f)) \<and>
    (\<forall>(r, cuts, fds)\<in>set (cs_reports s). loads_noted (loads_of_turn n) cuts fds \<and>
       (\<forall>f. get_counter f r = cut_sum (history s) cuts f) \<and> (\<forall>(t, f, k)\<in>set cuts. k \<le> length (history s t)) \<and>
       fds_seen (socket s) cuts fds) \<and>
    (\<forall>t. sorted (cuts_of t (concat (map (fst \<circ> snd) (cs_reports s)))))"
proof (intro conjI)
  have i: "counters_inv n s" using assms by (rule counters_reach_inv)
  show "\<forall>t<n. \<forall>f. get_counter f (cc_view (cs_threads s ! t)) = of_nat (count_list (history s t) f)"
    using capture_inv_view capture_past(1) [OF assms] by (simp add: counters_after_count history_def)
  have ok: "report_ok s (loads_of_turn n) rep" if "rep \<in> set (cs_reports s)" for rep using i that by (simp add: counters_inv_def)
  have len: "length (cs_threads s) = n" using i by (simp add: counters_inv_def)
  have "loads_noted (loads_of_turn n) cuts fds \<and>
       (\<forall>f. get_counter f r = cut_sum (history s) cuts f) \<and> (\<forall>(t, f, k)\<in>set cuts. k \<le> length (history s t)) \<and>
       fds_seen (socket s) cuts fds" if "(r, cuts, fds) \<in> set (cs_reports s)" for r cuts fds
    by (rule report_past [OF ok [OF that]]) (simp add: len capture_past(2) [OF assms])
  then show "\<forall>(r, cuts, fds)\<in>set (cs_reports s). loads_noted (loads_of_turn n) cuts fds \<and>
       (\<forall>f. get_counter f r = cut_sum (history s) cuts f) \<and> (\<forall>(t, f, k)\<in>set cuts. k \<le> length (history s t)) \<and>
       fds_seen (socket s) cuts fds"
    by fast
  have "sorted (cuts_of t (all_cuts s))" for t using i by (simp add: counters_inv_def)
  then show "\<forall>t. sorted (cuts_of t (concat (map (fst \<circ> snd) (cs_reports s))))"
    by (simp add: cuts_of_def all_cuts_def sorted_append)
qed

text \<open>When all the stores of a turn's past had arrived, its sums are those of \<open>vmars_poll_counters\<close> over the counters.\<close>

lemma cut_sum_threads:
  assumes "cut_loads cuts = filter (\<lambda>l. snd l \<noteq> None) (loads_of_turn n)"
    and "\<And>t g k. (t, g, k) \<in> set cuts \<Longrightarrow> k = length (h t)" and "f \<noteq> Parsing_Errors"
  shows "cut_sum h cuts f = (\<Sum>t\<leftarrow>[0..<n]. get_counter f (counters_after (h t)))"
proof -
  let ?val = "\<lambda>(t, g). if g = Some f then of_nat (count_list (h t) f) else (0 :: 64 word)"
  have "cut_sum h cuts f = (\<Sum>l \<leftarrow> cut_loads cuts. ?val l)"
    unfolding cut_sum_def map_map using assms(2)
    by (intro arg_cong [of _ _ sum_list] map_cong refl) auto
  also have "\<dots> = (\<Sum>l \<leftarrow> loads_of_turn n. ?val l)"
    unfolding assms(1) by (rule sum_list_map_filter) auto
  also have "\<dots> = (\<Sum>t\<leftarrow>[0..<n]. of_nat (count_list (h t) f))"
    using assms(3) unfolding loads_of_turn_def
    by (induction n) (cases f; simp add: loads_of_thread_def)+
  finally show ?thesis by (simp add: counters_after_count)
qed

lemma aggregate_counter:
  "f \<noteq> Parsing_Errors \<Longrightarrow> get_counter f (fst (aggregate getsockopt cs (a, st))) = get_counter f a + (\<Sum>c\<leftarrow>cs. get_counter f c)"
  by (cases f) (simp_all add: aggregate_sums)

theorem quiet_report:
  assumes "counters_reach n s" and "(r, cuts, fds) \<in> set (cs_reports s)"
    and "\<And>t f k. (t, f, k) \<in> set cuts \<Longrightarrow> k = length (history s t)" and "f \<noteq> Parsing_Errors"
  shows "get_counter f r = get_counter f (fst (aggregate getsockopt
    (map (\<lambda>t. counters_after (history s t)) [0..<n]) (counters_zero, stats_zero)))"
proof -
  have "cut_loads cuts = filter (\<lambda>l. snd l \<noteq> None) (loads_of_turn n)" "get_counter f r = cut_sum (history s) cuts f"
    using counters_reach_inv [OF assms(1)] assms(2) by (auto simp: counters_inv_def report_ok_def loads_noted_def)
  then show ?thesis
    using cut_sum_threads [OF _ assms(3,4), of cuts n] aggregate_counter [OF assms(4)] by (simp add: o_def)
qed

text \<open>The counter thread never waits: from every state it can end its turn by itself.\<close>

lemma turn_ends:
  "counters_reach n s \<Longrightarrow> \<exists>s'. counters_reach n s' \<and> cs_threads s' = cs_threads s \<and> cs_reports s' \<noteq> []"
proof (induction "cs_loads s" arbitrary: s)
  case Nil
  from counters_more [OF Nil.prems counter_reports] Nil.hyps show ?case by fastforce
next
  case (Cons l ls)
  obtain t f where l: "l = (t, f)" by (cases l)
  obtain s' where "counters_step s s'" "cs_loads s' = ls" "cs_threads s' = cs_threads s"
  proof (cases f)
    case None
    then show ?thesis using that [OF fd_loads [of s t ls]] Cons.hyps(2) l by simp
  next
    case (Some g)
    then show ?thesis using that [OF counter_loads [of s t g ls]] Cons.hyps(2) l by simp
  qed
  with Cons.hyps(1) [of s'] counters_more [OF Cons.prems] show ?case by simp
qed

theorem counters_observed_witness:
  "\<exists>s r cuts fds. counters_reach 1 s \<and> (r, cuts, fds) \<in> set (cs_reports s) \<and> history s 0 = [Valid_Messages] \<and>
     get_counter Valid_Messages (cc_view (cs_threads s ! 0)) = 1 \<and> (\<forall>(t, f, k)\<in>set cuts. k \<le> length (history s t)) \<and>
     socket s 0 = 5 \<and> fds_seen (socket s) cuts fds"
proof -
  let ?c0 = "capture_start\<lparr>cc_memory := counters_zero\<lparr>fd := 5\<rparr>, cc_running := True\<rparr>"
  let ?c1 = "?c0\<lparr>cc_loaded := Some (Valid_Messages, get_counter Valid_Messages (cc_view ?c0))\<rparr>"
  let ?c2 = "?c1\<lparr>cc_loaded := None, cc_pending := [(Valid_Messages, 1)], cc_history := [Valid_Messages]\<rparr>"
  let ?s = "\<lambda>c. \<lparr>cs_threads = [c], cs_loads = loads_of_turn 1, cs_sums = counters_zero, cs_cuts = [], cs_fds = [], cs_reports = []\<rparr>"
  have move: "counters_reach 1 (?s c) \<Longrightarrow> capture_step c c' \<Longrightarrow> counters_reach 1 (?s c')" for c c'
    using counters_more [OF _ capture_moves [of 0 "?s c" c']] by simp
  have zero: "get_counter Valid_Messages (cc_view ?c0) = 0" by (simp add: cc_view_def capture_start_def counters_zero_def)
  have "counters_reach 1 (?s capture_start)" using counters_start [of 1] by simp
  moreover have "capture_step capture_start ?c0" using store_fd [of capture_start 5]
    by (simp add: capture_start_def vmars_atomic_store_seq_cst_int_def)
  moreover have "capture_step ?c0 ?c1" by (rule load_counter) (simp_all add: capture_start_def)
  moreover have "capture_step ?c1 ?c2"
    using store_release [of ?c1 Valid_Messages 0] zero by (simp add: capture_start_def vmars_atomic_store_release_i64_def)
  ultimately have "counters_reach 1 (?s ?c2)" using move by blast
  from turn_ends [OF this] obtain s where s: "counters_reach 1 s" "cs_threads s = [?c2]" "cs_reports s \<noteq> []" by auto
  then obtain r cuts fds where rc: "(r, cuts, fds) \<in> set (cs_reports s)" by (cases "cs_reports s") auto
  have h: "history s 0 = [Valid_Messages]" "socket s 0 = 5" by (simp_all add: history_def socket_def s(2))
  note observed = counters_observed [OF s(1)]
  have "get_counter Valid_Messages (cc_view (cs_threads s ! 0)) = of_nat (count_list (history s 0) Valid_Messages)"
    using conjunct1 [OF observed, rule_format, of 0 Valid_Messages] by simp
  then have "get_counter Valid_Messages (cc_view (cs_threads s ! 0)) = 1" by (simp add: h del: get_counter.simps)
  moreover have "(\<forall>(t, f, k)\<in>set cuts. k \<le> length (history s t)) \<and> fds_seen (socket s) cuts fds"
    using bspec [OF conjunct1 [OF conjunct2 [OF observed]] rc] by simp
  ultimately show ?thesis using s(1) rc h by blast
qed

end
