(* ===== verification/Command_Line.thy ===== *)
theory Command_Line
  imports Main_Config
begin

text \<open>
  The command line of \<^verbatim>\<open>src/main.c\<close>: the two tables of options that it gives to \<open>getopt_long\<close>, that function as
  the code uses it, and \<open>main\<close> from its arguments to the contexts of its threads.
\<close>

subsection \<open>The tables\<close>

definition OPTSTRING :: string where
  "OPTSTRING = ''i:t:a:c:h:p:H''"

text \<open>The name of a long option, whether it requires an argument, and its value.\<close>

definition long_options :: "(byte list \<times> bool \<times> char) list" where
  "long_options =
     [(bytes_of ''interface'', True, CHR ''i''),
      (bytes_of ''num-threads'', True, CHR ''t''),
      (bytes_of ''affinity'', True, CHR ''a''),
      (bytes_of ''capture-port'', True, CHR ''c''),
      (bytes_of ''udp-host'', True, CHR ''h''),
      (bytes_of ''udp-port'', True, CHR ''p''),
      (bytes_of ''hardware-timestamps'', False, CHR ''H'')]"

text \<open>The options as the usage text of \<open>main\<close> names them.\<close>

definition usage_options :: "(char \<times> byte list) list" where
  "usage_options =
     [(CHR ''i'', bytes_of ''interface''), (CHR ''t'', bytes_of ''num-threads''), (CHR ''a'', bytes_of ''affinity''),
      (CHR ''c'', bytes_of ''capture-port''), (CHR ''h'', bytes_of ''udp-host''), (CHR ''p'', bytes_of ''udp-host''),
      (CHR ''H'', bytes_of ''hardware-timestamps'')]"

subsection \<open>\<open>getopt_long\<close>\<close>

text \<open>
  The letter of a short option in the string, and whether a colon follows it; a colon is no option. A long option by its whole
  name or a prefix of one name only.
\<close>

definition short_option :: "byte \<Rightarrow> (bool \<times> char) option" where
  "short_option b =
     (case dropWhile (\<lambda>c. of_char c \<noteq> b) OPTSTRING of
        [] \<Rightarrow> None
      | c # r \<Rightarrow> if c = CHR '':'' then None else Some (r \<noteq> [] \<and> hd r = CHR '':'', c))"

definition long_option :: "byte list \<Rightarrow> (bool \<times> char) option" where
  "long_option name =
     (case map_of long_options name of
        Some o' \<Rightarrow> Some o'
      | None \<Rightarrow> (case filter (\<lambda>(n, o'). prefix name n) long_options of [(n, o')] \<Rightarrow> Some o' | _ \<Rightarrow> None))"

definition MINUS :: byte where "MINUS = 45"

text \<open>
  All calls of the loop, from the arguments behind the name of the program: what they return, with \<open>optarg\<close>. \<open>cluster\<close> is what
  is left of an argument of short options. Arguments that are no options are skipped (they are moved to the end),
  \<open>--\<close> ends the options, and the answer \<open>'?'\<close> stands for an option that is unknown, ambiguous or lacks its argument.
\<close>

function getopt_long :: "byte list \<Rightarrow> byte list list \<Rightarrow> (char \<times> byte list) list" where
  "getopt_long (b # bs) args =
     (case short_option b of
        None \<Rightarrow> (CHR ''?'', []) # getopt_long bs args
      | Some (required, c) \<Rightarrow>
          if \<not> required then (c, []) # getopt_long bs args
          else if bs \<noteq> [] then (c, bs) # getopt_long [] args
          else (case args of [] \<Rightarrow> [(CHR ''?'', [])] | v # rest \<Rightarrow> (c, v) # getopt_long [] rest))"
| "getopt_long [] [] = []"
| "getopt_long [] (a # args) =
     (if a = [MINUS, MINUS] then []
      else if prefix [MINUS, MINUS] a then
        (let value = dropWhile (\<lambda>x. x \<noteq> EQ) (drop 2 a) in
         case long_option (takeWhile (\<lambda>x. x \<noteq> EQ) (drop 2 a)) of
           None \<Rightarrow> (CHR ''?'', []) # getopt_long [] args
         | Some (required, c) \<Rightarrow>
             if required then
               (if value \<noteq> [] then (c, tl value) # getopt_long [] args
                else (case args of [] \<Rightarrow> [(CHR ''?'', [])] | v # rest \<Rightarrow> (c, v) # getopt_long [] rest))
             else (if value \<noteq> [] then CHR ''?'' else c, []) # getopt_long [] args)
      else if prefix [MINUS] a \<and> tl a \<noteq> [] then getopt_long (tl a) args
      else getopt_long [] args)"
  by pat_completeness auto
termination
  by (relation "measure (\<lambda>(bs, args). length bs + sum_list (map (\<lambda>a. Suc (length a)) args))") auto

text \<open>\<open>main\<close> from its arguments to the threads.\<close>

definition main_args :: "system \<Rightarrow> byte list list \<Rightarrow> thread_context list outcome res" where
  "main_args sys argp = main_setup sys (getopt_long [] (tl argp))"

subsection \<open>Spellings\<close>

text \<open>The four ways to write an option with an argument, and the two for one without.\<close>

datatype spelling = Short_Joined | Short_Split | Long_Joined | Long_Split

definition long_name :: "char \<Rightarrow> byte list" where
  "long_name c = (case filter (\<lambda>(n, r, c'). c' = c) long_options of [] \<Rightarrow> [] | (n, r, c') # _ \<Rightarrow> n)"

fun spell :: "spelling \<Rightarrow> char \<times> byte list \<Rightarrow> byte list list" where
  "spell Short_Joined (c, v) = [MINUS # of_char c # v]"
| "spell Short_Split (c, v) = (if c = CHR ''H'' then [[MINUS, of_char c]] else [[MINUS, of_char c], v])"
| "spell Long_Joined (c, v) = (if c = CHR ''H'' then [MINUS # MINUS # long_name c] else [MINUS # MINUS # long_name c @ EQ # v])"
| "spell Long_Split (c, v) = (if c = CHR ''H'' then [MINUS # MINUS # long_name c] else [MINUS # MINUS # long_name c, v])"

definition writable :: "spelling \<Rightarrow> char \<times> byte list \<Rightarrow> bool" where
  "writable sp co \<longleftrightarrow> (case co of (c, v) \<Rightarrow>
     if c = CHR ''H'' then v = [] else c \<in> set ''itachp'' \<and> (sp = Short_Joined \<longrightarrow> v \<noteq> []))"

lemma short_options:
  "short_option (of_char (CHR ''i'')) = Some (True, CHR ''i'')" "short_option (of_char (CHR ''t'')) = Some (True, CHR ''t'')"
  "short_option (of_char (CHR ''a'')) = Some (True, CHR ''a'')" "short_option (of_char (CHR ''c'')) = Some (True, CHR ''c'')"
  "short_option (of_char (CHR ''h'')) = Some (True, CHR ''h'')" "short_option (of_char (CHR ''p'')) = Some (True, CHR ''p'')"
  "short_option (of_char (CHR ''H'')) = Some (False, CHR ''H'')"
  by code_simp+

lemma option_chars:
  assumes "c \<in> set ''itachp''"
  shows "short_option (of_char c) = Some (True, c)" and "long_option (long_name c) = Some (True, c)"
    and "EQ \<notin> set (long_name c)" and "long_name c \<noteq> []" and "(of_char c :: byte) \<noteq> MINUS" and "c \<noteq> CHR ''H''"
proof -
  have c: "c = CHR ''i'' \<or> c = CHR ''t'' \<or> c = CHR ''a'' \<or> c = CHR ''c'' \<or> c = CHR ''h'' \<or> c = CHR ''p''"
    using assms by auto
  then show "short_option (of_char c) = Some (True, c)" using short_options by blast
  have "\<forall>c\<in>set ''itachp''. long_option (long_name c) = Some (True, c)" by code_simp
  then show "long_option (long_name c) = Some (True, c)" using assms by blast
  have "\<forall>c\<in>set ''itachp''. EQ \<notin> set (long_name c) \<and> long_name c \<noteq> [] \<and> (of_char c :: byte) \<noteq> MINUS \<and> c \<noteq> CHR ''H''" by code_simp
  then show "EQ \<notin> set (long_name c)" "long_name c \<noteq> []" "(of_char c :: byte) \<noteq> MINUS" "c \<noteq> CHR ''H''"
    using assms by blast+
qed

lemma flag_char:
  "long_option (long_name (CHR ''H'')) = Some (False, CHR ''H'')" "EQ \<notin> set (long_name (CHR ''H''))"
  "long_name (CHR ''H'') \<noteq> []" "(of_char (CHR ''H'') :: byte) \<noteq> MINUS"
  by code_simp+

lemma takeWhile_name: "EQ \<notin> set n \<Longrightarrow> takeWhile (\<lambda>x. x \<noteq> EQ) (n @ EQ # v) = n \<and> dropWhile (\<lambda>x. x \<noteq> EQ) (n @ EQ # v) = EQ # v"
  by (induction n) auto

lemma takeWhile_all_name: "EQ \<notin> set n \<Longrightarrow> takeWhile (\<lambda>x. x \<noteq> EQ) n = n \<and> dropWhile (\<lambda>x. x \<noteq> EQ) n = []"
  by (induction n) auto

lemma getopt_spelled:
  assumes "writable sp co"
  shows "getopt_long [] (spell sp co @ args) = co # getopt_long [] args"
proof -
  obtain c v where co: "co = (c, v)" by (cases co)
  show ?thesis
  proof (cases "c = CHR ''H''")
    case True
    then have "v = []" using assms co by (simp add: writable_def)
    then show ?thesis
      using flag_char short_options(7) True co
      by (cases sp) (simp_all add: Let_def takeWhile_all_name [OF flag_char(2)])
  next
    case False
    then have c: "c \<in> set ''itachp''" and v: "sp = Short_Joined \<longrightarrow> v \<noteq> []" using assms co by (auto simp: writable_def)
    note o = option_chars [OF c]
    show ?thesis
      using o v co by (cases sp) (simp_all add: Let_def takeWhile_name [OF o(3)] takeWhile_all_name [OF o(3)])
  qed
qed

subsection \<open>Properties\<close>

text \<open>
  C36: \<open>main\<close> reads the options of a command line in their order, however each is written (\<open>-i eth0\<close>, \<open>-ieth0\<close>,
  \<open>--interface eth0\<close> or \<open>--interface=eth0\<close>, and \<open>-H\<close> or \<open>--hardware-timestamps\<close>), whatever its argument is, and sets up its threads
  from them.
\<close>

theorem command_line_options:
  assumes "\<forall>(sp, co)\<in>set xs. writable sp co"
  shows "getopt_long [] (concat (map (\<lambda>(sp, co). spell sp co) xs)) = map snd xs \<and>
    main_args sys (name # concat (map (\<lambda>(sp, co). spell sp co) xs)) = main_setup sys (map snd xs)"
proof -
  have "getopt_long [] (concat (map (\<lambda>(sp, co). spell sp co) xs)) = map snd xs"
    using assms
  proof (induction xs)
    case (Cons x xs)
    obtain sp co where x: "x = (sp, co)" by (cases x)
    then show ?case using Cons getopt_spelled [of sp co] by simp
  qed simp
  then show ?thesis by (simp add: main_args_def)
qed

definition sample_options :: "(spelling \<times> char \<times> byte list) list" where
  "sample_options = [(Short_Split, CHR ''i'', bytes_of ''eth0''), (Long_Joined, CHR ''t'', bytes_of ''2''),
     (Long_Split, CHR ''h'', bytes_of ''-x''), (Short_Joined, CHR ''H'', [])]"

theorem command_line_options_witness:
  "getopt_long [] (map bytes_of [''-i'', ''eth0'', ''--num-threads=2'', ''--udp-host'', ''-x'', ''-H'']) =
     [(CHR ''i'', bytes_of ''eth0''), (CHR ''t'', bytes_of ''2''), (CHR ''h'', bytes_of ''-x''), (CHR ''H'', [])]"
proof -
  have "\<forall>(sp, co)\<in>set sample_options. writable sp co" by code_simp
  moreover have "concat (map (\<lambda>(sp, co). spell sp co) sample_options) =
      map bytes_of [''-i'', ''eth0'', ''--num-threads=2'', ''--udp-host'', ''-x'', ''-H'']" by code_simp
  moreover have "map snd sample_options =
      [(CHR ''i'', bytes_of ''eth0''), (CHR ''t'', bytes_of ''2''), (CHR ''h'', bytes_of ''-x''), (CHR ''H'', [])]"
    by (simp add: sample_options_def)
  ultimately show ?thesis using command_line_options [of sample_options] by metis
qed

text \<open>
  The usage text is wrong about one option: it names the long form of \<open>-p\<close> as that of \<open>-h\<close>, which sets the
  host instead of the port.
\<close>

theorem usage_names_wrong_option:
  "filter (\<lambda>(c, n). map_option snd (long_option n) \<noteq> Some c) usage_options = [(CHR ''p'', bytes_of ''udp-host'')] \<and>
   getopt_long [] [MINUS # MINUS # bytes_of ''udp-host'', v] = [(CHR ''h'', v)]"
proof
  show "filter (\<lambda>(c, n). map_option snd (long_option n) \<noteq> Some c) usage_options = [(CHR ''p'', bytes_of ''udp-host'')]"
    by code_simp
  have "writable Long_Split (CHR ''h'', v)" "long_name (CHR ''h'') = bytes_of ''udp-host''"
    by (simp add: writable_def, code_simp)
  then show "getopt_long [] [MINUS # MINUS # bytes_of ''udp-host'', v] = [(CHR ''h'', v)]"
    using getopt_spelled [of Long_Split "(CHR ''h'', v)" "[]"] by simp
qed

end
