(* ===== verification/Spec2Isabelle.thy ===== *)
theory Spec2Isabelle
  imports Ring_TSO Vmars_System Vmars_Threads Khash_Iterate Map_Buffer Context_Types Counters_TSO Command_Line
begin

text \<open>
  A verification development of vmars, a probe that captures the FIX messages of an exchange gateway from the
  network and reports the latency between requests and responses.

  \<^bold>\<open>The program.\<close> \<^verbatim>\<open>src/main.c\<close> reads the options and starts capture threads, a counter thread and a latency
  thread. A capture thread (\<^verbatim>\<open>src/packet.c\<close>) walks the blocks of frames that the kernel writes into a mapped
  ring, and hands the TCP payload of the frames for its port to \<^verbatim>\<open>src/fix.c\<close>, which searches it for FIX messages
  (\<^verbatim>\<open>src/simpleboyermoore.c\<close>), keeps an unfinished message of a TCP stream as a fragment in a hash table
  (\<^verbatim>\<open>src/khash.h\<close>), parses the messages (\<^verbatim>\<open>src/fixparser.c\<close>), counts them and writes a summary of each measured
  message to a ring buffer (\<^verbatim>\<open>src/spsc_rb.c\<close>). The latency thread (\<^verbatim>\<open>src/latency_handler.c\<close>) drains the rings of
  all capture threads, pairs the summaries by their key in a second hash table and records the time between them
  in a histogram. The counter thread (\<^verbatim>\<open>src/counter_handler.c\<close>) adds up the counters of the capture threads.
  Both send their metrics as UDP datagrams (\<^verbatim>\<open>src/jodie_client.c\<close>).

  \<^bold>\<open>Conventions.\<close> A C function is a HOL function on explicit state; undefined behaviour is a value \<open>Inl\<close> of the
  type \<open>fault\<close> (an access outside an object, a signed overflow, the end of a loop's fuel), so that an equation
  \<open>f x = Inr y\<close> says that the code returns, that every access is in bounds, and what it computes. A \<open>char*\<close> is
  the list of the bytes from the pointer to the end of its object. Unsigned fields that wrap are words; an \<open>int\<close>
  that overflows is a fault. What the code gets from the outside (clock, sockets, \<open>sendto\<close>, the histogram
  library, the memory allocator) is an argument of the definitions. The prelude \<^verbatim>\<open>Vmars_Prelude\<close> holds this
  layer, with the string functions of the C library and the lemmas the components share.

  \<^bold>\<open>Theories, their sources and what they show.\<close>

  \<^item> \<^verbatim>\<open>Boyer_Moore\<close> (simpleboyermoore.c): the skip table and the search; it returns the first occurrence (C1).

  \<^item> \<^verbatim>\<open>Fix_Parser\<close> (fixparser.c) is the model of the parser with its SIMD checksum, its options and its callbacks;
    \<^verbatim>\<open>Fix_Message\<close> the grammar of messages and the theorems: checksum, round trip, safety, soundness, prefixes,
    bounds and the overflow of a long BodyLength (C2 to C6, C8).

  \<^item> \<^verbatim>\<open>Spsc_Ring\<close> (spsc_rb.c): claim, publish, poll and release on 64-bit positions and on the bytes of the double
    mapping, through the locale of a bounded queue (C9, C10). \<^verbatim>\<open>Map_Buffer\<close> shows, over the system calls as
    parameters and pages of any size, that \<open>map_buffer\<close> returns such a mapping, or memory that cannot be used when
    \<open>ftruncate\<close> has failed (C23). \<^verbatim>\<open>Ring_Threads\<close> runs a producer and a consumer in
    every interleaving of their operations, as an inductive step relation (C12), and shows that the next operation
    of each returns (C13), and \<^verbatim>\<open>Ring_TSO\<close> on the store
    buffers of x86-64 with the loads and stores of atomic.h, where just the same can be seen (C7).

  \<^item> \<^verbatim>\<open>Capture_Context\<close>, \<^verbatim>\<open>Fix_Details\<close>, \<^verbatim>\<open>Fix_Extract\<close> (fix.c): counters and fragments, the fields of a message and
    its summary, the extraction of messages from packets. \<^verbatim>\<open>Fix_Stream\<close> and \<^verbatim>\<open>Fix_Properties\<close> show that a
    stream is handled message by message however it is cut into packets (but for one cut, C16), what is published,
    and the inputs on which the code loses messages or leaves its memory (C14 to C18).

  \<^item> \<^verbatim>\<open>Metric_Sink\<close> is the contract of a sink of metrics, a locale, which \<^verbatim>\<open>Jodie_Client\<close> (jodie_client.c) provides:
    no metric is lost or cut, whatever \<open>sendto\<close> answers, until a buffer overflows, \<open>send_buffer\<close> behind failing
    sends or \<open>tmp_buf\<close> behind long units (C20 to C22). \<^verbatim>\<open>Counter_Handler\<close> (counter_handler.c) is its first client,
    with the copied and uncleared buffer that main gives it (C24); \<^verbatim>\<open>Counters_TSO\<close> takes
    its loads one by one against the store buffers of the capture threads: what a report adds up (C19).

  \<^item> \<^verbatim>\<open>Latency_Handler\<close> (latency_handler.c): the matching of requests with responses against its specification in
    any order of arrival, and the bounded draining of the rings (C27, C29); \<^verbatim>\<open>Latency_Path\<close> composes it with
    the extractor, for messages that are whole in their packets.

  \<^item> \<^verbatim>\<open>Packet\<close> (packet.c): frames, blocks and the ring of blocks shared with the kernel, again as a step relation
    (C31, C33, C34); a block holds frames of TCP over IPv4 and any frames that the code passes over, ARP or IPv6
    for instance. \<^verbatim>\<open>More_Memory\<close> shows that the extractor does not depend on what lies behind a payload in its
    block, and \<^verbatim>\<open>Packet_Streams\<close> composes the whole path for interleaved, segmented streams: from the blocks to
    the messages handled (C35) and to the latencies (C32). \<^verbatim>\<open>Context_Types\<close> is about any bytes at all: a capture thread
    that comes back from its blocks is in a well-formed state (C11). \<^verbatim>\<open>Vmars_System\<close> runs any number of capture threads and
    the latency thread in every interleaving (C28). \<^verbatim>\<open>Main_Config\<close> (main.c): options and the contexts of
    the threads, with the arithmetic in \<open>int\<close> and the unchecked vectors (C37, C38), and \<^verbatim>\<open>Command_Line\<close> the tables of options and how \<open>getopt_long\<close> reads them (C36).

  \<^item> \<^verbatim>\<open>Signal_Loop\<close> is the loop that the threads share, which may run forever, and the signal handlers that end it.
    \<^verbatim>\<open>Capture_Thread\<close> (packet.c) is the life of a capture thread over the system calls as a parameter, with a
    trace of the calls from which the resources held are read (C25); \<^verbatim>\<open>Vmars_Threads\<close> runs the three kinds of
    threads, their end (C30), and the calls with which \<open>main\<close> starts and joins them.

  \<^item> \<^verbatim>\<open>Khash\<close> (khash.h) is the model of the hash table at the level of its packed flag words. \<^verbatim>\<open>Khash_Probe\<close> shows that
    the flag macros act on one bucket and that triangular probing meets every bucket, \<^verbatim>\<open>Khash_Table\<close> states the
    invariant \<open>kh_rep hash h M\<close> (the table \<open>h\<close> holds the map \<open>M\<close>) and proves lookup, deletion and insertion,
    \<^verbatim>\<open>Khash_Resize\<close> the rehash in place, \<^verbatim>\<open>Khash_Map\<close> the locale \<open>bucket_table\<close> of what clients rely on and its
    interpretation. \<^verbatim>\<open>Khash_Clients\<close> models the fragments and the latency table over it and shows that neither
    can be told from the finite maps that the other theories use (C39, C40). \<^verbatim>\<open>Khash_Iterate\<close> is the rest of the file:
    iteration (C26), the release of a table and the hash functions on integers.

  \<^bold>\<open>Bounds and fuel.\<close> Loops whose end depends on data have fuel: the probing loops of the hash table twice the number
    of buckets (the probing is back at its start by then, and an empty bucket ends it earlier), the kick-out one
    more than the old buckets, the extraction one turn per byte, the draining of a ring its poll limit. The
    theorems give results \<open>Inr\<close>, so that the fuel is shown to be enough. Rings have \<open>2 ^ n\<close> bytes, \<open>n \<le> 30\<close>, and
    hash tables fewer than \<open>2 ^ 29\<close> entries, where their 32-bit sizes do not wrap.

  \<^bold>\<open>Not modelled.\<close> What system calls do beyond their results (except for the files and mappings of
  \<^verbatim>\<open>Map_Buffer\<close>); a turn that waits in \<open>poll\<close> (which has no timeout) or \<open>sleep\<close> is taken to come back; what is printed, and so
  \<^verbatim>\<open>src/common.c\<close>, which only calls \<open>vprintf\<close>; \<^verbatim>\<open>src/directio.c\<close>, a stand-alone benchmark of \<open>write\<close> that is no part of the
  probe; in \<^verbatim>\<open>src/khash.h\<close> hash sets, tables
  without values, which vmars does not instantiate.
  Four liberties are taken: the positions of a ring, of the type \<open>int64_t\<close>, are words that wrap, where in C they
  would overflow after \<open>2 ^ 63\<close> bytes; the \<open>malloc\<close> of a new fragment and those of \<open>split_string\<close> succeed; the string
  functions do nothing on a NULL pointer with the length 0, as \<open>strncpy\<close> for an instrument that is missing; and the
  address arithmetic of \<open>map_buffer\<close> does not wrap.
  The models of \<^verbatim>\<open>Fix_Extract\<close> and \<^verbatim>\<open>Latency_Handler\<close> are over finite maps, and C39 and C40 connect them to the hash
  table.
\<close>

end
